(* ===== verification/Umem_Prelude.thy ===== *)
theory Umem_Prelude
  imports Main "HOL-Library.Word"
begin

text \<open>
  Prelude of the umem-cache development.

  It fixes the names of the C integer types (\<open>uint8_t\<close> \<dots> \<open>uint64_t\<close> are words of
  that width), the constants of \<open>src/config.h\<close> that several components use, the
  alignment macros of \<open>src/align.h\<close>, and the generic facts about words, lists and
  options on which the component theories rely.
\<close>

unbundle bit_operations_syntax

type_synonym u8 = "8 word"
type_synonym u16 = "16 word"
type_synonym u32 = "32 word"
type_synonym u64 = "64 word"

subsection \<open>Constants of \<open>src/config.h\<close> and macros of \<open>src/align.h\<close>\<close>

definition PAGE_SHIFT :: nat where
  "PAGE_SHIFT = 12"

definition PAGE_MASK :: u64 where
  "PAGE_MASK = push_bit PAGE_SHIFT 1 - 1"

definition CONFIG_KEY_SIZE_MAX :: nat where
  "CONFIG_KEY_SIZE_MAX = 255"

definition ALIGN_MASK :: "'a::len word \<Rightarrow> 'a word \<Rightarrow> 'a word" where
  "ALIGN_MASK x m = (x + m) AND NOT m"

definition ALIGN :: "'a::len word \<Rightarrow> 'a word \<Rightarrow> 'a word" where
  "ALIGN x a = ALIGN_MASK x (a - 1)"

definition ALIGN_DOWN :: "'a::len word \<Rightarrow> 'a word \<Rightarrow> 'a word" where
  "ALIGN_DOWN x a = ALIGN_MASK (x - (a - 1)) (a - 1)"

subsection \<open>Low and high bits of words\<close>

lemma PAGE_MASK_mask: "PAGE_MASK = mask 12"
  by (simp add: PAGE_MASK_def PAGE_SHIFT_def mask_eq_exp_minus_1 push_bit_eq_mult)

lemma unat_bound: "unat (w :: 'a::len word) < 2 ^ LENGTH('a)"
  by (rule unsigned_less)

lemma unat_u64: "unat (w :: u64) < 2 ^ 64"
proof -
  have "LENGTH(64) = (64 :: nat)" by simp
  then show ?thesis using unat_bound [of w] by (simp only:)
qed

lemma unat_add_1: "(i :: u64) < m \<Longrightarrow> unat (i + 1) = Suc (unat i)"
  using unat_u64 [of m] by (simp add: unat_word_ariths word_less_nat_alt)

lemma unat_of_nat_u64: "n < 2 ^ 64 \<Longrightarrow> unat (of_nat n :: u64) = n"
  by (simp add: unat_of_nat)

lemma unat_exp_u64: "k < 64 \<Longrightarrow> unat (2 ^ k :: u64) = 2 ^ k"
  using unat_of_nat_u64 [of "2 ^ k"] power_strict_increasing [of k 64 "2 :: nat"] by simp

lemma unat_mask_u64: "k < 64 \<Longrightarrow> unat (mask k :: u64) = 2 ^ k - 1"
  using unat_exp_u64 [of k] unat_minus_one [of "2 ^ k :: u64"]
  by (cases "2 ^ k = (0 :: u64)") (auto simp: mask_eq_exp_minus_1)

lemma push_drop_bit: "push_bit n (drop_bit n x) = (x :: 'a::len word) AND NOT (mask n)"
  by (rule bit_word_eqI) (auto simp: bit_simps)

lemma and_not_mask_diff: "(x :: 'a::len word) AND NOT (mask n) = x - take_bit n x"
  using bits_ident [of n x] by (simp add: push_drop_bit eq_diff_eq)

lemma take_bit_add_aligned:
  fixes a d :: "'a::len word"
  assumes "take_bit n a = 0"
  shows "take_bit n (a + d) = take_bit n d"
proof (cases "n \<le> LENGTH('a)")
  case True
  have a: "take_bit n (unat a) = 0"
    using assms by (metis unsigned_0 unsigned_take_bit_eq)
  have "take_bit n (unat (a + d)) = take_bit n (unat a + unat d)"
    using True by (simp add: unat_word_ariths take_bit_take_bit min_def flip: take_bit_eq_mod)
  also have "\<dots> = take_bit n (unat d)"
    using take_bit_add [of n "unat a" "unat d"] a by simp
  finally show ?thesis
    by (simp add: word_unat_eq_iff unsigned_take_bit_eq)
next
  case False
  then show ?thesis using assms by (simp add: take_bit_word_eq_self)
qed

lemma page_of_aligned:
  fixes slab :: "'a::len word"
  assumes "take_bit n slab = 0"
  shows "(obj AND NOT (mask n)) - slab = (obj - slab) AND NOT (mask n)"
proof -
  have "take_bit n obj = take_bit n (obj - slab)"
    using take_bit_add_aligned [OF assms, of "obj - slab"] by simp
  then show ?thesis
    by (simp add: and_not_mask_diff algebra_simps)
qed

lemma take_bit_less:
  fixes d :: "'a::len word"
  assumes "unat d < 2 ^ n"
  shows "take_bit n d = d"
  using assms by (simp add: word_unat_eq_iff unsigned_take_bit_eq) (simp add: take_bit_eq_mod)

lemma take_bit_drop_small:
  fixes d :: "'a::len word"
  assumes "unat d < 2 ^ (m + n)"
  shows "take_bit m (drop_bit n d) = drop_bit n d"
  using take_bit_less [OF assms] by (simp add: take_bit_drop_bit)

lemma or_low_high:
  fixes obj i :: "'a::len word"
  assumes "take_bit m obj = 0" "take_bit m i = i"
  shows "take_bit m (obj OR i) = i" "(obj OR i) AND NOT (mask m) = obj"
proof -
  have o: "bit obj k \<Longrightarrow> \<not> k < m" for k
    using arg_cong [OF assms(1), of "\<lambda>w. bit w k"] by (auto simp: bit_simps)
  have i: "bit i k \<Longrightarrow> k < m" for k
    using arg_cong [OF assms(2), of "\<lambda>w. bit w k"] by (auto simp: bit_simps)
  show "take_bit m (obj OR i) = i" "(obj OR i) AND NOT (mask m) = obj"
    by (rule bit_word_eqI; auto simp: bit_simps dest: o i)+
qed

lemma or_low_page:
  fixes obj i :: "'a::len word"
  assumes "take_bit m i = i" "m \<le> n"
  shows "(obj OR i) AND NOT (mask n) = obj AND NOT (mask n)"
proof -
  have i: "bit i k \<Longrightarrow> k < m" for k
    using arg_cong [OF assms(1), of "\<lambda>w. bit w k"] by (auto simp: bit_simps)
  show ?thesis
    using assms(2) by (intro bit_word_eqI) (auto simp: bit_simps dest: i)
qed

subsection \<open>Lists\<close>

lemma remove_nth:
  assumes "i < length xs" "distinct xs"
  shows "set (take i xs @ drop (Suc i) xs) = set xs - {xs ! i}"
    and "distinct (take i xs @ drop (Suc i) xs)"
proof -
  have xs: "xs = take i xs @ xs ! i # drop (Suc i) xs"
    using assms(1) by (rule id_take_nth_drop)
  then have d: "distinct (take i xs @ xs ! i # drop (Suc i) xs)"
    and st: "set xs = set (take i xs @ xs ! i # drop (Suc i) xs)"
    using assms(2) by (simp_all only:)
  show "distinct (take i xs @ drop (Suc i) xs)"
    using d by simp
  show "set (take i xs @ drop (Suc i) xs) = set xs - {xs ! i}"
    unfolding st using d by auto
qed

lemma list_all2_set1E:
  assumes "list_all2 R xs ys" "x \<in> set xs"
  obtains y where "y \<in> set ys" "R x y"
  using assms by (induction xs ys rule: list_all2_induct) auto

lemma list_all2_setE:
  assumes "list_all2 R xs ys" "y \<in> set ys"
  obtains x where "x \<in> set xs" "R x y"
  using assms by (induction xs ys rule: list_all2_induct) auto

end
