(* ===== verification/Slab.thy ===== *)
theory Slab
  imports Umem_Prelude
begin

text \<open>
  Slabs and tagged object pointers: \<open>src/slab.h\<close> and \<open>src/slab.c\<close>.

  A slab is a run of \<open>2 ^ order\<close> pages cut into objects. A pointer to an object carries, in its
  three low bits, the index of the page of the slab the object starts in, so that the slab is
  found from the pointer alone (\<open>soo_slab\<close>). The lemmas show that this encoding is exact for
  every object of a slab, and that the search for a slab order always ends with a slab that
  wastes at most an eighth of its bytes.
\<close>

section \<open>Definitions\<close>

record slab_obj_offset =
  soo_x :: u64

definition SOO_OFFSET_SHIFT :: nat where
  "SOO_OFFSET_SHIFT = 3"

definition SOO_OFFSET_MASK :: u64 where
  "SOO_OFFSET_MASK = push_bit SOO_OFFSET_SHIFT 1 - 1"

definition SOO_OBJ :: "slab_obj_offset \<Rightarrow> u64" where
  "SOO_OBJ soo = soo_x soo AND NOT SOO_OFFSET_MASK"

definition SOO_OFFSET :: "slab_obj_offset \<Rightarrow> u64" where
  "SOO_OFFSET soo = soo_x soo AND SOO_OFFSET_MASK"

definition SOO_MAKE :: "u64 \<Rightarrow> u64 \<Rightarrow> slab_obj_offset" where
  "SOO_MAKE obj offset = \<lparr>soo_x = obj OR offset\<rparr>"

definition SLAB_OBJ_ALIGN :: nat where
  "SLAB_OBJ_ALIGN = 2 ^ SOO_OFFSET_SHIFT"

definition SLAB_ORDER_MAX :: nat where
  "SLAB_ORDER_MAX = SOO_OFFSET_SHIFT"

definition SLAB_SIZE :: "nat \<Rightarrow> nat" where
  "SLAB_SIZE order = 2 ^ order * 2 ^ PAGE_SHIFT"

definition SLAB_OBJ_SIZE_MAX :: nat where
  "SLAB_OBJ_SIZE_MAX =
     (let q = SLAB_SIZE SLAB_ORDER_MAX div (2 ^ SLAB_ORDER_MAX + 1)
      in q - q mod SLAB_OBJ_ALIGN)"

text \<open>The inner loop of \<open>slab_calculate_order\<close>: the orders from \<open>order\<close> up to the maximum.\<close>

function order_loop :: "nat \<Rightarrow> nat \<Rightarrow> nat \<Rightarrow> nat option" where
  "order_loop obj_size fraction order =
     (if order > SLAB_ORDER_MAX then None
      else let data_size = SLAB_SIZE order; rem = data_size mod obj_size
           in if rem \<le> data_size div fraction then Some order
              else order_loop obj_size fraction (order + 1))"
  by pat_completeness auto
termination
  by (relation "measure (\<lambda>(_, _, order). SLAB_ORDER_MAX + 1 - order)") auto

text \<open>
  The outer loop has no exit test of its own; a fraction of 0 or an object size of 0 would divide
  by zero, which is the value \<open>None\<close> here.
\<close>

function fraction_loop :: "nat \<Rightarrow> nat \<Rightarrow> nat option" where
  "fraction_loop obj_size fraction =
     (if fraction = 0 \<or> obj_size = 0 then None
      else case order_loop obj_size fraction 0 of
             Some order \<Rightarrow> Some order
           | None \<Rightarrow> fraction_loop obj_size (fraction div 2))"
  by pat_completeness auto
termination
  by (relation "measure snd") auto

definition slab_calculate_order :: "nat \<Rightarrow> nat option" where
  "slab_calculate_order obj_size = fraction_loop obj_size 16"

definition soo_slab :: "slab_obj_offset \<Rightarrow> u64" where
  "soo_slab soo =
     (let page = soo_x soo AND NOT PAGE_MASK
      in page - push_bit PAGE_SHIFT (SOO_OFFSET soo))"

definition soo_make :: "u64 \<Rightarrow> u64 \<Rightarrow> slab_obj_offset" where
  "soo_make slab obj =
     (let page = obj AND NOT PAGE_MASK;
          i = drop_bit PAGE_SHIFT (page - slab)
      in SOO_MAKE obj i)"

text \<open>
  The asserted conditions of \<open>soo_make\<close>: the slab starts on a page, the object is 8-byte
  aligned and starts in one of the at most eight pages of the slab.
\<close>

definition obj_in_slab :: "u64 \<Rightarrow> u64 \<Rightarrow> bool" where
  "obj_in_slab slab obj \<longleftrightarrow>
     slab AND PAGE_MASK = 0 \<and> obj AND SOO_OFFSET_MASK = 0 \<and>
     obj - slab < word_of_nat (SLAB_SIZE SLAB_ORDER_MAX)"

declare order_loop.simps [simp del] fraction_loop.simps [simp del]

lemmas slab_consts = SOO_OFFSET_SHIFT_def SLAB_OBJ_ALIGN_def SLAB_ORDER_MAX_def SLAB_SIZE_def
  SLAB_OBJ_SIZE_MAX_def PAGE_SHIFT_def

section \<open>Tagged object pointers\<close>

lemma SOO_OFFSET_MASK_mask: "SOO_OFFSET_MASK = mask 3"
  by (simp add: SOO_OFFSET_MASK_def SOO_OFFSET_SHIFT_def mask_eq_exp_minus_1)

lemmas soo_defs = SOO_MAKE_def SOO_OBJ_def SOO_OFFSET_def soo_slab_def
  PAGE_MASK_mask SOO_OFFSET_MASK_mask PAGE_SHIFT_def take_bit_eq_mask [symmetric]

lemma obj_in_slabD:
  assumes "obj_in_slab slab obj"
  shows "take_bit 12 slab = 0" "take_bit 3 obj = 0" "unat (obj - slab) < 2 ^ (3 + 12)"
  using assms
  by (auto simp: obj_in_slab_def PAGE_MASK_mask SOO_OFFSET_MASK_mask
        slab_consts word_less_nat_alt simp flip: take_bit_eq_mask)

lemma soo_make_index:
  assumes "obj_in_slab slab obj"
  shows "soo_make slab obj = \<lparr>soo_x = obj OR drop_bit 12 (obj - slab)\<rparr>"
proof -
  have "drop_bit 12 (x AND NOT (mask 12)) = drop_bit 12 x" for x :: u64
    by (rule bit_word_eqI) (auto simp: bit_simps dest: bit_imp_le_length)
  then show ?thesis
    by (simp add: soo_make_def soo_defs page_of_aligned [OF obj_in_slabD(1) [OF assms]])
qed

lemma soo_make_parts:
  assumes "obj_in_slab slab obj"
  shows "soo_slab (soo_make slab obj) = slab"
    and "SOO_OBJ (soo_make slab obj) = obj"
    and "SOO_OFFSET (soo_make slab obj) = drop_bit 12 (obj - slab)"
proof -
  note D = obj_in_slabD [OF assms]
  let ?i = "drop_bit 12 (obj - slab)"
  note i = take_bit_drop_small [OF D(3)]
  show "SOO_OBJ (soo_make slab obj) = obj" "SOO_OFFSET (soo_make slab obj) = ?i"
    using or_low_high [OF D(2) i] by (simp_all add: soo_make_index [OF assms] soo_defs)
  have "soo_slab (soo_make slab obj) = (obj AND NOT (mask 12)) - push_bit 12 ?i"
    using or_low_page [OF i, of 12 obj] or_low_high [OF D(2) i] by (simp add: soo_make_index [OF assms] soo_defs)
  also have "\<dots> = slab"
    using page_of_aligned [OF D(1), of obj] by (simp add: push_drop_bit [symmetric] diff_eq_eq) 
  finally show "soo_slab (soo_make slab obj) = slab" .
qed

text \<open>
  (C15) The tagged pointer made for any object of a slab gives back exactly the slab it was
  allocated from, the object's address and the index of its page.
\<close>
theorem soo_make_exact:
  assumes "obj_in_slab slab obj"
  shows "soo_slab (soo_make slab obj) = slab \<and> SOO_OBJ (soo_make slab obj) = obj \<and>
    SOO_OFFSET (soo_make slab obj) = drop_bit PAGE_SHIFT (obj - slab)"
  using soo_make_parts [OF assms] by (simp add: PAGE_SHIFT_def)

theorem soo_make_exact_witness:
  "obj_in_slab 0x7000 0x9008 \<and> soo_slab (soo_make 0x7000 0x9008) = 0x7000 \<and>
   SOO_OBJ (soo_make 0x7000 0x9008) = 0x9008 \<and>
   SOO_OFFSET (soo_make 0x7000 0x9008) = drop_bit PAGE_SHIFT (0x9008 - 0x7000)"
proof -
  have h: "obj_in_slab 0x7000 0x9008"
    by (simp add: obj_in_slab_def PAGE_MASK_def PAGE_SHIFT_def SOO_OFFSET_MASK_def slab_consts)
  show ?thesis
    using h soo_make_exact [OF h] by blast
qed

section \<open>The search for a slab order\<close>

lemma order_loop_find_from:
  "order_loop obj_size fraction order =
     find (\<lambda>order. SLAB_SIZE order mod obj_size \<le> SLAB_SIZE order div fraction)
       [order..<SLAB_ORDER_MAX + 1]"
proof (induction obj_size fraction order rule: order_loop.induct)
  case (1 obj_size fraction order)
  show ?case
  proof (cases "order > SLAB_ORDER_MAX")
    case True
    then show ?thesis
      by (simp add: order_loop.simps [of obj_size fraction order])
  next
    case False
    then have "[order..<SLAB_ORDER_MAX + 1] = order # [order + 1..<SLAB_ORDER_MAX + 1]"
      by (simp add: upt_conv_Cons)
    with False 1 show ?thesis
      by (simp add: order_loop.simps [of obj_size fraction order] Let_def)
  qed
qed

lemma order_loop_find:
  "order_loop obj_size fraction 0 =
     find (\<lambda>order. SLAB_SIZE order mod obj_size \<le> SLAB_SIZE order div fraction) [0, 1, 2, 3]"
proof -
  have "[0..<SLAB_ORDER_MAX + 1] = [0, 1, 2, 3]"
    by (simp add: SLAB_ORDER_MAX_def SOO_OFFSET_SHIFT_def upt_conv_Cons numeral_eq_Suc)
  then show ?thesis
    by (simp only: order_loop_find_from)
qed

lemma order_loop_eighth:
  assumes "0 < obj_size" "obj_size \<le> SLAB_OBJ_SIZE_MAX"
  shows "order_loop obj_size 8 0 \<noteq> None"
proof -
  have "SLAB_SIZE 3 mod obj_size \<le> SLAB_SIZE 3 div 8"
  proof -
    have "SLAB_SIZE 3 mod obj_size < obj_size"
      using assms(1) by simp
    then show ?thesis
      using assms(2) by (simp add: slab_consts)
  qed
  then show ?thesis
    by (simp add: order_loop_find)
qed

lemma order_loopD:
  assumes "order_loop obj_size fraction 0 = Some order"
  shows "order \<le> SLAB_ORDER_MAX" "SLAB_SIZE order mod obj_size \<le> SLAB_SIZE order div fraction"
  using assms by (auto simp: order_loop_find slab_consts split: if_splits)

lemma slab_calculate_order_cases:
  assumes "0 < obj_size" "obj_size \<le> SLAB_OBJ_SIZE_MAX"
  shows "slab_calculate_order obj_size =
    (case order_loop obj_size 16 0 of Some order \<Rightarrow> Some order | None \<Rightarrow> order_loop obj_size 8 0)"
proof -
  have "fraction_loop obj_size 8 = order_loop obj_size 8 0"
    using assms order_loop_eighth [OF assms] by (auto simp: fraction_loop.simps [of _ 8] split: option.split)
  then show ?thesis
    using assms by (simp add: slab_calculate_order_def fraction_loop.simps [of _ 16] split: option.split)
qed

text \<open>
  (C16) For every object size the caches use, the endless-looking double loop of
  \<open>slab_calculate_order\<close> returns an order of at most \<open>SLAB_ORDER_MAX\<close> without dividing by
  zero, and a slab of that order wastes at most an eighth of its bytes.
\<close>
theorem slab_calculate_order_total:
  assumes "0 < obj_size" and "obj_size \<le> SLAB_OBJ_SIZE_MAX"
  shows "\<exists>order. slab_calculate_order obj_size = Some order \<and> order \<le> SLAB_ORDER_MAX \<and>
    SLAB_SIZE order mod obj_size \<le> SLAB_SIZE order div 8"
proof (cases "order_loop obj_size 16 0")
  case None
  then obtain order where "order_loop obj_size 8 0 = Some order"
    using order_loop_eighth [OF assms] by auto
  with None show ?thesis
    using order_loopD slab_calculate_order_cases [OF assms] by auto
next
  case (Some order)
  then have "SLAB_SIZE order mod obj_size \<le> SLAB_SIZE order div 16"
    by (rule order_loopD)
  also have "\<dots> \<le> SLAB_SIZE order div 8"
    by (rule div_le_mono2) simp_all
  finally show ?thesis
    using Some order_loopD(1) slab_calculate_order_cases [OF assms] by auto
qed

theorem slab_calculate_order_total_witness:
  "\<exists>order. slab_calculate_order 1000 = Some order \<and> order \<le> SLAB_ORDER_MAX \<and>
    SLAB_SIZE order mod 1000 \<le> SLAB_SIZE order div 8"
  by (rule slab_calculate_order_total) (simp_all add: slab_consts)

end
