(* ===== verification/Intrusive_List.thy ===== *)
theory Intrusive_List
  imports Umem_Prelude
begin

text \<open>
  The intrusive lists of \<open>src/list.h\<close>: the circular doubly linked \<open>list_head\<close> (LRU lists,
  waiting connections, authority connections) and the \<open>hlist\<close> whose nodes point back at the
  pointer that points at them (hash buckets, kv borrowers, clock lists).

  Both are modelled on an explicit store, every C assignment one store update in the order the
  source has it, so that the aliasing of a list of one or two nodes is covered. \<open>dlist h head xs\<close>
  and \<open>hlist h head xs\<close> say that the store \<open>h\<close> holds, at \<open>head\<close>, the list with the nodes \<open>xs\<close>.
  The locale \<open>intrusive_list\<close> is the contract the clients rely on: what adding, deleting and
  relocating a node do to the list the node is on and to every other list.
\<close>

section \<open>The doubly linked list\<close>

record 'a list_head =
  lh_prev :: 'a
  lh_next :: 'a

type_synonym 'a list_store = "'a \<Rightarrow> 'a list_head"

definition set_prev :: "'a list_store \<Rightarrow> 'a \<Rightarrow> 'a \<Rightarrow> 'a list_store" where
  "set_prev h p v = h(p := h p\<lparr>lh_prev := v\<rparr>)"

definition set_next :: "'a list_store \<Rightarrow> 'a \<Rightarrow> 'a \<Rightarrow> 'a list_store" where
  "set_next h p v = h(p := h p\<lparr>lh_next := v\<rparr>)"

definition list_head_init :: "'a list_store \<Rightarrow> 'a \<Rightarrow> 'a list_store" where
  "list_head_init h head = set_next (set_prev h head head) head head"

definition list_empty :: "'a list_store \<Rightarrow> 'a \<Rightarrow> bool" where
  "list_empty h head \<longleftrightarrow> lh_next (h head) = head"

definition list_add_between :: "'a list_store \<Rightarrow> 'a \<Rightarrow> 'a \<Rightarrow> 'a \<Rightarrow> 'a list_store" where
  "list_add_between h new p n =
     (let h1 = set_prev h new p;
          h2 = set_next h1 new n;
          h3 = set_next h2 p new
      in set_prev h3 n new)"

definition list_add :: "'a list_store \<Rightarrow> 'a \<Rightarrow> 'a \<Rightarrow> 'a list_store" where
  "list_add h head new = list_add_between h new head (lh_next (h head))"

definition list_del_between :: "'a list_store \<Rightarrow> 'a \<Rightarrow> 'a \<Rightarrow> 'a list_store" where
  "list_del_between h p n = set_prev (set_next h p n) n p"

definition list_del :: "'a list_store \<Rightarrow> 'a \<Rightarrow> 'a list_store" where
  "list_del h node = list_del_between h (lh_prev (h node)) (lh_next (h node))"

definition list_fix :: "'a list_store \<Rightarrow> 'a \<Rightarrow> 'a list_store" where
  "list_fix h head =
     (let h1 = set_next h (lh_prev (h head)) head
      in set_prev h1 (lh_next (h1 head)) head)"

definition list_first_entry :: "'a list_store \<Rightarrow> 'a \<Rightarrow> 'a" where
  "list_first_entry h head = lh_next (h head)"

definition list_next_entry :: "'a list_store \<Rightarrow> 'a \<Rightarrow> 'a" where
  "list_next_entry h entry = lh_next (h entry)"

text \<open>
  \<open>list_for_each_entry\<close>: the entries the loop visits, from \<open>cur\<close> until the head. On a store
  where the head is never reached the loop does not end, which is the value \<open>None\<close>.
\<close>

partial_function (option) list_walk :: "'a list_store \<Rightarrow> 'a \<Rightarrow> 'a \<Rightarrow> 'a list option" where
  "list_walk h head cur =
     (if cur = head then Some []
      else Option.bind (list_walk h head (list_next_entry h cur)) (\<lambda>xs. Some (cur # xs)))"

definition list_for_each_entry :: "'a list_store \<Rightarrow> 'a \<Rightarrow> 'a list option" where
  "list_for_each_entry h head = list_walk h head (list_first_entry h head)"

definition list_lru_add :: "'a list_store \<Rightarrow> 'a \<Rightarrow> 'a \<Rightarrow> 'a list_store" where
  "list_lru_add h head new = list_add h head new"

definition list_lru_del :: "'a list_store \<Rightarrow> 'a \<Rightarrow> 'a list_store" where
  "list_lru_del h node = list_del h node"

definition list_lru_next_active :: "'a list_store \<Rightarrow> 'a \<Rightarrow> 'a" where
  "list_lru_next_active h node = lh_prev (h node)"

definition list_lru_peek :: "'a list_store \<Rightarrow> 'a \<Rightarrow> 'a" where
  "list_lru_peek h head = lh_prev (h head)"

text \<open>
  Moving a node in memory, as \<open>migrate\<close> of \<open>src/kv_cache.c\<close> does it: the bytes of the node are
  copied to the new address and \<open>list_fix\<close> repairs the neighbours.
\<close>

definition list_relocate :: "'a list_store \<Rightarrow> 'a \<Rightarrow> 'a \<Rightarrow> 'a list_store" where
  "list_relocate h from to = list_fix (h(to := h from)) to"

text \<open>
  The nodes \<open>xs\<close> lie between \<open>a\<close> and \<open>b\<close>, linked in both directions; a list is such a
  segment from its head back to its head.
\<close>

fun linked :: "'a list_store \<Rightarrow> 'a \<Rightarrow> 'a list \<Rightarrow> 'a \<Rightarrow> bool" where
  "linked h a [] b \<longleftrightarrow> lh_next (h a) = b \<and> lh_prev (h b) = a"
| "linked h a (x # xs) b \<longleftrightarrow> lh_next (h a) = x \<and> lh_prev (h x) = a \<and> linked h x xs b"

definition dlist :: "'a list_store \<Rightarrow> 'a \<Rightarrow> 'a list \<Rightarrow> bool" where
  "dlist h head xs \<longleftrightarrow> distinct (head # xs) \<and> linked h head xs head"

section \<open>The hash list\<close>

text \<open>\<open>prev_next\<close> holds the address of a pointer: the \<open>first\<close> field of a head or the \<open>next\<close> field
  of a node.\<close>

datatype 'a hloc = HFirst 'a | HNext 'a

record 'a hlist_node =
  hn_prev_next :: "'a hloc"
  hn_next :: "'a option"

record 'a hlist_store =
  hs_first :: "'a \<Rightarrow> 'a option"
  hs_node :: "'a \<Rightarrow> 'a hlist_node"

fun hloc_set :: "'a hlist_store \<Rightarrow> 'a hloc \<Rightarrow> 'a option \<Rightarrow> 'a hlist_store" where
  "hloc_set h (HFirst a) v = h\<lparr>hs_first := (hs_first h)(a := v)\<rparr>"
| "hloc_set h (HNext a) v = h\<lparr>hs_node := (hs_node h)(a := hs_node h a\<lparr>hn_next := v\<rparr>)\<rparr>"

definition set_prev_next :: "'a hlist_store \<Rightarrow> 'a \<Rightarrow> 'a hloc \<Rightarrow> 'a hlist_store" where
  "set_prev_next h a l = h\<lparr>hs_node := (hs_node h)(a := hs_node h a\<lparr>hn_prev_next := l\<rparr>)\<rparr>"

definition hlist_head_init :: "'a hlist_store \<Rightarrow> 'a \<Rightarrow> 'a hlist_store" where
  "hlist_head_init h head = hloc_set h (HFirst head) None"

definition hlist_empty :: "'a hlist_store \<Rightarrow> 'a \<Rightarrow> bool" where
  "hlist_empty h head \<longleftrightarrow> hs_first h head = None"

definition hlist_add :: "'a hlist_store \<Rightarrow> 'a \<Rightarrow> 'a \<Rightarrow> 'a hlist_store" where
  "hlist_add h head new =
     (let h1 = set_prev_next h new (HFirst head);
          first = hs_first h1 head;
          h2 = hloc_set h1 (HNext new) first;
          h3 = (case first of None \<Rightarrow> h2 | Some f \<Rightarrow> set_prev_next h2 f (HNext new))
      in hloc_set h3 (HFirst head) (Some new))"

definition hlist_del :: "'a hlist_store \<Rightarrow> 'a \<Rightarrow> 'a hlist_store" where
  "hlist_del h node =
     (let prev_next = hn_prev_next (hs_node h node);
          nxt = hn_next (hs_node h node);
          h1 = hloc_set h prev_next nxt
      in case nxt of None \<Rightarrow> h1 | Some n \<Rightarrow> set_prev_next h1 n prev_next)"

definition hlist_node_fix :: "'a hlist_store \<Rightarrow> 'a \<Rightarrow> 'a hlist_store" where
  "hlist_node_fix h node =
     (let h1 = hloc_set h (hn_prev_next (hs_node h node)) (Some node)
      in case hn_next (hs_node h1 node) of
           None \<Rightarrow> h1
         | Some n \<Rightarrow> set_prev_next h1 n (HNext node))"

text \<open>Copying a node and repairing its neighbours (\<open>kv_enable\<close>, \<open>migrate\<close>, lock hand-over).\<close>

definition hlist_relocate :: "'a hlist_store \<Rightarrow> 'a \<Rightarrow> 'a \<Rightarrow> 'a hlist_store" where
  "hlist_relocate h from to =
     hlist_node_fix (h\<lparr>hs_node := (hs_node h)(to := hs_node h from)\<rparr>) to"

partial_function (option) hlist_walk :: "'a hlist_store \<Rightarrow> 'a option \<Rightarrow> 'a list option" where
  "hlist_walk h cur =
     (case cur of None \<Rightarrow> Some []
      | Some c \<Rightarrow> Option.bind (hlist_walk h (hn_next (hs_node h c))) (\<lambda>xs. Some (c # xs)))"

definition hlist_for_each :: "'a hlist_store \<Rightarrow> 'a \<Rightarrow> 'a list option" where
  "hlist_for_each h head = hlist_walk h (hs_first h head)"

fun hchain :: "'a hlist_store \<Rightarrow> 'a hloc \<Rightarrow> 'a option \<Rightarrow> 'a list \<Rightarrow> bool" where
  "hchain h l p [] \<longleftrightarrow> p = None"
| "hchain h l p (x # xs) \<longleftrightarrow>
     p = Some x \<and> hn_prev_next (hs_node h x) = l \<and> hchain h (HNext x) (hn_next (hs_node h x)) xs"

definition hlist :: "'a hlist_store \<Rightarrow> 'a \<Rightarrow> 'a list \<Rightarrow> bool" where
  "hlist h head xs \<longleftrightarrow> distinct xs \<and> hchain h (HFirst head) (hs_first h head) xs"

text \<open>A suffix of the chain hangs off the location that stores the pointer to its first node.\<close>

fun hloc_after :: "'a hloc \<Rightarrow> 'a list \<Rightarrow> 'a hloc" where
  "hloc_after l [] = l"
| "hloc_after l (x # xs) = hloc_after (HNext x) xs"

fun hseg :: "'a hlist_store \<Rightarrow> 'a hloc \<Rightarrow> 'a option \<Rightarrow> 'a list \<Rightarrow> 'a option \<Rightarrow> bool" where
  "hseg h l p [] q \<longleftrightarrow> p = q"
| "hseg h l p (x # xs) q \<longleftrightarrow>
     p = Some x \<and> hn_prev_next (hs_node h x) = l \<and> hseg h (HNext x) (hn_next (hs_node h x)) xs q"

text \<open>Small stores on which the witnesses run.\<close>

definition two_lists :: "nat list_store" where
  "two_lists = list_add (list_add (list_add
     (list_head_init (list_head_init (\<lambda>a. \<lparr>lh_prev = a, lh_next = a\<rparr>) 0) 9) 0 1) 0 2) 9 3"

definition one_bucket :: "nat hlist_store" where
  "one_bucket = hlist_add (hlist_add
     (hlist_head_init \<lparr>hs_first = (\<lambda>_. None), hs_node = (\<lambda>_. \<lparr>hn_prev_next = HFirst 0, hn_next = None\<rparr>)\<rparr> 0)
     0 2) 0 1"

section \<open>Facts about the doubly linked list\<close>

lemma set_prev_sel [simp]:
  "lh_prev (set_prev h p v a) = (if a = p then v else lh_prev (h a))"
  "lh_next (set_prev h p v a) = lh_next (h a)"
  by (simp_all add: set_prev_def)

lemma set_next_sel [simp]:
  "lh_next (set_next h p v a) = (if a = p then v else lh_next (h a))"
  "lh_prev (set_next h p v a) = lh_prev (h a)"
  by (simp_all add: set_next_def)

lemma linked_append: "linked h a (xs @ y # ys) b \<longleftrightarrow> linked h a xs y \<and> linked h y ys b"
  by (induction xs arbitrary: a) auto

lemma linked_cong:
  assumes "linked h a xs b"
    and "\<And>x. x \<in> set (a # xs) \<Longrightarrow> lh_next (h' x) = lh_next (h x)"
    and "\<And>x. x \<in> set (xs @ [b]) \<Longrightarrow> lh_prev (h' x) = lh_prev (h x)"
  shows "linked h' a xs b"
  using assms by (induction xs arbitrary: a) auto

lemma linked_last: "linked h a xs b \<Longrightarrow> lh_prev (h b) = last (a # xs)"
  by (induction xs arbitrary: a) auto

lemma linked_first: "linked h a xs b \<Longrightarrow> lh_next (h a) = hd (xs @ [b])"
  by (cases xs) auto

text \<open>Replacing the nodes between two segments by none (deletion) or by one (insertion).\<close>

lemma linked_bypass:
  assumes "linked h a xs n" "linked h n ys b" "distinct (a # xs)" "distinct (ys @ [b])"
    and "set xs \<inter> set (ys @ [b]) = {}" "a \<notin> set ys"
  shows "linked (list_del_between h (last (a # xs)) (hd (ys @ [b]))) a (xs @ ys) b"
proof (cases xs rule: rev_cases)
  case Nil
  with assms show ?thesis
    by (cases ys) (auto simp: list_del_between_def intro!: linked_cong [where h = h])
next
  case (snoc xs' p)
  with assms show ?thesis
    by (cases ys)
      (auto simp: list_del_between_def linked_append intro!: linked_cong [where h = h])
qed

lemma linked_join:
  assumes "linked h a xs n" "linked h n ys b" "distinct (a # xs)" "distinct (ys @ [b])"
    and "set xs \<inter> set (ys @ [b]) = {}" "a \<notin> set ys"
    and "m \<notin> set (a # xs @ ys @ [b])"
    and "lh_prev (h m) = last (a # xs)" "lh_next (h m) = hd (ys @ [b])"
  shows "linked (set_prev (set_next h (last (a # xs)) m) (hd (ys @ [b])) m) a (xs @ m # ys) b"
proof (cases xs rule: rev_cases)
  case Nil
  with assms show ?thesis
    by (cases ys) (auto simp: linked_append intro!: linked_cong [where h = h])
next
  case (snoc xs' p)
  with assms show ?thesis
    by (cases ys) (auto simp: linked_append intro!: linked_cong [where h = h])
qed

lemma dlist_init: "dlist (list_head_init h head) head []"
  by (simp add: dlist_def list_head_init_def)

lemma dlist_empty: "dlist h head xs \<Longrightarrow> list_empty h head \<longleftrightarrow> xs = []"
  by (cases xs) (auto simp: dlist_def list_empty_def)

lemma dlist_distinct: "dlist h head xs \<Longrightarrow> distinct (head # xs)"
  by (simp add: dlist_def)

lemma dlist_del:
  assumes "dlist h head (xs @ n # ys)"
  shows "dlist (list_del h n) head (xs @ ys)"
proof -
  have l: "linked h head xs n" "linked h n ys head" and d: "distinct (head # xs @ n # ys)"
    using assms by (auto simp: dlist_def linked_append)
  then have "list_del h n = list_del_between h (last (head # xs)) (hd (ys @ [head]))"
    by (simp add: list_del_def linked_last linked_first)
  moreover have "linked (list_del_between h (last (head # xs)) (hd (ys @ [head]))) head (xs @ ys) head"
    using d by (intro linked_bypass [OF l]) auto
  ultimately show ?thesis
    using d by (simp add: dlist_def)
qed

lemma dlist_add:
  assumes "dlist h head xs" "new \<notin> set (head # xs)"
  shows "dlist (list_add h head new) head (new # xs)"
proof (cases xs)
  case Nil
  with assms show ?thesis
    by (auto simp: dlist_def list_add_def list_add_between_def Let_def)
next
  case (Cons x xs')
  with assms show ?thesis
    by (auto simp: dlist_def list_add_def list_add_between_def Let_def
        intro!: linked_cong [where h = h])
qed

lemma dlist_relocate:
  assumes "dlist h head (xs @ from # ys)" "to \<notin> set (head # xs @ from # ys)"
  shows "dlist (list_relocate h from to) head (xs @ to # ys)"
proof -
  let ?h = "h(to := h from)"
  have l: "linked h head xs from" "linked h from ys head" and d: "distinct (head # xs @ from # ys)"
    using assms by (auto simp: dlist_def linked_append)
  have l': "linked ?h head xs from" "linked ?h from ys head"
    using assms by (auto intro!: linked_cong [OF l(1)] linked_cong [OF l(2)])
  have p: "lh_prev (?h to) = last (head # xs)" and n: "lh_next (?h to) = hd (ys @ [head])"
    using l by (simp_all add: linked_last linked_first)
  have "to \<noteq> last (head # xs)" 
    using assms(2) last_in_set [of "head # xs"] by auto
  then have "list_relocate h from to =
      set_prev (set_next ?h (last (head # xs)) to) (hd (ys @ [head])) to"
    using p n by (auto simp: list_relocate_def list_fix_def Let_def)
  moreover have "linked (set_prev (set_next ?h (last (head # xs)) to) (hd (ys @ [head])) to)
      head (xs @ to # ys) head"
    using d assms(2) p n by (intro linked_join [OF l']) auto
  moreover have "head \<noteq> to"
    using assms(2) by auto
  ultimately show ?thesis
    using d assms(2) by (simp add: dlist_def)
qed

lemma list_walk_linked:
  assumes "linked h a xs b" "b \<notin> set xs"
  shows "list_walk h b (lh_next (h a)) = Some xs"
  using assms
proof (induction xs arbitrary: a)
  case Nil
  then show ?case by (simp add: list_walk.simps)
next
  case (Cons x xs)
  then show ?case
    by (auto simp: list_walk.simps [of h b x] list_next_entry_def)
qed

lemma dlist_for_each:
  assumes "dlist h head xs"
  shows "list_for_each_entry h head = Some xs"
  using assms
  by (auto simp: list_for_each_entry_def list_first_entry_def dlist_def intro!: list_walk_linked)

lemma dlist_unique: "dlist h head xs \<Longrightarrow> dlist h head ys \<Longrightarrow> xs = ys"
  by (frule dlist_for_each, drule dlist_for_each [of _ _ ys]) simp

lemma dlist_peek:
  assumes "dlist h head xs" "xs \<noteq> []"
  shows "list_lru_peek h head = last xs"
  using assms by (auto simp: dlist_def list_lru_peek_def dest: linked_last)

lemma dlist_frame:
  assumes "dlist h head xs"
    and "\<And>x. x \<in> set (head # xs) \<Longrightarrow> h' x = h x"
  shows "dlist h' head xs"
  using assms by (auto simp: dlist_def intro: linked_cong)

lemma linked_neighbours:
  assumes "linked h a xs n" "linked h n ys b"
  shows "lh_prev (h n) \<in> set (a # xs)" "lh_next (h n) \<in> set (ys @ [b])"
  using assms last_in_set [of "a # xs"] hd_in_set [of "ys @ [b]"]
  by (auto simp: linked_last linked_first)

lemma list_add_frame:
  assumes "dlist h head xs" "x \<notin> set (head # xs)" "x \<noteq> new"
  shows "list_add h head new x = h x"
proof -
  have "lh_next (h head) \<in> set (head # xs)"
    using assms(1) linked_first [of h head xs head] hd_in_set [of "xs @ [head]"]
    by (auto simp: dlist_def)
  then show ?thesis
    using assms
    by (auto simp: list_add_def list_add_between_def Let_def set_prev_def set_next_def)
qed

lemma list_del_frame:
  assumes "dlist h head (xs @ n # ys)" "x \<notin> set (head # xs @ ys)"
  shows "list_del h n x = h x"
proof -
  have "linked h head xs n" "linked h n ys head"
    using assms(1) by (auto simp: dlist_def linked_append)
  from linked_neighbours [OF this] show ?thesis
    using assms(2)
    by (auto simp: list_del_def list_del_between_def set_prev_def set_next_def)
qed

section \<open>Facts about the hash list\<close>

lemma hloc_set_sel [simp]:
  "hn_prev_next (hs_node (hloc_set h l v) a) = hn_prev_next (hs_node h a)"
  "hn_next (hs_node (hloc_set h l v) a) = (if l = HNext a then v else hn_next (hs_node h a))"
  "hs_first (hloc_set h l v) a = (if l = HFirst a then v else hs_first h a)"
  by (cases l; simp)+

lemma set_prev_next_sel [simp]:
  "hn_prev_next (hs_node (set_prev_next h a l) b) = (if b = a then l else hn_prev_next (hs_node h b))"
  "hn_next (hs_node (set_prev_next h a l) b) = hn_next (hs_node h b)"
  "hs_first (set_prev_next h a l) b = hs_first h b"
  by (simp_all add: set_prev_next_def)

lemma hchain_cong:
  assumes "hchain h l p xs"
    and "\<And>x. x \<in> set xs \<Longrightarrow> hn_next (hs_node h' x) = hn_next (hs_node h x)"
    and "\<And>x. x \<in> set xs \<Longrightarrow> hn_prev_next (hs_node h' x) = hn_prev_next (hs_node h x)"
  shows "hchain h' l p xs"
  using assms by (induction xs arbitrary: l p) auto

lemma hloc_after_snoc [simp]: "hloc_after l (xs @ [x]) = HNext x"
  by (induction xs arbitrary: l) auto

lemma hseg_cong:
  assumes "hseg h l p xs q"
    and "\<And>x. x \<in> set xs \<Longrightarrow> hn_next (hs_node h' x) = hn_next (hs_node h x)"
    and "\<And>x. x \<in> set xs \<Longrightarrow> hn_prev_next (hs_node h' x) = hn_prev_next (hs_node h x)"
  shows "hseg h' l p xs q"
  using assms by (induction xs arbitrary: l p) auto

lemma hseg_snoc:
  "hseg h l p (xs @ [m]) q \<longleftrightarrow>
     hseg h l p xs (Some m) \<and> hn_prev_next (hs_node h m) = hloc_after l xs \<and> hn_next (hs_node h m) = q"
  by (induction xs arbitrary: l p) auto

lemma hchain_append:
  "hchain h l p (xs @ ys) \<longleftrightarrow> (\<exists>q. hseg h l p xs q \<and> hchain h (hloc_after l xs) q ys)"
  by (induction xs arbitrary: l p) auto

lemma hchain_appendI:
  "hseg h l p xs q \<Longrightarrow> hchain h (hloc_after l xs) q ys \<Longrightarrow> hchain h l p (xs @ ys)"
  by (auto simp: hchain_append)

lemma hseg_None: "hseg h l p xs None \<longleftrightarrow> hchain h l p xs"
  by (induction xs arbitrary: l p) auto

lemma hlist_init: "hlist (hlist_head_init h head) head []"
  by (simp add: hlist_def hlist_head_init_def)

lemma hlist_empty_iff: "hlist h head xs \<Longrightarrow> hlist_empty h head \<longleftrightarrow> xs = []"
  by (cases xs) (auto simp: hlist_def hlist_empty_def)

lemma hlist_add:
  assumes "hlist h head xs" "new \<notin> set xs"
  shows "hlist (hlist_add h head new) head (new # xs)"
  using assms
  by (cases xs) (auto simp: hlist_def hlist_add_def Let_def intro!: hchain_cong [where h = h])

text \<open>Storing \<open>v\<close> through the location after \<open>xs\<close> ends the segment \<open>xs\<close> at \<open>v\<close>.\<close>

lemma hseg_redirect:
  assumes "hseg h (HFirst head) (hs_first h head) xs q" "distinct xs"
  shows "hseg (hloc_set h (hloc_after (HFirst head) xs) v) (HFirst head)
    (hs_first (hloc_set h (hloc_after (HFirst head) xs) v) head) xs v"
proof (cases xs rule: rev_cases)
  case Nil
  then show ?thesis by simp
next
  case (snoc xs' m)
  with assms show ?thesis
    by (auto simp: hseg_snoc intro!: hseg_cong [where h = h])
qed

lemma hloc_after_notin:
  "n \<notin> set xs \<Longrightarrow> hloc_after (HFirst head) xs \<noteq> HNext n"
  by (cases xs rule: rev_cases) auto

lemma hlist_del:
  assumes "hlist h head (xs @ n # ys)"
  shows "hlist (hlist_del h n) head (xs @ ys)"
proof -
  let ?l = "hloc_after (HFirst head) xs"
  from assms obtain q where s: "hseg h (HFirst head) (hs_first h head) xs q"
    and c: "hn_prev_next (hs_node h n) = ?l" "hchain h (HNext n) (hn_next (hs_node h n)) ys"
    and d: "distinct (xs @ n # ys)"
    by (auto simp: hlist_def hchain_append)
  let ?h = "hloc_set h ?l (hn_next (hs_node h n))"
  have s': "hseg ?h (HFirst head) (hs_first ?h head) xs (hn_next (hs_node h n))"
    using s d by (intro hseg_redirect) auto
  have l: "?l \<noteq> HNext y" if "y \<in> set ys" for y
    using d that by (intro hloc_after_notin) auto
  show ?thesis
  proof (cases ys)
    case Nil
    then show ?thesis
      using c s' d by (simp add: hlist_del_def hlist_def hseg_None Let_def)
  next
    case (Cons y ys')
    then have "hlist_del h n = set_prev_next ?h y ?l"
      using c by (simp add: hlist_del_def Let_def)
    moreover have "hseg (set_prev_next ?h y ?l) (HFirst head) (hs_first ?h head) xs
        (hn_next (hs_node h n))"
      by (rule hseg_cong [OF s']) (use Cons d in auto)
    moreover have "hn_next (hs_node h n) = Some y"
      using c Cons by simp
    moreover have "hchain (set_prev_next ?h y ?l) ?l (Some y) ys"
      using c Cons d l by (auto intro!: hchain_cong [where h = h])
    ultimately have "hchain (hlist_del h n) (HFirst head) (hs_first (hlist_del h n) head) (xs @ ys)"
      by (intro hchain_appendI) simp_all
    then show ?thesis
      using d by (simp add: hlist_def)
  qed
qed

lemma hlist_relocate:
  assumes "hlist h head (xs @ from # ys)" "to \<notin> set (xs @ from # ys)"
  shows "hlist (hlist_relocate h from to) head (xs @ to # ys)"
proof -
  let ?l = "hloc_after (HFirst head) xs"
  from assms obtain q where s: "hseg h (HFirst head) (hs_first h head) xs q"
    and c: "hn_prev_next (hs_node h from) = ?l" "hchain h (HNext from) (hn_next (hs_node h from)) ys"
    and d: "distinct (xs @ from # ys)"
    by (auto simp: hlist_def hchain_append)
  let ?g = "h\<lparr>hs_node := (hs_node h)(to := hs_node h from)\<rparr>"
  let ?h = "hloc_set ?g ?l (Some to)"
  have "hseg ?g (HFirst head) (hs_first h head) xs q"
    by (rule hseg_cong [OF s]) (use assms(2) in auto)
  then have s': "hseg ?h (HFirst head) (hs_first ?h head) xs (Some to)"
    using d hseg_redirect [of ?g head xs q "Some to"] by simp
  have l: "?l \<noteq> HNext y" if "y \<in> set (to # ys)" for y
    using d that assms(2) by (intro hloc_after_notin) auto
  show ?thesis
  proof (cases ys)
    case Nil
    then have "hlist_relocate h from to = ?h"
      using c l by (simp add: hlist_relocate_def hlist_node_fix_def Let_def)
    then show ?thesis
      using c s' d l Nil assms(2) by (simp add: hlist_def hchain_append)
  next
    case (Cons y ys')
    then have "hlist_relocate h from to = set_prev_next ?h y (HNext to)"
      using c l by (simp add: hlist_relocate_def hlist_node_fix_def Let_def)
    moreover have "hseg (set_prev_next ?h y (HNext to)) (HFirst head) (hs_first ?h head) xs (Some to)"
      by (rule hseg_cong [OF s']) (use Cons d in auto)
    moreover have "hchain (set_prev_next ?h y (HNext to)) (HNext to) (Some y) ys"
      using c Cons d l assms(2) by (auto intro!: hchain_cong [where h = h])
    ultimately have "hchain (hlist_relocate h from to) (HFirst head)
        (hs_first (hlist_relocate h from to) head) (xs @ to # ys)"
      using c l Cons assms(2) by (intro hchain_appendI [where q = "Some to"]) auto
    then show ?thesis
      using d assms(2) by (simp add: hlist_def)
  qed
qed

lemma hlist_walk_chain: "hchain h l p xs \<Longrightarrow> hlist_walk h p = Some xs"
proof (induction xs arbitrary: l p)
  case Nil
  then show ?case by (simp add: hlist_walk.simps)
next
  case (Cons x xs)
  then have "hlist_walk h (hn_next (hs_node h x)) = Some xs" "p = Some x"
    by auto
  then show ?case
    by (simp add: hlist_walk.simps [of h "Some x"])
qed

lemma hlist_for_each_eq: "hlist h head xs \<Longrightarrow> hlist_for_each h head = Some xs"
  by (auto simp: hlist_def hlist_for_each_def intro: hlist_walk_chain)

lemma hlist_unique: "hlist h head xs \<Longrightarrow> hlist h head ys \<Longrightarrow> xs = ys"
  by (frule hlist_for_each_eq, drule hlist_for_each_eq [of _ _ ys]) simp

lemma hlist_frame:
  assumes "hlist h head xs" "hs_first h' head = hs_first h head"
    and "\<And>x. x \<in> set xs \<Longrightarrow> hs_node h' x = hs_node h x"
  shows "hlist h' head xs"
  using assms by (auto simp: hlist_def intro: hchain_cong [of h])

lemma hlist_add_frame:
  assumes "hlist h head xs" "x \<notin> set (new # xs)"
  shows "hs_node (hlist_add h head new) x = hs_node h x"
  using assms
  by (cases xs) (auto simp: hlist_def hlist_add_def Let_def set_prev_next_def)

lemma hlist_add_first: "y \<noteq> head \<Longrightarrow> hs_first (hlist_add h head new) y = hs_first h y"
  by (auto simp: hlist_add_def Let_def split: option.split)

lemma hlist_del_frame:
  assumes "hlist h head (xs @ n # ys)" "x \<notin> set (xs @ ys)"
  shows "hs_node (hlist_del h n) x = hs_node h x"
proof -
  from assms(1) have c: "hn_prev_next (hs_node h n) = hloc_after (HFirst head) xs"
    and y: "hchain h (HNext n) (hn_next (hs_node h n)) ys"
    by (auto simp: hlist_def hchain_append)
  have "hs_node (hloc_set h (hloc_after (HFirst head) xs) v) x = hs_node h x" for v
    using assms(2) by (cases xs rule: rev_cases) auto
  with c y assms(2) show ?thesis
    by (cases ys) (auto simp: hlist_del_def Let_def set_prev_next_def)
qed

lemma hlist_del_first:
  assumes "hlist h head (xs @ n # ys)" "y \<noteq> head"
  shows "hs_first (hlist_del h n) y = hs_first h y"
proof -
  have "hn_prev_next (hs_node h n) = hloc_after (HFirst head) xs"
    using assms(1) by (auto simp: hlist_def hchain_append)
  moreover have "hloc_after (HFirst head) xs \<noteq> HFirst y"
    using assms(2) by (cases xs rule: rev_cases) auto
  ultimately show ?thesis
    by (auto simp: hlist_del_def Let_def split: option.split)
qed

section \<open>The contract of an intrusive list\<close>

locale intrusive_list =
  fixes holds :: "'h \<Rightarrow> 'a \<Rightarrow> 'a list \<Rightarrow> bool"
    and add :: "'h \<Rightarrow> 'a \<Rightarrow> 'a \<Rightarrow> 'h"
    and del :: "'h \<Rightarrow> 'a \<Rightarrow> 'h"
    and relocate :: "'h \<Rightarrow> 'a \<Rightarrow> 'a \<Rightarrow> 'h"
    and empty :: "'h \<Rightarrow> 'a \<Rightarrow> bool"
    and walk :: "'h \<Rightarrow> 'a \<Rightarrow> 'a list option"
  assumes holds_distinct: "holds h head xs \<Longrightarrow> distinct xs"
    and holds_add: "holds h head xs \<Longrightarrow> new \<notin> set (head # xs) \<Longrightarrow> holds (add h head new) head (new # xs)"
    and holds_del: "holds h head (xs @ n # ys) \<Longrightarrow> holds (del h n) head (xs @ ys)"
    and holds_relocate: "holds h head (xs @ n # ys) \<Longrightarrow> m \<notin> set (head # xs @ n # ys) \<Longrightarrow>
      holds (relocate h n m) head (xs @ m # ys)"
    and holds_empty: "holds h head xs \<Longrightarrow> empty h head \<longleftrightarrow> xs = []"
    and holds_walk: "holds h head xs \<Longrightarrow> walk h head = Some xs"
    and add_other: "holds h head xs \<Longrightarrow> holds h other ys \<Longrightarrow>
      set (head # xs) \<inter> set (other # ys) = {} \<Longrightarrow> new \<notin> set (head # xs) \<Longrightarrow>
      new \<notin> set (other # ys) \<Longrightarrow> holds (add h head new) other ys"
    and del_other: "holds h head (xs @ n # zs) \<Longrightarrow> holds h other ys \<Longrightarrow>
      set (head # xs @ n # zs) \<inter> set (other # ys) = {} \<Longrightarrow> holds (del h n) other ys"
begin

lemma holds_unique: "holds h head xs \<Longrightarrow> holds h head ys \<Longrightarrow> xs = ys"
  by (drule holds_walk, drule holds_walk) simp

text \<open>Taking a node off its list and putting it on again makes it the first one.\<close>

lemma move_to_front:
  assumes "holds h head (xs @ n # ys)" "n \<noteq> head"
  shows "holds (add (del h n) head n) head (n # xs @ ys)"
proof -
  have "n \<notin> set (xs @ ys)"
    using holds_distinct [OF assms(1)] by simp
  then show ?thesis
    using holds_add [OF holds_del [OF assms(1)], of n] assms(2) by simp
qed

text \<open>Moving a node to the front of another list.\<close>

lemma move_between:
  assumes "holds h head (xs @ n # ys)" "holds h other zs"
    and "set (head # xs @ n # ys) \<inter> set (other # zs) = {}" "n \<noteq> head"
  shows "holds (add (del h n) other n) other (n # zs)"
    and "holds (add (del h n) other n) head (xs @ ys)"
proof -
  have n: "n \<notin> set (other # zs)" "n \<notin> set (head # xs @ ys)"
    using assms holds_distinct [OF assms(1)] by auto
  have o: "holds (del h n) other zs" and s: "holds (del h n) head (xs @ ys)"
    using assms del_other holds_del by blast+
  show "holds (add (del h n) other n) other (n # zs)"
    by (rule holds_add [OF o n(1)])
  show "holds (add (del h n) other n) head (xs @ ys)"
    using assms(3) by (intro add_other [OF o s]) (use n in auto)
qed

text \<open>Adding nodes one after the other gives the list of the nodes, latest first.\<close>

lemma add_all:
  assumes "holds h head xs" "distinct ns" "set ns \<inter> set (head # xs) = {}"
  shows "holds (fold (\<lambda>n h. add h head n) ns h) head (rev ns @ xs)"
  using assms
proof (induction ns arbitrary: h xs)
  case Nil
  then show ?case by simp
next
  case (Cons n ns)
  then have "holds (add h head n) head (n # xs)"
    by (intro holds_add) auto
  then show ?case
    using Cons.IH [of "add h head n" "n # xs"] Cons.prems by auto
qed

end

interpretation lh: intrusive_list dlist list_add list_del list_relocate list_empty list_for_each_entry
proof unfold_locales
  show "distinct xs" if "dlist h head xs" for h :: "'a list_store" and head xs
    using that by (simp add: dlist_def)
  show "dlist (list_add h head new) other ys"
    if "dlist h head xs" "dlist h other ys" "set (head # xs) \<inter> set (other # ys) = {}"
      "new \<notin> set (head # xs)" "new \<notin> set (other # ys)"
    for h :: "'a list_store" and head xs other ys new
    using that by (intro dlist_frame [OF that(2)] list_add_frame [OF that(1)]) auto
  show "dlist (list_del h n) other ys"
    if "dlist h head (xs @ n # zs)" "dlist h other ys"
      "set (head # xs @ n # zs) \<inter> set (other # ys) = {}"
    for h :: "'a list_store" and head xs n zs other ys
    using that by (intro dlist_frame [OF that(2)] list_del_frame [OF that(1)]) auto
qed (simp_all add: dlist_add dlist_del dlist_relocate dlist_empty dlist_for_each)

interpretation hl: intrusive_list hlist hlist_add hlist_del hlist_relocate hlist_empty hlist_for_each
proof unfold_locales
  show "distinct xs" if "hlist h head xs" for h :: "'a hlist_store" and head xs
    using that by (simp add: hlist_def)
  show "hlist (hlist_add h head new) other ys"
    if "hlist h head xs" "hlist h other ys" "set (head # xs) \<inter> set (other # ys) = {}"
      "new \<notin> set (head # xs)" "new \<notin> set (other # ys)"
    for h :: "'a hlist_store" and head xs other ys new
    using that by (intro hlist_frame [OF that(2)] hlist_add_frame [OF that(1)] hlist_add_first) auto
  show "hlist (hlist_del h n) other ys"
    if "hlist h head (xs @ n # zs)" "hlist h other ys"
      "set (head # xs @ n # zs) \<inter> set (other # ys) = {}"
    for h :: "'a hlist_store" and head xs n zs other ys
    using that by (intro hlist_frame [OF that(2)] hlist_del_frame [OF that(1)] hlist_del_first [OF that(1)]) auto
qed (simp_all add: hlist_add hlist_del hlist_relocate hlist_empty_iff hlist_for_each_eq)

section \<open>Properties\<close>

lemma dlist_add_all_peek:
  assumes "dlist h head []" "distinct (n # ns)" "head \<notin> set (n # ns)"
  shows "list_lru_peek (fold (\<lambda>n h. list_lru_add h head n) (n # ns) h) head = n"
proof -
  have "dlist (fold (\<lambda>n h. list_add h head n) (n # ns) h) head (rev (n # ns) @ [])"
    using assms by (intro lh.add_all) auto
  then show ?thesis
    using dlist_peek [of _ head "rev (n # ns) @ []"] by (simp add: list_lru_add_def)
qed

text \<open>
  (C19) The LRU list is first-in first-out: after any sequence of distinct nodes was added to an
  empty list, the node \<open>list_lru_peek\<close> picks for eviction is the one added first.
\<close>
theorem list_lru_fifo:
  assumes "distinct (n # ns)" and "head \<notin> set (n # ns)"
  shows "list_lru_peek (fold (\<lambda>n h. list_lru_add h head n) (n # ns) (list_head_init h head)) head = n"
  using assms by (intro dlist_add_all_peek dlist_init) auto

theorem list_lru_fifo_witness:
  "list_lru_peek (fold (\<lambda>n h. list_lru_add h (0::nat) n) [3, 1, 2]
     (list_head_init (\<lambda>a. \<lparr>lh_prev = a, lh_next = a\<rparr>) 0)) 0 = 3"
  by (rule list_lru_fifo) auto

text \<open>
  (C17) Taking a node off one list and adding it to another (a cache hit promoting a kv from the
  small to the main LRU list) leaves exactly the other nodes on the first list, in order, puts
  the node in front of the second, and walking either list ends.
\<close>
theorem list_move_between:
  assumes "dlist h head (xs @ n # ys)" and "dlist h other zs"
    and "set (head # xs @ n # ys) \<inter> set (other # zs) = {}"
  shows "list_for_each_entry (list_lru_add (list_lru_del h n) other n) other = Some (n # zs) \<and>
    list_for_each_entry (list_lru_add (list_lru_del h n) other n) head = Some (xs @ ys)"
proof -
  have "n \<noteq> head"
    using dlist_distinct [OF assms(1)] by auto
  from lh.move_between [OF assms this] show ?thesis
    by (simp add: dlist_for_each list_lru_add_def list_lru_del_def)
qed

theorem list_move_between_witness:
  "dlist two_lists 0 ([2] @ 1 # []) \<and> dlist two_lists 9 [3] \<and>
   list_for_each_entry (list_lru_add (list_lru_del two_lists 1) 9 1) 9 = Some [1, 3] \<and>
   list_for_each_entry (list_lru_add (list_lru_del two_lists 1) 9 1) 0 = Some [2]"
proof -
  have a: "dlist two_lists 0 ([2] @ 1 # [])" and b: "dlist two_lists 9 [3]"
    by (simp_all add: two_lists_def dlist_def list_add_def list_add_between_def list_head_init_def
        set_prev_def set_next_def)
  show ?thesis
    using a b list_move_between [OF a b] by simp
qed

text \<open>
  (C18) Moving a node to another address (slab reclaim moving a kv, a lock handed to another
  connection) replaces the node in place: a walk visits the same nodes in the same order, the
  moved one at its new address, on the circular list as on the hash list.
\<close>
theorem relocate_keeps_order:
  assumes "dlist h head (xs @ from # ys)" and "hlist g bucket (us @ from # vs)"
    and "to \<notin> set (head # xs @ from # ys)" and "to \<notin> set (us @ from # vs)"
  shows "list_for_each_entry (list_relocate h from to) head = Some (xs @ to # ys) \<and>
    hlist_for_each (hlist_relocate g from to) bucket = Some (us @ to # vs)"
  using dlist_relocate [OF assms(1,3)] hlist_relocate [OF assms(2,4)]
  by (simp add: dlist_for_each hlist_for_each_eq)

theorem relocate_keeps_order_witness:
  "list_for_each_entry (list_relocate two_lists 2 7) 0 = Some [7, 1] \<and>
   hlist_for_each (hlist_relocate one_bucket 2 7) 0 = Some [1, 7]"
proof -
  have a: "dlist two_lists 0 ([] @ 2 # [1])"
    by (simp add: two_lists_def dlist_def list_add_def list_add_between_def list_head_init_def
        set_prev_def set_next_def)
  have b: "hlist one_bucket 0 ([1] @ 2 # [])"
    by (simp add: one_bucket_def hlist_def hlist_add_def hlist_head_init_def set_prev_next_def)
  show ?thesis
    using relocate_keeps_order [OF a b, of 7] by simp
qed

end
