(* ===== verification/Memory.thy ===== *)
theory Memory
  imports Umem_Prelude
begin

text \<open>
  The page accountant of \<open>src/memory.h\<close> and \<open>src/memory.c\<close>.

  \<open>mmap\<close> is the operating system's: \<open>sys_malloc\<close> takes its answer (the address of the mapping, or
  nothing for \<open>MAP_FAILED\<close>) as an argument. The allocations that are live are recorded beside the
  accountant in \<open>mem_sys\<close>, and \<open>mem_step\<close> is one call of \<open>memory_malloc\<close>, with any answer of \<open>mmap\<close>, or of \<open>memory_free\<close> that
  a client which frees only what it was given can make.
\<close>

section \<open>Definitions\<close>

record memory =
  free_pages :: u64

definition memory_init :: "u64 \<Rightarrow> memory" where
  "memory_init page = \<lparr>free_pages = page\<rparr>"

text \<open>The length given to \<open>mmap\<close> and \<open>munmap\<close>, computed in 64 bits.\<close>

definition sys_len :: "u64 \<Rightarrow> u64" where
  "sys_len page = push_bit PAGE_SHIFT page"

definition sys_malloc :: "(u64 \<Rightarrow> u64 option) \<Rightarrow> u64 \<Rightarrow> u64 option" where
  "sys_malloc mmap page = mmap (sys_len page)"

definition memory_malloc :: "(u64 \<Rightarrow> u64 option) \<Rightarrow> memory \<Rightarrow> u64 \<Rightarrow> u64 option \<times> memory" where
  "memory_malloc mmap m page =
     (if page > free_pages m then (None, m)
      else case sys_malloc mmap page of
             None \<Rightarrow> (None, m)
           | Some ptr \<Rightarrow> (Some ptr, m\<lparr>free_pages := free_pages m - page\<rparr>))"

definition memory_free :: "memory \<Rightarrow> u64 \<Rightarrow> memory" where
  "memory_free m page = m\<lparr>free_pages := free_pages m + page\<rparr>"

text \<open>The accountant together with the mappings handed out: address and size in pages.\<close>

record mem_sys =
  ms_memory :: memory
  ms_live :: "(u64 \<times> u64) list"

inductive mem_step :: "mem_sys \<Rightarrow> mem_sys \<Rightarrow> bool" where
  malloc_ok: "memory_malloc mmap (ms_memory s) page = (Some ptr, m) \<Longrightarrow>
    mem_step s \<lparr>ms_memory = m, ms_live = (ptr, page) # ms_live s\<rparr>"
| malloc_fail: "memory_malloc mmap (ms_memory s) page = (None, m) \<Longrightarrow>
    mem_step s (s\<lparr>ms_memory := m\<rparr>)"
| free: "ms_live s = xs @ (ptr, page) # ys \<Longrightarrow>
    mem_step s \<lparr>ms_memory = memory_free (ms_memory s) page, ms_live = xs @ ys\<rparr>"

inductive mem_reach :: "u64 \<Rightarrow> mem_sys \<Rightarrow> bool" for page where
  start: "mem_reach page \<lparr>ms_memory = memory_init page, ms_live = []\<rparr>"
| step: "mem_reach page s \<Longrightarrow> mem_step s t \<Longrightarrow> mem_reach page t"

definition live_pages :: "mem_sys \<Rightarrow> nat" where
  "live_pages s = sum_list (map (unat \<circ> snd) (ms_live s))"

section \<open>Facts\<close>

lemma memory_malloc_Some:
  assumes "memory_malloc mmap m page = (Some ptr, m')"
  shows "page \<le> free_pages m" "unat (free_pages m') + unat page = unat (free_pages m)"
    "sys_malloc mmap page = Some ptr"
proof -
  from assms show le: "page \<le> free_pages m" and "sys_malloc mmap page = Some ptr"
    by (auto simp: memory_malloc_def split: if_splits option.splits)
  from assms have "free_pages m' = free_pages m - page"
    by (auto simp: memory_malloc_def split: if_splits option.splits)
  with le show "unat (free_pages m') + unat page = unat (free_pages m)"
    by (simp add: unat_sub word_le_nat_alt)
qed

lemma memory_malloc_None: "memory_malloc mmap m page = (None, m') \<Longrightarrow> m' = m"
  by (auto simp: memory_malloc_def split: if_splits option.splits)

lemma memory_free_unat:
  assumes "unat (free_pages m) + unat page < 2 ^ 64"
  shows "unat (free_pages (memory_free m page)) = unat (free_pages m) + unat page"
  using assms by (simp add: memory_free_def unat_word_ariths)

lemma mem_step_accounts:
  assumes "mem_step s t" "unat (free_pages (ms_memory s)) + live_pages s = unat (page :: u64)"
  shows "unat (free_pages (ms_memory t)) + live_pages t = unat page"
  using assms(1)
proof (cases rule: mem_step.cases)
  case (malloc_ok mmap n ptr m)
  then show ?thesis
    using assms(2) memory_malloc_Some(2) [of mmap "ms_memory s" n ptr m]
    by (simp add: live_pages_def)
next
  case (malloc_fail mmap n m)
  then show ?thesis
    using assms(2) memory_malloc_None [of mmap "ms_memory s" n m] by (simp add: live_pages_def)
next
  case (free xs ptr n ys)
  then have "live_pages s = live_pages t + unat n"
    by (simp add: live_pages_def)
  moreover have "unat page < 2 ^ 64"
    by (rule unat_u64)
  ultimately have "unat (free_pages (ms_memory s)) + unat n < 2 ^ 64"
    using assms(2) by linarith
  then have "unat (free_pages (ms_memory t)) = unat (free_pages (ms_memory s)) + unat n"
    using free by (simp add: memory_free_unat)
  with \<open>live_pages s = live_pages t + unat n\<close> show ?thesis
    using assms(2) by simp
qed

lemma mem_reach_accounts:
  assumes "mem_reach page s"
  shows "unat (free_pages (ms_memory s)) + live_pages s = unat page"
  using assms
proof (induction rule: mem_reach.induct)
  case start
  then show ?case by (simp add: memory_init_def live_pages_def)
next
  case (step s t)
  then show ?case by (blast intro: mem_step_accounts)
qed

section \<open>Properties\<close>

text \<open>
  (C10) The page accountant never loses or invents a page: after any sequence of allocations,
  failed allocations and frees of live mappings, the free pages and the pages of the live
  mappings add up to the limit the thread started with, so the counter neither wraps nor lets
  the limit be exceeded.
\<close>
theorem memory_conserved:
  assumes "mem_reach page s"
  shows "unat (free_pages (ms_memory s)) + live_pages s = unat page \<and> live_pages s \<le> unat page"
  using mem_reach_accounts [OF assms] by linarith

theorem memory_conserved_witness:
  "\<exists>s. mem_reach 10 s \<and> ms_live s = [(65536, 2), (4096, 3)] \<and> live_pages s = 5 \<and>
     unat (free_pages (ms_memory s)) + live_pages s = 10"
proof -
  let ?s0 = "\<lparr>ms_memory = memory_init 10, ms_live = []\<rparr>" and ?s1 = "\<lparr>ms_memory = \<lparr>free_pages = 7\<rparr>, ms_live = [(4096, 3)]\<rparr>"
    and ?s2 = "\<lparr>ms_memory = \<lparr>free_pages = 5\<rparr>, ms_live = [(65536, 2), (4096, 3)]\<rparr>"
  have "mem_step ?s0 ?s1"
    using mem_step.malloc_ok [of "\<lambda>_. Some 4096" ?s0 3 4096 "\<lparr>free_pages = 7\<rparr>"]
    by (simp add: memory_malloc_def memory_init_def sys_malloc_def)
  moreover have "mem_step ?s1 ?s2"
    using mem_step.malloc_ok [of "\<lambda>_. Some 65536" ?s1 2 65536 "\<lparr>free_pages = 5\<rparr>"]
    by (simp add: memory_malloc_def sys_malloc_def)
  ultimately have r: "mem_reach 10 ?s2"
    by (blast intro: mem_reach.intros)
  have "live_pages ?s2 = 5" by (simp add: live_pages_def)
  with r show ?thesis using memory_conserved [OF r] by auto
qed

text \<open>
  (C20) An allocation that does not fit the free pages, or that the system refuses, changes
  nothing; one that succeeds takes exactly its pages; and freeing it gives the accountant back
  the state it had.
\<close>
theorem memory_malloc_free:
  "(page > free_pages m \<or> mmap (push_bit PAGE_SHIFT page) = None \<longrightarrow>
      memory_malloc mmap m page = (None, m)) \<and>
   (\<forall>ptr m'. memory_malloc mmap m page = (Some ptr, m') \<longrightarrow>
      unat (free_pages m') + unat page = unat (free_pages m) \<and> memory_free m' page = m)"
proof (intro conjI impI allI)
  assume "page > free_pages m \<or> mmap (push_bit PAGE_SHIFT page) = None"
  then show "memory_malloc mmap m page = (None, m)"
    by (auto simp: memory_malloc_def sys_malloc_def sys_len_def)
next
  fix ptr m' assume a: "memory_malloc mmap m page = (Some ptr, m')"
  then show "unat (free_pages m') + unat page = unat (free_pages m)"
    by (rule memory_malloc_Some)
  from a show "memory_free m' page = m"
    by (auto simp: memory_malloc_def memory_free_def split: if_splits option.splits)
qed

theorem memory_malloc_free_witness:
  "memory_malloc (\<lambda>_. Some 8192) \<lparr>free_pages = 4\<rparr> 5 = (None, \<lparr>free_pages = 4\<rparr>) \<and>
   memory_malloc (\<lambda>_. Some 8192) \<lparr>free_pages = 4\<rparr> 3 = (Some 8192, \<lparr>free_pages = 1\<rparr>) \<and>
   memory_free \<lparr>free_pages = 1\<rparr> 3 = \<lparr>free_pages = 4\<rparr>"
proof -
  have "memory_malloc (\<lambda>_. Some 8192) \<lparr>free_pages = 4\<rparr> 3 = (Some 8192, \<lparr>free_pages = 1\<rparr>)"
    by (simp add: memory_malloc_def sys_malloc_def)
  then show ?thesis
    using memory_malloc_free [of "\<lparr>free_pages = 4\<rparr>" 5 "\<lambda>_. Some 8192"]
      memory_malloc_free [of "\<lparr>free_pages = 4\<rparr>" 3 "\<lambda>_. Some 8192"]
    by simp
qed

end
