(* ===== verification/Fixed_Mem_Cache.thy ===== *)
theory Fixed_Mem_Cache
  imports Umem_Prelude
begin

text \<open>
  The fixed object pool of \<open>src/fixed_mem_cache.h\<close> and \<open>src/fixed_mem_cache.c\<close>, from which a
  thread takes its connection objects, with the embedded pointers of \<open>src/embed_pointer.h\<close>.

  The store holds the first eight bytes of every object; address 0 is \<open>NULL\<close>. \<open>pool cache h xs\<close>
  says that the chain from \<open>next_free\<close> is exactly the objects \<open>xs\<close>. The locale \<open>object_pool\<close>
  is the contract of the pool and carries what its clients use: no object is handed out twice
  and none is lost.
\<close>

section \<open>Definitions\<close>

type_synonym word_store = "u64 \<Rightarrow> u64"

definition embed_ulong :: "word_store \<Rightarrow> u64 \<Rightarrow> u64 \<Rightarrow> word_store" where
  "embed_ulong h obj v = h(obj := v)"

definition embed_pointer :: "word_store \<Rightarrow> u64 \<Rightarrow> u64 \<Rightarrow> word_store" where
  "embed_pointer h obj fp = embed_ulong h obj fp"

definition embed_ulong_get :: "word_store \<Rightarrow> u64 \<Rightarrow> u64" where
  "embed_ulong_get h obj = h obj"

definition embed_pointer_get :: "word_store \<Rightarrow> u64 \<Rightarrow> u64" where
  "embed_pointer_get h obj = embed_ulong_get h obj"

record fixed_mem_cache =
  next_free :: u64

text \<open>The loop of \<open>fixed_mem_cache_init\<close> with \<open>n\<close> rounds left.\<close>

fun fixed_init_loop ::
  "nat \<Rightarrow> u64 \<Rightarrow> u64 \<Rightarrow> fixed_mem_cache \<times> word_store \<Rightarrow> fixed_mem_cache \<times> word_store" where
  "fixed_init_loop 0 ptr sz (cache, h) = (cache, h)"
| "fixed_init_loop (Suc n) ptr sz (cache, h) =
     fixed_init_loop n (ptr + sz) sz
       (cache\<lparr>next_free := ptr\<rparr>, embed_pointer h ptr (next_free cache))"

definition fixed_mem_cache_init ::
  "word_store \<Rightarrow> u64 \<Rightarrow> u64 \<Rightarrow> nat \<Rightarrow> fixed_mem_cache \<times> word_store" where
  "fixed_mem_cache_init h ptr sz n = fixed_init_loop n ptr sz (\<lparr>next_free = 0\<rparr>, h)"

definition fixed_mem_cache_malloc ::
  "fixed_mem_cache \<times> word_store \<Rightarrow> u64 option \<times> fixed_mem_cache \<times> word_store" where
  "fixed_mem_cache_malloc s =
     (let (cache, h) = s in
      if next_free cache = 0 then (None, cache, h)
      else let obj = next_free cache
           in (Some obj, cache\<lparr>next_free := embed_pointer_get h obj\<rparr>, h))"

definition fixed_mem_cache_free ::
  "fixed_mem_cache \<times> word_store \<Rightarrow> u64 \<Rightarrow> fixed_mem_cache \<times> word_store" where
  "fixed_mem_cache_free s obj =
     (let (cache, h) = s
      in (cache\<lparr>next_free := obj\<rparr>, embed_pointer h obj (next_free cache)))"

fun free_chain :: "word_store \<Rightarrow> u64 \<Rightarrow> u64 list \<Rightarrow> bool" where
  "free_chain h p [] \<longleftrightarrow> p = 0"
| "free_chain h p (x # xs) \<longleftrightarrow> p = x \<and> x \<noteq> 0 \<and> free_chain h (h x) xs"

definition pool :: "fixed_mem_cache \<times> word_store \<Rightarrow> u64 list \<Rightarrow> bool" where
  "pool s xs \<longleftrightarrow> distinct xs \<and> free_chain (snd s) (next_free (fst s)) xs"

text \<open>The addresses of the objects an array of \<open>n\<close> objects of \<open>sz\<close> bytes at \<open>ptr\<close> has.\<close>

fun object_addrs :: "nat \<Rightarrow> u64 \<Rightarrow> u64 \<Rightarrow> u64 list" where
  "object_addrs 0 ptr sz = []"
| "object_addrs (Suc n) ptr sz = ptr # object_addrs n (ptr + sz) sz"

lemmas embed_defs = embed_ulong_def embed_pointer_def embed_ulong_get_def embed_pointer_get_def

section \<open>The contract of a pool\<close>

text \<open>A client holds the objects \<open>used\<close>; \<open>free\<close> are the ones still in the pool.\<close>

locale object_pool =
  fixes holds :: "'s \<Rightarrow> 'a list \<Rightarrow> bool"
    and malloc :: "'s \<Rightarrow> 'a option \<times> 's"
    and free :: "'s \<Rightarrow> 'a \<Rightarrow> 's"
    and valid :: "'a \<Rightarrow> bool"
  assumes pool_distinct: "holds s xs \<Longrightarrow> distinct xs"
    and pool_valid: "holds s xs \<Longrightarrow> x \<in> set xs \<Longrightarrow> valid x"
    and malloc_empty: "holds s [] \<Longrightarrow> malloc s = (None, s)"
    and malloc_some: "holds s (x # xs) \<Longrightarrow> \<exists>s'. malloc s = (Some x, s') \<and> holds s' xs"
    and free_holds: "holds s xs \<Longrightarrow> valid x \<Longrightarrow> x \<notin> set xs \<Longrightarrow> holds (free s x) (x # xs)"
begin

text \<open>
  A client: \<open>None\<close> asks for an object, \<open>Some i\<close> gives back the \<open>i\<close>-th of the objects it holds.
\<close>

fun run :: "nat option list \<Rightarrow> 's \<times> 'a list \<Rightarrow> 's \<times> 'a list" where
  "run [] st = st"
| "run (None # ops) (s, used) =
     (case malloc s of (None, s') \<Rightarrow> run ops (s', used) | (Some x, s') \<Rightarrow> run ops (s', x # used))"
| "run (Some i # ops) (s, used) =
     (if i < length used then run ops (free s (used ! i), take i used @ drop (Suc i) used)
      else run ops (s, used))"

lemma run_conserves:
  assumes "holds s xs" "distinct (used @ xs)" "\<forall>x \<in> set used. valid x"
  shows "\<exists>ys. holds (fst (run ops (s, used))) ys \<and> distinct (snd (run ops (s, used)) @ ys) \<and>
    set (snd (run ops (s, used)) @ ys) = set (used @ xs)"
  using assms
proof (induction ops arbitrary: s xs used)
  case Nil
  then show ?case by auto
next
  case (Cons op ops)
  note IH = Cons.IH and prems = Cons.prems
  show ?case
  proof (cases op)
    case None
    show ?thesis
    proof (cases xs)
      case Nil
      then show ?thesis
        using None prems IH [of s "[]" used] malloc_empty [of s] by simp
    next
      case (Cons x xs')
      obtain s' where "malloc s = (Some x, s')" "holds s' xs'"
        using malloc_some prems(1) Cons by blast
      moreover have "valid x"
        using pool_valid prems(1) Cons by simp
      ultimately show ?thesis
        using None Cons IH [of s' xs' "x # used"] prems by auto
    qed
  next
    case (Some i)
    show ?thesis
    proof (cases "i < length used")
      case True
      let ?x = "used ! i" and ?rest = "take i used @ drop (Suc i) used"
      have d: "distinct (?rest @ ?x # xs)" and st: "set (?rest @ ?x # xs) = set (used @ xs)"
        and v: "\<forall>x \<in> set ?rest. valid x" "valid ?x"
        using remove_nth [OF True] prems(2,3) nth_mem [OF True] by auto
      have "holds (free s ?x) (?x # xs)"
        using prems(1) d v(2) by (intro free_holds) auto
      from IH [OF this d v(1)] show ?thesis
        using Some True st by simp
    next
      case False
      then show ?thesis
        using Some prems IH [of s xs used] by simp
    qed
  qed
qed

end

section \<open>The pool meets its contract\<close>

lemma free_chain_upd: "x \<notin> set xs \<Longrightarrow> free_chain (h(x := v)) p xs = free_chain h p xs"
  by (induction xs arbitrary: p) auto

lemma free_chain_nonzero: "free_chain h p xs \<Longrightarrow> 0 \<notin> set xs"
  by (induction xs arbitrary: p) auto

interpretation fmc: object_pool pool fixed_mem_cache_malloc fixed_mem_cache_free "\<lambda>x. x \<noteq> 0"
proof unfold_locales
  fix s :: "fixed_mem_cache \<times> word_store" and xs x
  show "distinct xs" if "pool s xs"
    using that by (simp add: pool_def)
  show "x \<noteq> 0" if "pool s xs" "x \<in> set xs"
    using that free_chain_nonzero by (auto simp: pool_def)
  show "fixed_mem_cache_malloc s = (None, s)" if "pool s []"
    using that by (cases s) (simp add: pool_def fixed_mem_cache_malloc_def)
  show "\<exists>s'. fixed_mem_cache_malloc s = (Some x, s') \<and> pool s' xs" if "pool s (x # xs)"
    using that by (cases s) (auto simp: pool_def fixed_mem_cache_malloc_def embed_defs)
  show "pool (fixed_mem_cache_free s x) (x # xs)" if "pool s xs" "x \<noteq> 0" "x \<notin> set xs"
    using that by (cases s) (auto simp: pool_def fixed_mem_cache_free_def embed_defs free_chain_upd)
qed

lemma fixed_init_loop_pool:
  assumes "pool (cache, h) xs" "distinct (object_addrs n ptr sz @ xs)" "0 \<notin> set (object_addrs n ptr sz)"
  shows "pool (fixed_init_loop n ptr sz (cache, h)) (rev (object_addrs n ptr sz) @ xs)"
  using assms
proof (induction n arbitrary: ptr cache h xs)
  case 0
  then show ?case by simp
next
  case (Suc n)
  have "pool (fixed_mem_cache_free (cache, h) ptr) (ptr # xs)"
    using Suc.prems by (intro fmc.free_holds) auto
  then show ?case
    using Suc.prems Suc.IH [of "cache\<lparr>next_free := ptr\<rparr>" "embed_pointer h ptr (next_free cache)" "ptr # xs" "ptr + sz"]
    by (auto simp: fixed_mem_cache_free_def)
qed

lemma fixed_mem_cache_init_pool:
  assumes "distinct (object_addrs n ptr sz)" "0 \<notin> set (object_addrs n ptr sz)"
  shows "pool (fixed_mem_cache_init h ptr sz n) (rev (object_addrs n ptr sz))"
  using fixed_init_loop_pool [of "\<lparr>next_free = 0\<rparr>" h "[]" n ptr sz] assms
  by (simp add: fixed_mem_cache_init_def pool_def)

section \<open>Properties\<close>

text \<open>
  (C11) From a pool initialised over an array of \<open>n\<close> objects, any interleaving of allocations and
  of frees of held objects hands out only objects of the array, never the same object twice
  while it is held, and the held and the free objects are always together the whole array; so
  with every object free again no object has been lost.
\<close>
theorem fixed_mem_cache_conserves:
  assumes "distinct (object_addrs n ptr sz)" and "0 \<notin> set (object_addrs n ptr sz)"
  shows "\<exists>free. pool (fst (fmc.run ops (fixed_mem_cache_init h ptr sz n, []))) free \<and>
    distinct (snd (fmc.run ops (fixed_mem_cache_init h ptr sz n, [])) @ free) \<and>
    set (snd (fmc.run ops (fixed_mem_cache_init h ptr sz n, [])) @ free) = set (object_addrs n ptr sz)"
  using fmc.run_conserves [OF fixed_mem_cache_init_pool [OF assms], of "[]"] assms(1) by simp

theorem fixed_mem_cache_conserves_witness:
  "\<exists>free. pool (fst (fmc.run [None, None, Some 1] (fixed_mem_cache_init (\<lambda>_. 0) 4096 64 3, []))) free \<and>
    distinct (snd (fmc.run [None, None, Some 1] (fixed_mem_cache_init (\<lambda>_. 0) 4096 64 3, [])) @ free) \<and>
    set (snd (fmc.run [None, None, Some 1] (fixed_mem_cache_init (\<lambda>_. 0) 4096 64 3, [])) @ free)
      = set [4096, 4160, 4224]"
  using fixed_mem_cache_conserves [of 3 4096 64 "[None, None, Some 1]" "\<lambda>_. 0"]
  by (simp add: numeral_3_eq_3)

end
