(* ===== verification/Murmur_Hash3.thy ===== *)
theory Murmur_Hash3
  imports Umem_Prelude
begin

text \<open>
  The 128-bit MurmurHash3 of \<open>src/murmur_hash3.c\<close> over byte lists.

  The code runs on a little-endian machine, so \<open>getblock64\<close> reads eight bytes least significant
  first. The switch with its fall-through cases is one conditional per case. The facts: the
  switch computes the same as padding the last block with zeros, and the hash is injective in
  every single 16-byte block of its input.
\<close>

section \<open>Definitions\<close>

definition rotl64 :: "u64 \<Rightarrow> nat \<Rightarrow> u64" where
  "rotl64 x r = push_bit r x OR drop_bit (64 - r) x"

fun le_word :: "u8 list \<Rightarrow> u64" where
  "le_word [] = 0"
| "le_word (b # bs) = ucast b XOR push_bit 8 (le_word bs)"

definition getblock64 :: "u8 list \<Rightarrow> nat \<Rightarrow> u64" where
  "getblock64 p i = le_word (take 8 (drop (8 * i) p))"

definition fmix64 :: "u64 \<Rightarrow> u64" where
  "fmix64 k =
     (let k = k XOR drop_bit 33 k;
          k = k * 0xff51afd7ed558ccd;
          k = k XOR drop_bit 33 k;
          k = k * 0xc4ceb9fe1a85ec53;
          k = k XOR drop_bit 33 k
      in k)"

definition murmur_c1 :: u64 where
  "murmur_c1 = 0x87c37b91114253d5"

definition murmur_c2 :: u64 where
  "murmur_c2 = 0x4cf5ad432745937f"

definition murmur_k1 :: "u64 \<Rightarrow> u64" where
  "murmur_k1 k1 = rotl64 (k1 * murmur_c1) 31 * murmur_c2"

definition murmur_k2 :: "u64 \<Rightarrow> u64" where
  "murmur_k2 k2 = rotl64 (k2 * murmur_c2) 33 * murmur_c1"

definition murmur_block :: "u64 \<Rightarrow> u64 \<Rightarrow> u64 \<times> u64 \<Rightarrow> u64 \<times> u64" where
  "murmur_block k1 k2 h =
     (let (h1, h2) = h;
          h1 = h1 XOR murmur_k1 k1;
          h1 = rotl64 h1 27; h1 = h1 + h2; h1 = h1 * 5 + 0x52dce729;
          h2 = h2 XOR murmur_k2 k2;
          h2 = rotl64 h2 31; h2 = h2 + h1; h2 = h2 * 5 + 0x38495ab5
      in (h1, h2))"

text \<open>The body loop with \<open>n\<close> rounds left, at block \<open>i\<close>.\<close>

fun murmur_body :: "u8 list \<Rightarrow> nat \<Rightarrow> nat \<Rightarrow> u64 \<times> u64 \<Rightarrow> u64 \<times> u64" where
  "murmur_body data i 0 h = h"
| "murmur_body data i (Suc n) h =
     murmur_body data (Suc i) n
       (murmur_block (getblock64 data (i * 2 + 0)) (getblock64 data (i * 2 + 1)) h)"

text \<open>One case of the switch on the number of tail bytes.\<close>

definition murmur_case :: "u8 list \<Rightarrow> nat \<Rightarrow> nat \<Rightarrow> nat \<Rightarrow> u64 \<Rightarrow> u64" where
  "murmur_case tail r c s k = (if r \<ge> c then k XOR push_bit s (ucast (tail ! (c - 1))) else k)"

definition murmur_tail :: "u8 list \<Rightarrow> nat \<Rightarrow> u64 \<times> u64 \<Rightarrow> u64 \<times> u64" where
  "murmur_tail tail r h =
     (let (h1, h2) = h;
          k1 = 0; k2 = 0;
          k2 = murmur_case tail r 15 48 k2;
          k2 = murmur_case tail r 14 40 k2;
          k2 = murmur_case tail r 13 32 k2;
          k2 = murmur_case tail r 12 24 k2;
          k2 = murmur_case tail r 11 16 k2;
          k2 = murmur_case tail r 10 8 k2;
          k2 = murmur_case tail r 9 0 k2;
          h2 = (if r \<ge> 9 then h2 XOR murmur_k2 k2 else h2);
          k1 = murmur_case tail r 8 56 k1;
          k1 = murmur_case tail r 7 48 k1;
          k1 = murmur_case tail r 6 40 k1;
          k1 = murmur_case tail r 5 32 k1;
          k1 = murmur_case tail r 4 24 k1;
          k1 = murmur_case tail r 3 16 k1;
          k1 = murmur_case tail r 2 8 k1;
          k1 = murmur_case tail r 1 0 k1;
          h1 = (if r \<ge> 1 then h1 XOR murmur_k1 k1 else h1)
      in (h1, h2))"

definition murmur_final :: "nat \<Rightarrow> u64 \<times> u64 \<Rightarrow> u64 \<times> u64" where
  "murmur_final len h =
     (let (h1, h2) = h;
          h1 = h1 XOR of_nat len; h2 = h2 XOR of_nat len;
          h1 = h1 + h2;
          h2 = h2 + h1;
          h1 = fmix64 h1;
          h2 = fmix64 h2;
          h1 = h1 + h2;
          h2 = h2 + h1
      in (h1, h2))"

definition MurmurHash3_x64_128 :: "u8 list \<Rightarrow> nat \<Rightarrow> u32 \<Rightarrow> u64 \<times> u64" where
  "MurmurHash3_x64_128 data len seed =
     (let nblocks = len div 16;
          h = murmur_body data 0 nblocks (ucast seed, ucast seed);
          h = murmur_tail (drop (nblocks * 16) data) (len mod 16) h
      in murmur_final len h)"

text \<open>
  The reference: the input is cut into 16-byte blocks; a last partial block is mixed in by
  exclusive or, its missing bytes read as zeros.
\<close>

definition murmur_last :: "u8 list \<Rightarrow> u64 \<times> u64 \<Rightarrow> u64 \<times> u64" where
  "murmur_last bs h =
     (fst h XOR murmur_k1 (le_word (take 8 bs)), snd h XOR murmur_k2 (le_word (drop 8 bs)))"

function murmur_blocks :: "u8 list \<Rightarrow> u64 \<times> u64 \<Rightarrow> u64 \<times> u64" where
  "murmur_blocks bs h =
     (if length bs < 16 then murmur_last bs h
      else murmur_blocks (drop 16 bs)
             (murmur_block (le_word (take 8 bs)) (le_word (take 8 (drop 8 bs))) h))"
  by pat_completeness auto
termination by (relation "measure (\<lambda>(bs, h). length bs)") auto

declare murmur_blocks.simps [simp del]

lemma murmur_blocks_short: "length bs < 16 \<Longrightarrow> murmur_blocks bs h = murmur_last bs h"
  by (subst murmur_blocks.simps) simp

lemma murmur_blocks_long:
  "\<not> length bs < 16 \<Longrightarrow> murmur_blocks bs h =
     murmur_blocks (drop 16 bs) (murmur_block (le_word (take 8 bs)) (le_word (take 8 (drop 8 bs))) h)"
  by (subst murmur_blocks.simps) simp

section \<open>The tail\<close>

lemma le_word_take_Suc:
  "le_word (take (Suc n) xs) = le_word (take n xs) XOR (if n < length xs then push_bit (8 * n) (ucast (xs ! n)) else 0)"
proof (induction xs arbitrary: n)
  case Nil
  then show ?case by simp
next
  case (Cons x xs)
  then show ?case
    by (cases n) (simp_all add: push_bit_xor push_bit_push_bit ac_simps)
qed

lemma murmur_case_xor:
  "murmur_case t r c s k = k XOR (if r \<ge> c then push_bit s (ucast (t ! (c - 1))) else 0)"
  by (simp add: murmur_case_def)

lemma murmur_k_0 [simp]: "murmur_k1 0 = 0" "murmur_k2 0 = 0"
  by (simp_all add: murmur_k1_def murmur_k2_def rotl64_def)

lemma murmur_tail_k1:
  "murmur_case t (length t) 1 0 (murmur_case t (length t) 2 8 (murmur_case t (length t) 3 16
    (murmur_case t (length t) 4 24 (murmur_case t (length t) 5 32 (murmur_case t (length t) 6 40
    (murmur_case t (length t) 7 48 (murmur_case t (length t) 8 56 0))))))) = le_word (take 8 t)"
  by (simp add: murmur_case_xor Suc_le_eq numeral_eq_Suc le_word_take_Suc xor.commute xor.left_commute
      xor.assoc)

lemma murmur_tail_k2:
  assumes "length t < 16"
  shows "murmur_case t (length t) 9 0 (murmur_case t (length t) 10 8 (murmur_case t (length t) 11 16
    (murmur_case t (length t) 12 24 (murmur_case t (length t) 13 32 (murmur_case t (length t) 14 40
    (murmur_case t (length t) 15 48 0)))))) = le_word (drop 8 t)"
proof -
  have "le_word (drop 8 t) = le_word (take 7 (drop 8 t))"
    using assms by simp
  then show ?thesis
    by (simp add: murmur_case_xor Suc_le_eq numeral_eq_Suc le_word_take_Suc xor.commute xor.left_commute
        xor.assoc less_diff_conv)
qed

lemma murmur_tail_last:
  assumes "length t < 16"
  shows "murmur_tail t (length t) h = murmur_last t h"
proof -
  have 1: "(if length t \<ge> 1 then x XOR murmur_k1 (le_word (take 8 t)) else x) = x XOR murmur_k1 (le_word (take 8 t))" for x
    by (cases t) auto
  have 2: "(if length t \<ge> 9 then x XOR murmur_k2 (le_word (drop 8 t)) else x) = x XOR murmur_k2 (le_word (drop 8 t))" for x
    by auto
  show ?thesis
    by (cases h) (simp only: murmur_tail_def Let_def prod.case murmur_tail_k1 murmur_tail_k2 [OF assms] 1 2
        murmur_last_def fst_conv snd_conv)
qed

lemma murmur_body_blocks:
  assumes "length data = 16 * i + 16 * n + r" "r < 16"
  shows "murmur_blocks (drop (16 * i) data) h
    = murmur_last (drop (16 * (i + n)) data) (murmur_body data i n h)"
  using assms
proof (induction n arbitrary: i h)
  case 0
  then show ?case by (simp add: murmur_blocks.simps)
next
  case (Suc n)
  have "murmur_blocks (drop (16 * Suc i) data) g
      = murmur_last (drop (16 * (Suc i + n)) data) (murmur_body data (Suc i) n g)" for g
    using Suc by (intro Suc.IH) auto
  then show ?case
    using Suc.prems
    by (subst murmur_blocks.simps) (simp add: getblock64_def algebra_simps)
qed

lemma MurmurHash3_blocks:
  "MurmurHash3_x64_128 data (length data) seed
     = murmur_final (length data) (murmur_blocks data (ucast seed, ucast seed))"
proof -
  let ?n = "length data div 16"
  have l: "length (drop (?n * 16) data) = length data mod 16"
    by (simp add: minus_div_mult_eq_mod)
  have "murmur_blocks data h = murmur_last (drop (?n * 16) data) (murmur_body data 0 ?n h)" for h
    using murmur_body_blocks [of data 0 ?n "length data mod 16" h] by (simp add: ac_simps)
  then show ?thesis
    using murmur_tail_last [of "drop (?n * 16) data"] l
    by (simp add: MurmurHash3_x64_128_def Let_def)
qed

section \<open>Injectivity\<close>

lemma rotl64_inverse: "0 < r \<Longrightarrow> r < 64 \<Longrightarrow> rotl64 (rotl64 x r) (64 - r) = x"
  by (rule bit_word_eqI) (auto simp: rotl64_def bit_simps)

lemma rotl64_inject: "0 < r \<Longrightarrow> r < 64 \<Longrightarrow> rotl64 x r = rotl64 y r \<longleftrightarrow> x = y"
  by (metis rotl64_inverse)

lemma mult_inverse_inject:
  assumes "c * d = (1 :: u64)"
  shows "x * c = y * c \<longleftrightarrow> x = y"
proof
  assume "x * c = y * c"
  then have "x * (c * d) = y * (c * d)"
    by (simp only: mult.assoc [symmetric])
  then show "x = y"
    by (simp only: assms mult_1_right)
qed simp

lemma xorshift_inverse: "(x XOR drop_bit 33 x) XOR drop_bit 33 (x XOR drop_bit 33 x) = (x :: u64)"
  by (rule bit_word_eqI) (auto simp: bit_simps)

lemma xorshift_inject: "x XOR drop_bit 33 x = y XOR drop_bit 33 y \<longleftrightarrow> x = (y :: u64)"
proof
  assume e: "x XOR drop_bit 33 x = y XOR drop_bit 33 y"
  have "(x XOR drop_bit 33 x) XOR drop_bit 33 (x XOR drop_bit 33 x)
      = (y XOR drop_bit 33 y) XOR drop_bit 33 (y XOR drop_bit 33 y)"
    unfolding e ..
  then show "x = y"
    unfolding xorshift_inverse .
qed simp

lemma xor_inject: "x XOR y = x XOR z \<longleftrightarrow> y = (z :: u64)"
proof
  assume "x XOR y = x XOR z"
  then have "(x XOR x) XOR y = (x XOR x) XOR z"
    by (simp only: xor.assoc)
  then show "y = z" by simp
qed simp

lemma xor_inject_right: "y XOR x = z XOR x \<longleftrightarrow> y = (z :: u64)"
  using xor_inject [of x y z] by (simp only: xor.commute)

lemma murmur_mults:
  fixes x y :: u64
  shows "x * 0xff51afd7ed558ccd = y * 0xff51afd7ed558ccd \<longleftrightarrow> x = y"
    and "x * 0xc4ceb9fe1a85ec53 = y * 0xc4ceb9fe1a85ec53 \<longleftrightarrow> x = y"
    and "x * murmur_c1 = y * murmur_c1 \<longleftrightarrow> x = y"
    and "x * murmur_c2 = y * murmur_c2 \<longleftrightarrow> x = y"
    and "x * 5 = y * 5 \<longleftrightarrow> x = y"
  by (rule mult_inverse_inject [where d = "0x4f74430c22a54005"], simp,
      rule mult_inverse_inject [where d = "0x9cb4b2f8129337db"], simp,
      rule mult_inverse_inject [where d = "0xa98409e882ce4d7d"], simp add: murmur_c1_def,
      rule mult_inverse_inject [where d = "0xa81e14edd9de2c7f"], simp add: murmur_c2_def,
      rule mult_inverse_inject [where d = "0xcccccccccccccccd"], simp)

lemma murmur_k_inject:
  "murmur_k1 x = murmur_k1 y \<longleftrightarrow> x = y" "murmur_k2 x = murmur_k2 y \<longleftrightarrow> x = y"
  by (simp_all add: murmur_k1_def murmur_k2_def murmur_mults rotl64_inject)

lemma fmix64_inject: "fmix64 x = fmix64 y \<longleftrightarrow> x = y"
  by (simp add: fmix64_def Let_def murmur_mults xorshift_inject)

lemma murmur_add5_inject: "x * 5 + c = y * 5 + c \<longleftrightarrow> x = (y :: u64)"
  using murmur_mults(5) [of x y] by simp

lemma murmur_blockD:
  assumes "murmur_block k1 k2 h = (u, v)"
  shows "(rotl64 (fst h XOR murmur_k1 k1) 27 + snd h) * 5 + 0x52dce729 = u"
    and "(rotl64 (snd h XOR murmur_k2 k2) 31 + u) * 5 + 0x38495ab5 = v"
  using assms by (auto simp only: murmur_block_def Let_def split_beta prod.inject)

lemma murmur_block_state_inject: "murmur_block k1 k2 g = murmur_block k1 k2 h \<longleftrightarrow> g = h"
proof
  obtain u v where h: "murmur_block k1 k2 h = (u, v)" by fastforce
  assume "murmur_block k1 k2 g = murmur_block k1 k2 h"
  with h have g: "murmur_block k1 k2 g = (u, v)" by (simp only:)
  have s: "snd g = snd h"
    using trans [OF murmur_blockD(2) [OF g] murmur_blockD(2) [OF h, symmetric]]
    unfolding murmur_add5_inject by (simp add: rotl64_inject xor_inject_right)
  have "fst g = fst h"
    using trans [OF murmur_blockD(1) [OF g] murmur_blockD(1) [OF h, symmetric]]
    unfolding murmur_add5_inject s by (simp add: rotl64_inject xor_inject_right)
  with s show "g = h" by (simp add: prod_eq_iff)
qed simp

lemma murmur_block_inject: "murmur_block k1 k2 h = murmur_block l1 l2 h \<longleftrightarrow> k1 = l1 \<and> k2 = l2"
proof
  obtain u v where k: "murmur_block k1 k2 h = (u, v)" by fastforce
  assume "murmur_block k1 k2 h = murmur_block l1 l2 h"
  with k have l: "murmur_block l1 l2 h = (u, v)" by (simp only:)
  show "k1 = l1 \<and> k2 = l2"
    using trans [OF murmur_blockD(1) [OF k] murmur_blockD(1) [OF l, symmetric]]
      trans [OF murmur_blockD(2) [OF k] murmur_blockD(2) [OF l, symmetric]]
    unfolding murmur_add5_inject by (simp add: rotl64_inject xor_inject murmur_k_inject)
qed simp

lemma sum_pair_inject:
  assumes "x + y = x' + (y' :: u64)" "y + (x + y) = y' + (x' + y')"
  shows "x = x' \<and> y = y'"
  using assms by simp

lemma murmur_final_inject: "murmur_final n g = murmur_final n h \<longleftrightarrow> g = h"
proof
  assume e: "murmur_final n g = murmur_final n h"
  let ?a = "\<lambda>h. fst h XOR of_nat n" and ?b = "\<lambda>h. snd h XOR of_nat n"
  have f: "murmur_final n h =
      (fmix64 (?a h + ?b h) + fmix64 (?b h + (?a h + ?b h)),
       fmix64 (?b h + (?a h + ?b h)) + (fmix64 (?a h + ?b h) + fmix64 (?b h + (?a h + ?b h))))" for h
    by (simp only: murmur_final_def Let_def split_beta)
  have "?a g + ?b g = ?a h + ?b h \<and> ?b g + (?a g + ?b g) = ?b h + (?a h + ?b h)"
    using e sum_pair_inject unfolding f prod.inject fmix64_inject [symmetric, of "?a g + ?b g"]
      fmix64_inject [symmetric, of "?b g + (?a g + ?b g)"] by blast
  then have "?a g = ?a h \<and> ?b g = ?b h"
    using sum_pair_inject by blast
  then show "g = h"
    unfolding xor_inject_right by (simp add: prod_eq_iff)
qed simp

lemma bit_le_word:
  "bit (le_word bs) n \<longleftrightarrow> n < 64 \<and> n div 8 < length bs \<and> bit (bs ! (n div 8)) (n mod 8)"
proof (induction bs arbitrary: n)
  case Nil
  then show ?case by simp
next
  case (Cons b bs)
  show ?case
  proof (cases "n < 8")
    case True
    then show ?thesis by (simp add: bit_simps)
  next
    case False
    then have "n div 8 = Suc ((n - 8) div 8)" "n mod 8 = (n - 8) mod 8"
      by (simp_all add: le_div_geq le_mod_geq)
    moreover have "\<not> bit b n"
      using False bit_imp_le_length [of b n] by auto
    ultimately show ?thesis
      using False by (auto simp: bit_simps Cons.IH)
  qed
qed

lemma le_word_inject:
  assumes "length a = length b" "length a \<le> 8" "le_word a = le_word b"
  shows "a = b"
proof (rule nth_equalityI [OF assms(1)], rule bit_word_eqI)
  fix i n assume i: "i < length a" and "n < LENGTH(8)"
  then have "(8 * i + n) div 8 = i" "(8 * i + n) mod 8 = n" "8 * i + n < 64"
    using assms(2) by auto
  then show "bit (a ! i) n \<longleftrightarrow> bit (b ! i) n"
    using arg_cong [OF assms(3), of "\<lambda>w. bit w (8 * i + n)"] i assms(1)
    by (simp only: bit_le_word) simp
qed

lemma murmur_blocks_state_inject: "murmur_blocks bs g = murmur_blocks bs h \<longleftrightarrow> g = h"
proof (induction bs g arbitrary: h rule: murmur_blocks.induct)
  case (1 bs g)
  show ?case
  proof (cases "length bs < 16")
    case True
    then show ?thesis
      by (simp add: murmur_blocks.simps murmur_last_def xor_inject_right prod_eq_iff)
  next
    case False
    then show ?thesis
      using 1 [OF False] by (simp add: murmur_blocks.simps [of bs] murmur_block_state_inject)
  qed
qed

lemma take_drop_eqI: "take n a = take n b \<Longrightarrow> drop n a = drop n b \<Longrightarrow> a = b"
  by (metis append_take_drop_id)

lemma take_drop_16:
  assumes "take 8 a = take 8 b" "take 8 (drop 8 a) = take 8 (drop 8 b)" "drop 16 a = drop 16 b"
  shows "a = b"
  by (rule take_drop_eqI [OF assms(1)], rule take_drop_eqI [OF assms(2)]) (simp add: assms(3))

lemma murmur_blocks_first:
  assumes "length a = length b" "drop 16 a = drop 16 b" "murmur_blocks a h = murmur_blocks b h"
  shows "a = b"
proof -
  have "le_word (take 8 a) = le_word (take 8 b) \<and>
      le_word (take 8 (drop 8 a)) = le_word (take 8 (drop 8 b))"
  proof (cases "length a < 16")
    case True
    with assms(1) have b: "length b < 16" by simp
    show ?thesis
      using assms(3) True b
      by (simp add: murmur_blocks_short [OF True] murmur_blocks_short [OF b] murmur_last_def xor_inject
          murmur_k_inject)
  next
    case False
    with assms(1) have b: "\<not> length b < 16" by simp
    show ?thesis
      using assms(3) unfolding murmur_blocks_long [OF False] murmur_blocks_long [OF b] assms(2)
        murmur_blocks_state_inject murmur_block_inject .
  qed
  then show ?thesis
    using assms(1) by (intro take_drop_16 [OF le_word_inject le_word_inject assms(2)]) auto
qed

lemma murmur_blocks_inject:
  assumes "length a = length b" "take (16 * i) a = take (16 * i) b"
    "drop (16 * Suc i) a = drop (16 * Suc i) b" "murmur_blocks a h = murmur_blocks b h"
  shows "a = b"
  using assms
proof (induction i arbitrary: a b h)
  case 0
  then show ?case by (intro murmur_blocks_first [of a b h]) simp_all
next
  case (Suc i)
  show ?case
  proof (cases "length a < 16")
    case True
    then show ?thesis using Suc.prems by simp
  next
    case False
    with Suc.prems(1) have fb: "\<not> length b < 16" by simp
    have t: "take 16 a = take 16 b"
      using arg_cong [OF Suc.prems(2), of "take 16"] by (simp add: min_def)
    have x: "take 8 x = take 8 (take 16 x)" "take 8 (drop 8 x) = drop 8 (take 16 x)" for x :: "u8 list"
      by (simp_all add: drop_take)
    have t8: "take 8 a = take 8 b" "take 8 (drop 8 a) = take 8 (drop 8 b)"
      by (simp_all only: x [of a] x [of b] t)
    have "drop 16 a = drop 16 b"
    proof (rule Suc.IH)
      show "take (16 * i) (drop 16 a) = take (16 * i) (drop 16 b)"
        using arg_cong [OF Suc.prems(2), of "drop 16"] by (simp add: drop_take)
      show "murmur_blocks (drop 16 a) (murmur_block (le_word (take 8 a)) (le_word (take 8 (drop 8 a))) h)
          = murmur_blocks (drop 16 b) (murmur_block (le_word (take 8 a)) (le_word (take 8 (drop 8 a))) h)"
        using Suc.prems(4) unfolding murmur_blocks_long [OF False] murmur_blocks_long [OF fb] t8 .
    qed (use Suc.prems in \<open>simp_all add: add.commute\<close>)
    then show ?thesis
      by (rule take_drop_eqI [OF t])
  qed
qed

section \<open>Properties\<close>

text \<open>
  (C25) The unrolled body and the fall-through switch compute the textbook MurmurHash3: the input
  cut into 16-byte blocks, the last partial block padded with zeros, and the finalisation; for
  every input length and seed.
\<close>
theorem murmur_reference:
  "MurmurHash3_x64_128 data (length data) seed
     = murmur_final (length data) (murmur_blocks data (ucast seed, ucast seed))"
  by (rule MurmurHash3_blocks)

text \<open>
  (C24) Two inputs of the same length that differ only inside one 16-byte block never have the same
  128-bit hash; in particular no two keys of the same length of at most 16 bytes collide.
\<close>
theorem murmur_block_injective:
  assumes "length a = length b" and "take (16 * i) a = take (16 * i) b"
    and "drop (16 * Suc i) a = drop (16 * Suc i) b"
    and "MurmurHash3_x64_128 a (length a) seed = MurmurHash3_x64_128 b (length b) seed"
  shows "a = b"
  using murmur_blocks_inject [OF assms(1-3)] assms(4)
  unfolding MurmurHash3_blocks unfolding assms(1) murmur_final_inject by blast

theorem murmur_block_injective_witness:
  "MurmurHash3_x64_128 [2, 65, 66] 3 47 \<noteq> MurmurHash3_x64_128 [2, 65, 67] 3 47"
  using murmur_block_injective [of "[2, 65, 66]" "[2, 65, 67]" 0 47] by (auto simp: numeral_3_eq_3)

end
