(* ===== verification/Hash_Table.thy ===== *)
theory Hash_Table
  imports Intrusive_List Memory Murmur_Hash3
begin

text \<open>
  The index of the keys, \<open>src/hash_table.c\<close> and \<open>src/hash_table.h\<close>.

  The table is the C struct, with addresses as 64-bit words and \<open>NULL\<close> as 0. The buckets are
  heads of hash lists in a store of links, the ghost fingerprints are 32-bit words in a store of
  their own, and the bytes of the keys are a store \<open>B\<close> the table only reads. Loops over hash
  lists are partial functions: a list without an end would be the value \<open>None\<close>.

  The facts: the table refines a finite map from keys to nodes, also while it migrates its
  buckets to a larger or smaller array; a migration ends and gives back exactly its pages; the
  bucket and ghost arrays fit their allocation; the ghost queue remembers an evicted key.
\<close>

section \<open>Definitions\<close>

type_synonym byte_store = "u64 \<Rightarrow> u8"

fun memcmp :: "byte_store \<Rightarrow> u64 \<Rightarrow> u64 \<Rightarrow> nat \<Rightarrow> int" where
  "memcmp B a b 0 = 0"
| "memcmp B a b (Suc n) =
     (if B a = B b then memcmp B (a + 1) (b + 1) n else if B a < B b then -1 else 1)"

definition BUCKET_GHOST_SHIFT :: nat where
  "BUCKET_GHOST_SHIFT = 4"

definition BUCKET_GHOST :: nat where
  "BUCKET_GHOST = 2 ^ BUCKET_GHOST_SHIFT"

definition BUCKET_GHOST_MASK :: u32 where
  "BUCKET_GHOST_MASK = of_nat BUCKET_GHOST - 1"

definition MIN_PAGE :: u64 where
  "MIN_PAGE = 1 + of_nat BUCKET_GHOST div 2"

definition PAGE_TO_MASK :: "u64 \<Rightarrow> u64" where
  "PAGE_TO_MASK page = push_bit (PAGE_SHIFT - 3) (page div MIN_PAGE) - 1"

definition MIN_MASK :: u64 where
  "MIN_MASK = PAGE_TO_MASK MIN_PAGE"

definition MASK_TO_PAGE :: "u64 \<Rightarrow> u64" where
  "MASK_TO_PAGE m = drop_bit (PAGE_SHIFT - 3) ((m + 1) * MIN_PAGE)"

definition GHOST_OFFSET :: "u64 \<Rightarrow> u64" where
  "GHOST_OFFSET page = push_bit PAGE_SHIFT (page div MIN_PAGE)"

record hash_table =
  ht_n :: u64
  ht_mask :: u64
  ht_buckets :: u64
  ht_ghost :: u64
  ht_old_buckets :: u64
  ht_old_mask :: u64
  ht_migrated :: u64

text \<open>What the table writes besides its struct: the links, the ghost words, the page accountant.\<close>

record hash_heap =
  hh_list :: "u64 hlist_store"
  hh_ghost :: "u64 \<Rightarrow> u32"
  hh_memory :: memory

definition bucket_at :: "u64 \<Rightarrow> u64 \<Rightarrow> u64" where
  "bucket_at buckets i = buckets + i * 8"

definition ghost_at :: "u64 \<Rightarrow> u64 \<Rightarrow> nat \<Rightarrow> u64" where
  "ghost_at ghost i j = ghost + i * (of_nat BUCKET_GHOST * 4) + of_nat j * 4"

definition node_to_key :: "u64 \<Rightarrow> u64" where
  "node_to_key node = node + 16"

definition key_to_node :: "u64 \<Rightarrow> u64" where
  "key_to_node key = key - 16"

text \<open>\<open>for (i = 0; i <= mask; i++) hlist_head_init(&buckets[i])\<close>\<close>

definition init_buckets :: "u64 hlist_store \<Rightarrow> u64 \<Rightarrow> u64 \<Rightarrow> u64 hlist_store" where
  "init_buckets h buckets m =
     fold (\<lambda>i h. hlist_head_init h (bucket_at buckets (of_nat i))) [0..<Suc (unat m)] h"

definition hash_table_init ::
  "(u64 \<Rightarrow> u64 option) \<Rightarrow> hash_table \<Rightarrow> hash_heap \<Rightarrow> bool \<times> hash_table \<times> hash_heap" where
  "hash_table_init mmap ht hp =
     (case memory_malloc mmap (hh_memory hp) MIN_PAGE of
        (None, m) \<Rightarrow> (False, ht, hp\<lparr>hh_memory := m\<rparr>)
      | (Some buckets, m) \<Rightarrow>
          (True,
           ht\<lparr>ht_n := 0, ht_mask := MIN_MASK, ht_buckets := buckets,
              ht_ghost := buckets + GHOST_OFFSET MIN_PAGE, ht_old_buckets := 0\<rparr>,
           hp\<lparr>hh_memory := m, hh_list := init_buckets (hh_list hp) buckets MIN_MASK\<rparr>))"

definition under_migrating :: "hash_table \<Rightarrow> bool" where
  "under_migrating ht \<longleftrightarrow> ht_old_buckets ht \<noteq> 0"

definition evacuated :: "u64 hlist_store \<Rightarrow> u64 \<Rightarrow> bool" where
  "evacuated h bucket \<longleftrightarrow> hlist_empty h bucket"

text \<open>The bytes of the key at an address: its length byte and the bytes it counts.\<close>

definition key_bytes :: "byte_store \<Rightarrow> u64 \<Rightarrow> u8 list" where
  "key_bytes B key = map (\<lambda>i. B (key + of_nat i)) [0..<Suc (unat (B key))]"

text \<open>\<open>hash\<close> stores \<open>hkey\<close> and the fingerprint through its out parameters.\<close>

definition hash :: "byte_store \<Rightarrow> u64 \<Rightarrow> u64 \<times> u32" where
  "hash B key =
     (let out = MurmurHash3_x64_128 (key_bytes B key) (unat (B key) + 1) 47
      in (snd out, ucast (fst out)))"

definition key_hash :: "byte_store \<Rightarrow> u64 \<Rightarrow> u64" where
  "key_hash B key = fst (hash B key)"

definition key_equal :: "byte_store \<Rightarrow> u64 \<Rightarrow> u64 \<Rightarrow> bool" where
  "key_equal B a b \<longleftrightarrow> memcmp B a b (unat (B a AND B b) + 1) = 0"

definition hash_bucket :: "byte_store \<Rightarrow> hash_table \<Rightarrow> u64 hlist_store \<Rightarrow> u64 \<Rightarrow> u64" where
  "hash_bucket B ht h key =
     (let hkey = key_hash B key;
          old_bucket = bucket_at (ht_old_buckets ht) (hkey AND ht_old_mask ht)
      in if under_migrating ht \<and> \<not> evacuated h old_bucket then old_bucket
         else bucket_at (ht_buckets ht) (hkey AND ht_mask ht))"

definition bucket_evacuated :: "hash_table \<Rightarrow> u64 hlist_store \<Rightarrow> u64 \<Rightarrow> bool" where
  "bucket_evacuated ht h i \<longleftrightarrow> evacuated h (bucket_at (ht_old_buckets ht) i)"

text \<open>The loops of \<open>evacuate\<close>: over the nodes of the old bucket, and over the empty ones after it.\<close>

partial_function (option) evacuate_nodes ::
  "byte_store \<Rightarrow> hash_table \<Rightarrow> u64 option \<Rightarrow> u64 hlist_store \<Rightarrow> u64 hlist_store option" where
  "evacuate_nodes B ht cur h =
     (case cur of
        None \<Rightarrow> Some h
      | Some c \<Rightarrow>
          let temp = hn_next (hs_node h c);
              hkey = key_hash B (node_to_key c);
              bucket = bucket_at (ht_buckets ht) (hkey AND ht_mask ht)
          in evacuate_nodes B ht temp (hlist_add h bucket c))"

function evacuate_scan :: "hash_table \<Rightarrow> u64 hlist_store \<Rightarrow> u64 \<Rightarrow> u64 \<Rightarrow> u64" where
  "evacuate_scan ht h mx migrated =
     (if migrated < mx \<and> bucket_evacuated ht h migrated
      then evacuate_scan ht h mx (migrated + 1) else migrated)"
  by pat_completeness auto
termination
  by (relation "measure (\<lambda>(ht, h, mx, i). unat mx - unat i)")
    (auto simp: unat_add_1 word_less_nat_alt intro!: diff_less_mono2)

declare evacuate_scan.simps [simp del]

definition evacuate ::
  "byte_store \<Rightarrow> hash_table \<times> hash_heap \<Rightarrow> u64 \<Rightarrow> (hash_table \<times> hash_heap) option" where
  "evacuate B s i =
     (let (ht, hp) = s;
          bucket = bucket_at (ht_old_buckets ht) i
      in Option.bind
          (if \<not> evacuated (hh_list hp) bucket
           then map_option (\<lambda>h. hlist_head_init h bucket)
                  (evacuate_nodes B ht (hs_first (hh_list hp) bucket) (hh_list hp))
           else Some (hh_list hp))
          (\<lambda>h. Some
            (if i = ht_migrated ht then
               let migrated = ht_migrated ht + 1;
                   mx = migrated + 1024;
                   mx = (if mx > ht_old_mask ht then ht_old_mask ht + 1 else mx);
                   migrated = evacuate_scan ht h mx migrated;
                   ht' = ht\<lparr>ht_migrated := migrated\<rparr>
               in if migrated > ht_old_mask ht
                  then (ht'\<lparr>ht_old_buckets := 0\<rparr>,
                        hp\<lparr>hh_list := h,
                          hh_memory := memory_free (hh_memory hp) (MASK_TO_PAGE (ht_old_mask ht))\<rparr>)
                  else (ht', hp\<lparr>hh_list := h\<rparr>)
             else (ht, hp\<lparr>hh_list := h\<rparr>))))"

partial_function (option) hash_find ::
  "byte_store \<Rightarrow> u64 hlist_store \<Rightarrow> u64 \<Rightarrow> u64 option \<Rightarrow> u64 option option" where
  "hash_find B h key cur =
     (if cur = None then Some None
      else if key_equal B (node_to_key (the cur)) key then Some cur
      else hash_find B h key (hn_next (hs_node h (the cur))))"

definition hash_get ::
  "byte_store \<Rightarrow> hash_table \<times> hash_heap \<Rightarrow> u64 \<Rightarrow> (u64 option \<times> hash_table \<times> hash_heap) option" where
  "hash_get B s key =
     Option.bind (if under_migrating (fst s) then evacuate B s (ht_migrated (fst s)) else Some s)
       (\<lambda>(ht, hp).
          let bucket = hash_bucket B ht (hh_list hp) key
          in map_option (\<lambda>node. (node, ht, hp))
               (hash_find B (hh_list hp) key (hs_first (hh_list hp) bucket)))"

definition should_grow :: "hash_table \<Rightarrow> bool" where
  "should_grow ht \<longleftrightarrow> ht_n ht > push_bit 3 (ht_mask ht)"

definition grow_required_page :: "hash_table \<Rightarrow> u64" where
  "grow_required_page ht = push_bit 1 (MASK_TO_PAGE (ht_mask ht))"

definition hash_add ::
  "byte_store \<Rightarrow> hash_table \<times> hash_heap \<Rightarrow> u64 \<Rightarrow> (hash_table \<times> hash_heap) option" where
  "hash_add B s key =
     (let ht = (fst s)\<lparr>ht_n := ht_n (fst s) + 1\<rparr>;
          hkey = key_hash B key
      in map_option
          (\<lambda>(ht, hp).
             let bucket = bucket_at (ht_buckets ht) (hkey AND ht_mask ht)
             in (ht, hp\<lparr>hh_list := hlist_add (hh_list hp) bucket (key_to_node key)\<rparr>))
          (if under_migrating ht then evacuate B (ht, snd s) (hkey AND ht_old_mask ht)
           else Some (ht, snd s)))"

definition should_shrink :: "hash_table \<Rightarrow> bool" where
  "should_shrink ht \<longleftrightarrow> ht_mask ht > MIN_MASK \<and> ht_n ht < push_bit 1 (ht_mask ht)"

definition shrink_required_page :: "hash_table \<Rightarrow> u64" where
  "shrink_required_page ht = drop_bit 1 (MASK_TO_PAGE (ht_mask ht))"

definition hash_resize_page :: "hash_table \<Rightarrow> u64" where
  "hash_resize_page ht =
     (if \<not> under_migrating ht then
        if should_grow ht then grow_required_page ht
        else if should_shrink ht then shrink_required_page ht
        else 0
      else 0)"

definition hash_resize ::
  "hash_table \<times> hash_heap \<Rightarrow> u64 \<Rightarrow> u64 \<Rightarrow> hash_table \<times> hash_heap" where
  "hash_resize s page new =
     (let (ht, hp) = s;
          ht' = ht\<lparr>ht_old_buckets := ht_buckets ht, ht_old_mask := ht_mask ht, ht_migrated := 0,
                  ht_mask := PAGE_TO_MASK page, ht_buckets := new,
                  ht_ghost := new + GHOST_OFFSET page\<rparr>
      in (ht', hp\<lparr>hh_list := init_buckets (hh_list hp) (ht_buckets ht') (ht_mask ht')\<rparr>))"

definition hash_ghost :: "byte_store \<Rightarrow> hash_table \<times> hash_heap \<Rightarrow> u64 \<Rightarrow> bool" where
  "hash_ghost B s key =
     (let (hkey, fingerprint) = hash B key;
          g = (\<lambda>j. hh_ghost (snd s) (ghost_at (ht_ghost (fst s)) (hkey AND ht_mask (fst s)) j))
      in (\<exists>i \<in> set [1..<BUCKET_GHOST]. g i = fingerprint) \<or>
         drop_bit BUCKET_GHOST_SHIFT (g 0) = drop_bit BUCKET_GHOST_SHIFT fingerprint)"

definition hash_add_ghost ::
  "byte_store \<Rightarrow> hash_table \<times> hash_heap \<Rightarrow> u64 \<Rightarrow> hash_table \<times> hash_heap" where
  "hash_add_ghost B s key =
     (let (hkey, fingerprint) = hash B key;
          g = ghost_at (ht_ghost (fst s)) (hkey AND ht_mask (fst s));
          mem = hh_ghost (snd s);
          i = mem (g 0) AND BUCKET_GHOST_MASK;
          mem = mem(g (unat i) := fingerprint);
          mem = mem(g 0 := (mem (g 0) AND NOT BUCKET_GHOST_MASK) OR ((i + 1) AND BUCKET_GHOST_MASK))
      in (fst s, (snd s)\<lparr>hh_ghost := mem\<rparr>))"

definition hash_del ::
  "byte_store \<Rightarrow> hash_table \<times> hash_heap \<Rightarrow> u64 \<Rightarrow> hash_table \<times> hash_heap" where
  "hash_del B s key =
     (let ht = (fst s)\<lparr>ht_n := ht_n (fst s) - 1\<rparr>;
          hp = (snd s)\<lparr>hh_list := hlist_del (hh_list (snd s)) (key_to_node key)\<rparr>
      in hash_add_ghost B (ht, hp) key)"

text \<open>
  The array of \<open>m + 1\<close> buckets at \<open>b\<close> holds the nodes \<open>N i\<close> in bucket \<open>i\<close>, each where its hash
  puts it.
\<close>

definition nhash :: "byte_store \<Rightarrow> u64 \<Rightarrow> u64" where
  "nhash B node = key_hash B (node_to_key node)"

definition bucket_array ::
  "byte_store \<Rightarrow> u64 hlist_store \<Rightarrow> u64 \<Rightarrow> u64 \<Rightarrow> (u64 \<Rightarrow> u64 list) \<Rightarrow> bool" where
  "bucket_array B h b m N \<longleftrightarrow>
     (\<forall>i \<le> m. hlist h (bucket_at b i) (N i) \<and> (\<forall>x \<in> set (N i). nhash B x AND m = i))"

definition table_mask :: "u64 \<Rightarrow> bool" where
  "table_mask m \<longleftrightarrow> (\<exists>k \<in> {9..57}. m = mask k)"

text \<open>No bucket of the one array is a bucket of the other.\<close>

definition arrays_apart :: "u64 \<Rightarrow> u64 \<Rightarrow> u64 \<Rightarrow> u64 \<Rightarrow> bool" where
  "arrays_apart b m b' m' \<longleftrightarrow> (\<forall>i \<le> m. \<forall>j \<le> m'. bucket_at b i \<noteq> bucket_at b' j)"

definition migration_inv ::
  "byte_store \<Rightarrow> hash_table \<Rightarrow> u64 hlist_store \<Rightarrow> (u64 \<Rightarrow> u64 list) \<Rightarrow> (u64 \<Rightarrow> u64 list) \<Rightarrow> bool" where
  "migration_inv B ht h N Q \<longleftrightarrow>
     table_mask (ht_old_mask ht) \<and> ht_migrated ht \<le> ht_old_mask ht \<and>
     bucket_array B h (ht_old_buckets ht) (ht_old_mask ht) Q \<and>
     (\<forall>i < ht_migrated ht. Q i = []) \<and>
     (\<forall>i \<le> ht_mask ht. \<forall>x \<in> set (N i). Q (nhash B x AND ht_old_mask ht) = []) \<and>
     arrays_apart (ht_buckets ht) (ht_mask ht) (ht_old_buckets ht) (ht_old_mask ht)"

definition table_inv ::
  "byte_store \<Rightarrow> hash_table \<Rightarrow> u64 hlist_store \<Rightarrow> (u64 \<Rightarrow> u64 list) \<Rightarrow> (u64 \<Rightarrow> u64 list) \<Rightarrow> bool" where
  "table_inv B ht h N Q \<longleftrightarrow>
     table_mask (ht_mask ht) \<and> ht_buckets ht \<noteq> 0 \<and>
     bucket_array B h (ht_buckets ht) (ht_mask ht) N \<and>
     (if under_migrating ht then migration_inv B ht h N Q else Q = (\<lambda>_. []))"

definition table_member ::
  "byte_store \<Rightarrow> hash_table \<Rightarrow> (u64 \<Rightarrow> u64 list) \<Rightarrow> (u64 \<Rightarrow> u64 list) \<Rightarrow> u64 \<Rightarrow> bool" where
  "table_member B ht N Q x \<longleftrightarrow>
     x \<in> set (N (nhash B x AND ht_mask ht)) \<or> x \<in> set (Q (nhash B x AND ht_old_mask ht))"

text \<open>The abstraction: the map from the bytes of a key to the node that has it.\<close>

definition table_rep ::
  "byte_store \<Rightarrow> hash_table \<times> hash_heap \<Rightarrow> (u8 list \<rightharpoonup> u64) \<Rightarrow> bool" where
  "table_rep B s mp \<longleftrightarrow>
     (\<exists>N Q. table_inv B (fst s) (hh_list (snd s)) N Q \<and>
        (\<forall>k x. mp k = Some x \<longleftrightarrow> table_member B (fst s) N Q x \<and> key_bytes B (node_to_key x) = k)) \<and>
     finite (dom mp) \<and> ht_n (fst s) = of_nat (card (dom mp))"

text \<open>The nodes of old bucket \<open>i\<close> move to the new buckets.\<close>

definition moved :: "byte_store \<Rightarrow> u64 \<Rightarrow> u64 list \<Rightarrow> (u64 \<Rightarrow> u64 list) \<Rightarrow> u64 \<Rightarrow> u64 list" where
  "moved B m xs N j = rev (filter (\<lambda>x. nhash B x AND m = j) xs) @ N j"

text \<open>
  What a call of \<open>evacuate\<close> does to the counters: at the migration's front it moves the front or
  ends the migration and gives the pages of the old array back; elsewhere it leaves them alone.
\<close>

definition evacuate_progress ::
  "hash_table \<Rightarrow> hash_heap \<Rightarrow> u64 \<Rightarrow> hash_table \<Rightarrow> hash_heap \<Rightarrow> bool" where
  "evacuate_progress ht hp i ht' hp' \<longleftrightarrow>
     (if i = ht_migrated ht then
        (\<not> under_migrating ht' \<and> hh_memory hp' = memory_free (hh_memory hp) (MASK_TO_PAGE (ht_old_mask ht))) \<or>
        (ht_old_buckets ht' = ht_old_buckets ht \<and> ht_migrated ht < ht_migrated ht' \<and>
         hh_memory hp' = hh_memory hp)
      else ht' = ht \<and> hh_memory hp' = hh_memory hp)"

definition same_array :: "hash_table \<Rightarrow> hash_table \<Rightarrow> bool" where
  "same_array ht ht' \<longleftrightarrow> ht_n ht' = ht_n ht \<and> ht_mask ht' = ht_mask ht \<and> ht_buckets ht' = ht_buckets ht \<and>
     ht_ghost ht' = ht_ghost ht \<and> ht_old_mask ht' = ht_old_mask ht"

definition table_view :: "byte_store \<Rightarrow> hash_table \<Rightarrow> u64 hlist_store \<Rightarrow> (u8 list \<rightharpoonup> u64) \<Rightarrow> bool" where
  "table_view B ht h mp \<longleftrightarrow>
     (\<exists>N Q. table_inv B ht h N Q \<and>
        (\<forall>k x. mp k = Some x \<longleftrightarrow> table_member B ht N Q x \<and> key_bytes B (node_to_key x) = k))"

text \<open>
  Fingerprint \<open>fp\<close> is in slot \<open>p\<close> of the bucket and \<open>a\<close> more fingerprints have been written
  since. Slot 0 shares its low four bits with the write position.
\<close>

definition ghost_slot :: "hash_table \<times> hash_heap \<Rightarrow> u64 \<Rightarrow> nat \<Rightarrow> u32" where
  "ghost_slot s b j = hh_ghost (snd s) (ghost_at (ht_ghost (fst s)) b j)"

definition ghost_holds :: "hash_table \<times> hash_heap \<Rightarrow> u64 \<Rightarrow> u32 \<Rightarrow> nat \<Rightarrow> nat \<Rightarrow> bool" where
  "ghost_holds s b fp p a \<longleftrightarrow>
     p < 16 \<and> (if p = 0 then drop_bit 4 (ghost_slot s b 0) = drop_bit 4 fp else ghost_slot s b p = fp) \<and>
     unat (ghost_slot s b 0) mod 16 = (p + 1 + a) mod 16"

text \<open>
  A client of the index sees a finite map. \<open>get\<close>, \<open>add\<close> and \<open>del\<close> take a pointer to a key, whose
  bytes are \<open>key p\<close>; the entry of a key is the node the pointer belongs to. A client resizes
  only when that is possible.
\<close>

datatype ('p, 'r) index_op = Get 'p | Add 'p | Del 'p | Resize 'r

text \<open>When \<open>thread.c\<close> may resize: the pages were asked for, and the new array is its own memory.\<close>

definition resize_ok :: "hash_table \<times> hash_heap \<Rightarrow> u64 \<times> u64 \<Rightarrow> bool" where
  "resize_ok s r \<longleftrightarrow>
     fst r = hash_resize_page (fst s) \<and> fst r \<noteq> 0 \<and> table_mask (PAGE_TO_MASK (fst r)) \<and> snd r \<noteq> 0 \<and>
     arrays_apart (snd r) (PAGE_TO_MASK (fst r)) (ht_buckets (fst s)) (ht_mask (fst s))"

text \<open>Looking up one key after the other.\<close>

fun hash_get_all :: "byte_store \<Rightarrow> u64 list \<Rightarrow> hash_table \<times> hash_heap \<Rightarrow> (hash_table \<times> hash_heap) option" where
  "hash_get_all B [] s = Some s"
| "hash_get_all B (key # keys) s = Option.bind (hash_get B s key) (\<lambda>(r, t). hash_get_all B keys t)"

definition old_pages :: "hash_table \<Rightarrow> u64" where
  "old_pages ht = (if under_migrating ht then MASK_TO_PAGE (ht_old_mask ht) else 0)"

definition two_keys :: byte_store where
  "two_keys = (\<lambda>_. 0)(0x100 := 1, 0x101 := 65, 0x200 := 1, 0x201 := 66)"

definition some_heap :: hash_heap where
  "some_heap = \<lparr>hh_list = \<lparr>hs_first = (\<lambda>_. None), hs_node = (\<lambda>_. \<lparr>hn_prev_next = HFirst 0, hn_next = None\<rparr>)\<rparr>,
     hh_ghost = (\<lambda>_. 0), hh_memory = \<lparr>free_pages = 100\<rparr>\<rparr>"

definition some_table :: hash_table where
  "some_table = \<lparr>ht_n = 0, ht_mask = 0, ht_buckets = 0, ht_ghost = 0, ht_old_buckets = 0,
     ht_old_mask = 0, ht_migrated = 0\<rparr>"

section \<open>Masks, pages and addresses\<close>

lemma word_and_le_right [simp]: "(x :: u64) AND m \<le> m"
  by (simp add: word_and_le1)

lemma table_mask_less:
  assumes "table_mask m"
  shows "unat m < 2 ^ 61" "m + 1 \<noteq> 0"
proof -
  obtain k where k: "k \<le> 57" "m = mask k"
    using assms by (auto simp: table_mask_def)
  have u: "unat m = 2 ^ k - 1"
    using k by (simp add: unat_mask_u64)
  have "(2::nat) ^ k \<le> 2 ^ 57"
    using k(1) by (rule power_increasing) simp
  with u show l: "unat m < 2 ^ 61" by simp
  then show "m + 1 \<noteq> 0"
    using word_unat_eq_iff [of "m + 1" 0] by (simp add: unat_word_ariths)
qed

lemma bucket_at_inject:
  assumes "unat m < 2 ^ 61" "i \<le> m" "j \<le> m"
  shows "bucket_at b i = bucket_at b j \<longleftrightarrow> i = j"
proof
  assume "bucket_at b i = bucket_at b j"
  then have "unat (i * 8) = unat (j * 8)" by (simp add: bucket_at_def)
  moreover have "unat i < 2 ^ 61" "unat j < 2 ^ 61"
    using assms by (auto simp: word_le_nat_alt)
  ultimately have "unat i * 8 = unat j * 8"
    by (simp add: unat_word_ariths)
  then show "i = j" by (simp add: word_unat_eq_iff)
qed simp

lemma unat_pages: "k \<le> 48 \<Longrightarrow> unat (9 * 2 ^ k :: u64) = 9 * 2 ^ k"
proof -
  assume "k \<le> 48"
  then have "(2::nat) ^ k \<le> 2 ^ 48" by (rule power_increasing) simp
  then have "(9 * 2 ^ k) mod 2 ^ 64 = 9 * (2::nat) ^ k" by simp
  moreover have "unat (9 * 2 ^ k :: u64) = unat (of_nat (9 * 2 ^ k) :: u64)" by simp
  ultimately show ?thesis by (simp only: unat_of_nat) simp
qed

lemma table_mask_layout:
  assumes "k \<le> 48"
  shows "PAGE_TO_MASK (9 * 2 ^ k) = mask (k + 9)" and "MASK_TO_PAGE (mask (k + 9)) = 9 * 2 ^ k"
    and "GHOST_OFFSET (9 * 2 ^ k) = 2 ^ (k + 12)" and "table_mask (mask (k + 9))"
proof -
  have d: "(9 * 2 ^ k :: u64) div 9 = 2 ^ k"
    using unat_pages [OF assms] unat_exp_u64 [of k] assms by (simp add: word_unat_eq_iff unat_div_distrib)
  have m: "push_bit n (2 ^ k :: u64) = 2 ^ (k + n)" for n
    by (simp add: push_bit_eq_mult power_add)
  show "PAGE_TO_MASK (9 * 2 ^ k) = mask (k + 9)" "GHOST_OFFSET (9 * 2 ^ k) = 2 ^ (k + 12)"
    by (simp_all add: PAGE_TO_MASK_def GHOST_OFFSET_def MIN_PAGE_def BUCKET_GHOST_def
        BUCKET_GHOST_SHIFT_def PAGE_SHIFT_def d m mask_eq_exp_minus_1)
  have "(2 ^ (k + 9) * 9 :: u64) = push_bit 9 (9 * 2 ^ k)"
    by (simp add: push_bit_eq_mult power_add)
  moreover have "drop_bit 9 (push_bit 9 (9 * 2 ^ k :: u64)) = 9 * 2 ^ k"
  proof -
    have "(9 * 2 ^ k * 2 ^ 9 :: nat) < 2 ^ 64"
      using power_increasing [OF assms, of "2 :: nat"] by simp
    then show ?thesis
      using unat_exp_u64 [of k] assms
      by (simp add: word_unat_eq_iff unsigned_drop_bit_eq drop_bit_eq_div push_bit_eq_mult unat_word_ariths)
  qed
  ultimately show "MASK_TO_PAGE (mask (k + 9)) = 9 * 2 ^ k"
    by (simp add: MASK_TO_PAGE_def MIN_PAGE_def BUCKET_GHOST_def BUCKET_GHOST_SHIFT_def PAGE_SHIFT_def
        mask_eq_exp_minus_1)
  show "table_mask (mask (k + 9))"
    using assms by (auto simp: table_mask_def intro!: bexI [of _ "k + 9"])
qed

lemma table_mask_cases:
  assumes "table_mask m"
  obtains k where "k \<le> 48" "m = mask (k + 9)"
proof -
  obtain j where "j \<in> {9..57}" "m = mask j"
    using assms by (auto simp: table_mask_def)
  then show thesis
    by (intro that [of "j - 9"]) auto
qed

section \<open>Keys\<close>

lemma memcmp_eq_0: "memcmp B a b n = 0 \<longleftrightarrow> (\<forall>i < n. B (a + of_nat i) = B (b + of_nat i))"
proof (induction n arbitrary: a b)
  case 0
  then show ?case by simp
next
  case (Suc n)
  have "(\<forall>i < Suc n. P i) \<longleftrightarrow> P 0 \<and> (\<forall>i < n. P (Suc i))" for P
    by (auto simp: less_Suc_eq_0_disj)
  then show ?case
    by (simp add: Suc.IH algebra_simps)
qed

lemma key_equal_iff: "key_equal B a b \<longleftrightarrow> key_bytes B a = key_bytes B b"
proof
  assume "key_equal B a b"
  then have e: "B (a + of_nat i) = B (b + of_nat i)" if "i < unat (B a AND B b) + 1" for i
    using that by (simp add: key_equal_def memcmp_eq_0 del: memcmp.simps)
  then have l: "B a = B b" using e [of 0] by simp
  then show "key_bytes B a = key_bytes B b"
    using e by (auto simp: key_bytes_def simp del: upt_Suc)
next
  assume e: "key_bytes B a = key_bytes B b"
  have n: "key_bytes B c ! i = B (c + of_nat i)" "length (key_bytes B c) = Suc (unat (B c))"
    if "i < Suc (unat (B c))" for c i
    using that by (simp_all add: key_bytes_def del: upt_Suc)
  have l: "B a = B b"
    using n(1) [of 0 a] n(1) [of 0 b] e by simp
  then show "key_equal B a b"
    using n(1) [of _ a] n(1) [of _ b] e by (simp add: key_equal_def memcmp_eq_0 del: memcmp.simps)
qed

lemma hash_cong: "key_bytes B a = key_bytes B b \<Longrightarrow> hash B a = hash B b"
proof -
  assume e: "key_bytes B a = key_bytes B b"
  then have "length (key_bytes B a) = length (key_bytes B b)" by simp
  then have "unat (B a) = unat (B b)" by (simp add: key_bytes_def)
  with e show ?thesis by (simp add: hash_def)
qed

section \<open>Bucket arrays\<close>

lemma bucket_arrayD:
  assumes "bucket_array B h b m N" "i \<le> m"
  shows "hlist h (bucket_at b i) (N i)" "\<And>x. x \<in> set (N i) \<Longrightarrow> nhash B x AND m = i"
  using assms by (auto simp: bucket_array_def)

lemma bucket_array_frame:
  assumes "bucket_array B h b m N"
    and "\<And>i. i \<le> m \<Longrightarrow> hs_first g (bucket_at b i) = hs_first h (bucket_at b i)"
    and "\<And>i x. i \<le> m \<Longrightarrow> x \<in> set (N i) \<Longrightarrow> hs_node g x = hs_node h x"
  shows "bucket_array B g b m N"
  unfolding bucket_array_def
proof (intro allI impI conjI ballI)
  fix i assume i: "i \<le> m"
  show "hlist g (bucket_at b i) (N i)"
    by (rule hlist_frame [OF bucket_arrayD(1) [OF assms(1) i] assms(2) [OF i] assms(3) [OF i]])
  show "nhash B x AND m = i" if "x \<in> set (N i)" for x
    by (rule bucket_arrayD(2) [OF assms(1) i that])
qed

lemma bucket_array_add:
  assumes a: "bucket_array B h b m N" and m: "unat m < 2 ^ 61"
    and x: "\<And>i. i \<le> m \<Longrightarrow> x \<notin> set (N i)" and j: "j = nhash B x AND m"
  shows "bucket_array B (hlist_add h (bucket_at b j) x) b m (N(j := x # N j))"
  unfolding bucket_array_def
proof (intro allI impI)
  fix i assume i: "i \<le> m"
  have jm: "j \<le> m" by (simp add: j)
  show "hlist (hlist_add h (bucket_at b j) x) (bucket_at b i) ((N(j := x # N j)) i) \<and>
      (\<forall>y \<in> set ((N(j := x # N j)) i). nhash B y AND m = i)"
  proof (cases "i = j")
    case True
    then show ?thesis
      using hlist_add bucket_arrayD [OF a jm] x [OF jm] j by auto
  next
    case False
    have "hlist (hlist_add h (bucket_at b j) x) (bucket_at b i) (N i)"
    proof (rule hlist_frame [OF bucket_arrayD(1) [OF a i]])
      show "hs_first (hlist_add h (bucket_at b j) x) (bucket_at b i) = hs_first h (bucket_at b i)"
        using False bucket_at_inject [OF m i jm] by (intro hlist_add_first) simp
      show "hs_node (hlist_add h (bucket_at b j) x) y = hs_node h y" if "y \<in> set (N i)" for y
        using that False bucket_arrayD(2) [OF a i that] bucket_arrayD(2) [OF a jm, of y] x [OF i]
        by (intro hlist_add_frame [OF bucket_arrayD(1) [OF a jm]]) auto
    qed
    then show ?thesis using False bucket_arrayD(2) [OF a i] by simp
  qed
qed

lemma bucket_array_del:
  assumes a: "bucket_array B h b m N" and m: "unat m < 2 ^ 61"
    and j: "j \<le> m" "N j = xs @ x # ys"
  shows "bucket_array B (hlist_del h x) b m (N(j := xs @ ys))"
  unfolding bucket_array_def
proof (intro allI impI)
  fix i assume i: "i \<le> m"
  have l: "hlist h (bucket_at b j) (xs @ x # ys)"
    using bucket_arrayD(1) [OF a j(1)] j(2) by simp
  show "hlist (hlist_del h x) (bucket_at b i) ((N(j := xs @ ys)) i) \<and>
      (\<forall>y \<in> set ((N(j := xs @ ys)) i). nhash B y AND m = i)"
  proof (cases "i = j")
    case True
    then show ?thesis
      using hlist_del [OF l] bucket_arrayD(2) [OF a j(1)] j(2) by auto
  next
    case False
    have "hlist (hlist_del h x) (bucket_at b i) (N i)"
    proof (rule hlist_frame [OF bucket_arrayD(1) [OF a i]])
      show "hs_first (hlist_del h x) (bucket_at b i) = hs_first h (bucket_at b i)"
        using False bucket_at_inject [OF m i j(1)] by (intro hlist_del_first [OF l]) simp
      show "hs_node (hlist_del h x) y = hs_node h y" if "y \<in> set (N i)" for y
        using that False bucket_arrayD(2) [OF a i that] bucket_arrayD(2) [OF a j(1), of y] j(2)
        by (intro hlist_del_frame [OF l]) auto
    qed
    then show ?thesis using False bucket_arrayD(2) [OF a i] by simp
  qed
qed

lemma init_buckets_first:
  "hs_first (init_buckets h b m) a = (if \<exists>i \<le> m. a = bucket_at b i then None else hs_first h a)"
  "hs_node (init_buckets h b m) = hs_node h"
proof -
  let ?f = "\<lambda>n. fold (\<lambda>i h. hlist_head_init h (bucket_at b (of_nat i))) [0..<n] h"
  have f: "hs_first (?f n) a = (if \<exists>i < n. a = bucket_at b (of_nat i) then None else hs_first h a)"
    "hs_node (?f n) = hs_node h" for n
    by (induction n) (auto simp: hlist_head_init_def less_Suc_eq)
  have "(\<exists>i < Suc (unat m). a = bucket_at b (of_nat i)) \<longleftrightarrow> (\<exists>i \<le> m. a = bucket_at b i)"
  proof
    assume "\<exists>i < Suc (unat m). a = bucket_at b (of_nat i)"
    then obtain i where "i \<le> unat m" "a = bucket_at b (of_nat i)"
      by (auto simp: less_Suc_eq_le)
    then show "\<exists>i \<le> m. a = bucket_at b i"
      using unat_u64 [of m] by (intro exI [of _ "of_nat i"]) (simp add: word_le_nat_alt unat_of_nat_u64)
  next
    assume "\<exists>i \<le> m. a = bucket_at b i"
    then obtain i where "i \<le> m" "a = bucket_at b i" by auto
    then show "\<exists>i < Suc (unat m). a = bucket_at b (of_nat i)"
      by (intro exI [of _ "unat i"]) (simp add: word_le_nat_alt)
  qed
  with f show "hs_first (init_buckets h b m) a = (if \<exists>i \<le> m. a = bucket_at b i then None else hs_first h a)"
    "hs_node (init_buckets h b m) = hs_node h"
    by (simp_all add: init_buckets_def del: upt_Suc)
qed

lemma bucket_array_init: "bucket_array B (init_buckets h b m) b m (\<lambda>_. [])"
  by (auto simp: bucket_array_def hlist_def init_buckets_first)

section \<open>Evacuation\<close>

text \<open>Moving a chain of nodes to the new buckets: each lands in front of the bucket of its hash.\<close>

lemma evacuate_nodes_ok:
  fixes m :: u64
  assumes "hchain h l p xs" "distinct xs" "bucket_array B h b m N" "unat m < 2 ^ 61"
    and "\<And>i x. i \<le> m \<Longrightarrow> x \<in> set xs \<Longrightarrow> x \<notin> set (N i)"
    and "ht_buckets ht = b" "ht_mask ht = m"
  shows "\<exists>g. evacuate_nodes B ht p h = Some g \<and>
    bucket_array B g b m (\<lambda>i. rev (filter (\<lambda>x. nhash B x AND m = i) xs) @ N i) \<and>
    (\<forall>a. (\<forall>i \<le> m. a \<noteq> bucket_at b i) \<longrightarrow> hs_first g a = hs_first h a) \<and>
    (\<forall>x. x \<notin> set xs \<longrightarrow> (\<forall>i \<le> m. x \<notin> set (N i)) \<longrightarrow> hs_node g x = hs_node h x)"
  using assms
proof (induction xs arbitrary: h l p N)
  case Nil
  then show ?case by (simp add: evacuate_nodes.simps)
next
  case (Cons x xs)
  let ?j = "nhash B x AND m"
  let ?h = "hlist_add h (bucket_at b ?j) x" and ?N = "N(?j := x # N ?j)"
  have j: "?j \<le> m" by simp
  have xn: "x \<notin> set (N i)" if "i \<le> m" for i
    using Cons.prems(5) [OF that] by simp
  note frame = hlist_add_frame [OF bucket_arrayD(1) [OF Cons.prems(3) j]]
  have c: "hchain h (HNext x) (hn_next (hs_node h x)) xs" and p: "p = Some x"
    using Cons.prems(1) by auto
  have c': "hchain ?h (HNext x) (hn_next (hs_node h x)) xs"
    using c
  proof (rule hchain_cong)
    fix y assume "y \<in> set xs"
    then have "y \<notin> set (x # N ?j)"
      using Cons.prems(2) Cons.prems(5) [OF j, of y] by auto
    from frame [OF this] show "hn_next (hs_node ?h y) = hn_next (hs_node h y)"
      "hn_prev_next (hs_node ?h y) = hn_prev_next (hs_node h y)" by simp_all
  qed
  have a': "bucket_array B ?h b m ?N"
    using bucket_array_add [OF Cons.prems(3,4) xn] by simp
  have n': "y \<notin> set (?N i)" if "i \<le> m" "y \<in> set xs" for i y
    using that Cons.prems(2) Cons.prems(5) [OF that(1), of y] by auto
  have d': "distinct xs"
    using Cons.prems(2) by simp
  from Cons.IH [OF c' d' a' Cons.prems(4) n' Cons.prems(6,7)] obtain g where g: "evacuate_nodes B ht (hn_next (hs_node h x)) ?h = Some g"
    "bucket_array B g b m (\<lambda>i. rev (filter (\<lambda>x. nhash B x AND m = i) xs) @ ?N i)"
    "\<And>a. (\<forall>i \<le> m. a \<noteq> bucket_at b i) \<Longrightarrow> hs_first g a = hs_first ?h a"
    "\<And>y. y \<notin> set xs \<Longrightarrow> (\<forall>i \<le> m. y \<notin> set (?N i)) \<Longrightarrow> hs_node g y = hs_node ?h y"
    by blast
  have e: "evacuate_nodes B ht p h = Some g"
    using g(1) Cons.prems(6,7) p by (subst evacuate_nodes.simps) (simp add: nhash_def)
  have "(\<lambda>i. rev (filter (\<lambda>x. nhash B x AND m = i) xs) @ ?N i)
      = (\<lambda>i. rev (filter (\<lambda>x. nhash B x AND m = i) (x # xs)) @ N i)"
    by auto
  with g(2) have "bucket_array B g b m (\<lambda>i. rev (filter (\<lambda>x. nhash B x AND m = i) (x # xs)) @ N i)"
    by simp
  moreover have "hs_first g a = hs_first h a" if "\<forall>i \<le> m. a \<noteq> bucket_at b i" for a
    using g(3) [OF that] that j by (simp add: hlist_add_first)
  moreover have "hs_node g y = hs_node h y" if "y \<notin> set (x # xs)" "\<forall>i \<le> m. y \<notin> set (N i)" for y
    using g(4) [of y] frame [of y x] that j by auto
  ultimately show ?case using e by blast
qed

lemma evacuate_scan_ok:
  assumes "i \<le> mx"
  shows "i \<le> evacuate_scan ht h mx i" "evacuate_scan ht h mx i \<le> mx"
    and "i \<le> j \<Longrightarrow> j < evacuate_scan ht h mx i \<Longrightarrow> bucket_evacuated ht h j"
proof -
  have "i \<le> evacuate_scan ht h mx i \<and> evacuate_scan ht h mx i \<le> mx \<and>
      (\<forall>j. i \<le> j \<longrightarrow> j < evacuate_scan ht h mx i \<longrightarrow> bucket_evacuated ht h j)"
    using assms
  proof (induction ht h mx i rule: evacuate_scan.induct)
    case (1 ht h mx i)
    show ?case
    proof (cases "i < mx \<and> bucket_evacuated ht h i")
      case True
      have s: "i < i + 1" "i + 1 \<le> mx"
        using unat_add_1 [of i mx] True by (auto simp: word_less_nat_alt word_le_nat_alt)
      have u: "evacuate_scan ht h mx i = evacuate_scan ht h mx (i + 1)"
        using True by (subst evacuate_scan.simps) simp
      have n: "i + 1 \<le> j" if "i \<le> j" "j \<noteq> i" for j
        using that unat_add_1 [of i mx] True
        by (auto simp: word_less_nat_alt word_le_nat_alt word_unat_eq_iff)
      from 1(1) [OF True s(2)] have ih: "i + 1 \<le> evacuate_scan ht h mx i" "evacuate_scan ht h mx i \<le> mx"
        "\<And>j. i + 1 \<le> j \<Longrightarrow> j < evacuate_scan ht h mx i \<Longrightarrow> bucket_evacuated ht h j"
        unfolding u by blast+
      have "bucket_evacuated ht h j" if "i \<le> j" "j < evacuate_scan ht h mx i" for j
        using ih(3) [OF n [OF that(1)] that(2)] True by (cases "j = i") auto
      then show ?thesis
        using ih(2) order_trans [OF less_imp_le [OF s(1)] ih(1)] by blast
    next
      case False
      then have "evacuate_scan ht h mx i = i"
        by (subst evacuate_scan.simps) auto
      then show ?thesis using 1(2) by auto
    qed
  qed
  then show "i \<le> evacuate_scan ht h mx i" "evacuate_scan ht h mx i \<le> mx"
    "i \<le> j \<Longrightarrow> j < evacuate_scan ht h mx i \<Longrightarrow> bucket_evacuated ht h j" by auto
qed

lemma table_invD:
  assumes "table_inv B ht h N Q"
  shows "table_mask (ht_mask ht)" "ht_buckets ht \<noteq> 0" "unat (ht_mask ht) < 2 ^ 61"
    "bucket_array B h (ht_buckets ht) (ht_mask ht) N"
    "under_migrating ht \<Longrightarrow> migration_inv B ht h N Q"
    "\<not> under_migrating ht \<Longrightarrow> Q = (\<lambda>_. [])"
  using assms table_mask_less(1) by (auto simp: table_inv_def split: if_splits)

lemma migration_invD:
  assumes "migration_inv B ht h N Q"
  shows "table_mask (ht_old_mask ht)" "ht_migrated ht \<le> ht_old_mask ht" "unat (ht_old_mask ht) < 2 ^ 61"
    "bucket_array B h (ht_old_buckets ht) (ht_old_mask ht) Q"
    "\<And>i. i < ht_migrated ht \<Longrightarrow> Q i = []"
    "\<And>i x. i \<le> ht_mask ht \<Longrightarrow> x \<in> set (N i) \<Longrightarrow> Q (nhash B x AND ht_old_mask ht) = []"
    "\<And>i j. i \<le> ht_mask ht \<Longrightarrow> j \<le> ht_old_mask ht \<Longrightarrow>
      bucket_at (ht_buckets ht) i \<noteq> bucket_at (ht_old_buckets ht) j"
  using assms table_mask_less(1) by (auto simp: migration_inv_def arrays_apart_def)

text \<open>A node of an old bucket is in no other bucket.\<close>

lemma old_node_apart:
  assumes "migration_inv B ht h N Q" "i \<le> ht_old_mask ht" "x \<in> set (Q i)"
  shows "j \<le> ht_mask ht \<Longrightarrow> x \<notin> set (N j)" "j \<le> ht_old_mask ht \<Longrightarrow> j \<noteq> i \<Longrightarrow> x \<notin> set (Q j)"
proof -
  note D = migration_invD [OF assms(1)]
  have i: "nhash B x AND ht_old_mask ht = i"
    by (rule bucket_arrayD(2) [OF D(4) assms(2,3)])
  show "x \<notin> set (N j)" if "j \<le> ht_mask ht"
  proof
    assume "x \<in> set (N j)"
    from D(6) [OF that this] show False using i assms(3) by simp
  qed
  show "x \<notin> set (Q j)" if "j \<le> ht_old_mask ht" "j \<noteq> i"
    using bucket_arrayD(2) [OF D(4) that(1), of x] i that(2) by auto
qed

lemma hlist_head_init_sel [simp]:
  "hs_first (hlist_head_init h a) = (hs_first h)(a := None)" "hs_node (hlist_head_init h a) = hs_node h"
  by (simp_all add: hlist_head_init_def)

lemma hlist_Nil_iff: "hlist h a [] \<longleftrightarrow> hs_first h a = None"
  by (simp add: hlist_def)

lemma moved_member:
  assumes "migration_inv B ht h N Q" "i \<le> ht_old_mask ht"
  shows "table_member B ht (moved B (ht_mask ht) (Q i) N) (Q(i := [])) x \<longleftrightarrow> table_member B ht N Q x"
  using bucket_arrayD(2) [OF migration_invD(4) [OF assms(1)] assms(2), of x]
  by (auto simp: table_member_def moved_def)

lemma moved_old_empty:
  assumes "migration_inv B ht h N Q" "i \<le> ht_old_mask ht" "j \<le> ht_mask ht"
    and "x \<in> set (moved B (ht_mask ht) (Q i) N j)"
  shows "(Q(i := [])) (nhash B x AND ht_old_mask ht) = []"
  using bucket_arrayD(2) [OF migration_invD(4) [OF assms(1)] assms(2), of x]
    migration_invD(6) [OF assms(1,3), of x] assms(4)
  by (auto simp: moved_def)

lemma evacuate_links_inv:
  assumes inv: "table_inv B ht h N Q" and mig: "under_migrating ht" and i: "i \<le> ht_old_mask ht"
    and new: "bucket_array B g (ht_buckets ht) (ht_mask ht) (moved B (ht_mask ht) (Q i) N)"
    and first: "\<And>a. \<forall>j \<le> ht_mask ht. a \<noteq> bucket_at (ht_buckets ht) j \<Longrightarrow> hs_first g a = hs_first h a"
    and node: "\<And>x. x \<notin> set (Q i) \<Longrightarrow> \<forall>j \<le> ht_mask ht. x \<notin> set (N j) \<Longrightarrow> hs_node g x = hs_node h x"
  shows "table_inv B ht (hlist_head_init g (bucket_at (ht_old_buckets ht) i))
    (moved B (ht_mask ht) (Q i) N) (Q(i := []))"
proof -
  note M = table_invD(5) [OF inv mig]
  note D = migration_invD [OF M]
  let ?g = "hlist_head_init g (bucket_at (ht_old_buckets ht) i)"
  have fo: "hs_first ?g (bucket_at (ht_old_buckets ht) j) = hs_first h (bucket_at (ht_old_buckets ht) j)"
    if "j \<le> ht_old_mask ht" "j \<noteq> i" for j
  proof -
    have "\<forall>k \<le> ht_mask ht. bucket_at (ht_old_buckets ht) j \<noteq> bucket_at (ht_buckets ht) k"
      using D(7) [OF _ that(1), THEN not_sym] by simp
    from first [OF this] show ?thesis
      using bucket_at_inject [OF D(3) that(1) i, of "ht_old_buckets ht"] that(2) by simp
  qed
  have no: "hs_node ?g x = hs_node h x" if "j \<le> ht_old_mask ht" "j \<noteq> i" "x \<in> set (Q j)" for j x
    using node [of x] old_node_apart [OF M that(1,3)] i that(2) by auto
  have "bucket_array B ?g (ht_old_buckets ht) (ht_old_mask ht) (Q(i := []))"
    unfolding bucket_array_def
  proof (intro allI impI)
    fix j assume j: "j \<le> ht_old_mask ht"
    show "hlist ?g (bucket_at (ht_old_buckets ht) j) ((Q(i := [])) j) \<and>
        (\<forall>x \<in> set ((Q(i := [])) j). nhash B x AND ht_old_mask ht = j)"
    proof (cases "j = i")
      case True
      then show ?thesis by (simp add: hlist_Nil_iff)
    next
      case False
      have "hlist ?g (bucket_at (ht_old_buckets ht) j) (Q j)"
        by (rule hlist_frame [OF bucket_arrayD(1) [OF D(4) j] fo [OF j False] no [OF j False]])
      then show ?thesis
        using False bucket_arrayD(2) [OF D(4) j] by simp
    qed
  qed
  moreover have "bucket_array B ?g (ht_buckets ht) (ht_mask ht) (moved B (ht_mask ht) (Q i) N)"
    using D(7) [OF _ i] by (intro bucket_array_frame [OF new]) auto
  moreover have "arrays_apart (ht_buckets ht) (ht_mask ht) (ht_old_buckets ht) (ht_old_mask ht)"
    using M by (simp add: migration_inv_def)
  ultimately show ?thesis
    unfolding table_inv_def migration_inv_def
    using mig table_invD(1,2) [OF inv] D(1,2,5) moved_old_empty [OF M i] by simp
qed

lemma evacuate_links:
  assumes inv: "table_inv B ht h N Q" and mig: "under_migrating ht" and i: "i \<le> ht_old_mask ht"
  shows "\<exists>g N'. (if \<not> evacuated h (bucket_at (ht_old_buckets ht) i)
      then map_option (\<lambda>h. hlist_head_init h (bucket_at (ht_old_buckets ht) i))
        (evacuate_nodes B ht (hs_first h (bucket_at (ht_old_buckets ht) i)) h)
      else Some h) = Some g \<and> table_inv B ht g N' (Q(i := [])) \<and>
    (\<forall>x. table_member B ht N' (Q(i := [])) x \<longleftrightarrow> table_member B ht N Q x)"
proof (cases "evacuated h (bucket_at (ht_old_buckets ht) i)")
  case True
  note D = migration_invD [OF table_invD(5) [OF inv mig]]
  have "Q i = []"
    using True hlist_empty_iff [OF bucket_arrayD(1) [OF D(4) i]] by (simp add: evacuated_def)
  then have "Q(i := []) = Q" by auto
  then show ?thesis
    using inv True by (intro exI [of _ h] exI [of _ N]) simp
next
  case False
  note M = table_invD(5) [OF inv mig]
  note D = migration_invD [OF M]
  have l: "hlist h (bucket_at (ht_old_buckets ht) i) (Q i)"
    by (rule bucket_arrayD(1) [OF D(4) i])
  have c: "hchain h (HFirst (bucket_at (ht_old_buckets ht) i)) (hs_first h (bucket_at (ht_old_buckets ht) i)) (Q i)"
    and d: "distinct (Q i)"
    using l by (auto simp: hlist_def)
  have n: "x \<notin> set (N j)" if "j \<le> ht_mask ht" "x \<in> set (Q i)" for j x
    using old_node_apart(1) [OF M i that(2,1)] .
  from evacuate_nodes_ok [OF c d table_invD(4,3) [OF inv] n refl refl] obtain g where
    e: "evacuate_nodes B ht (hs_first h (bucket_at (ht_old_buckets ht) i)) h = Some g"
    and g: "bucket_array B g (ht_buckets ht) (ht_mask ht) (moved B (ht_mask ht) (Q i) N)"
      "\<And>a. \<forall>j \<le> ht_mask ht. a \<noteq> bucket_at (ht_buckets ht) j \<Longrightarrow> hs_first g a = hs_first h a"
      "\<And>x. x \<notin> set (Q i) \<Longrightarrow> \<forall>j \<le> ht_mask ht. x \<notin> set (N j) \<Longrightarrow> hs_node g x = hs_node h x"
    unfolding moved_def [abs_def] by blast
  let ?g = "hlist_head_init g (bucket_at (ht_old_buckets ht) i)"
  have "(if \<not> evacuated h (bucket_at (ht_old_buckets ht) i)
      then map_option (\<lambda>h. hlist_head_init h (bucket_at (ht_old_buckets ht) i))
        (evacuate_nodes B ht (hs_first h (bucket_at (ht_old_buckets ht) i)) h)
      else Some h) = Some ?g"
    using e False by simp
  with evacuate_links_inv [OF inv mig i g] moved_member [OF M i] show ?thesis
    by blast
qed

lemma evacuate_front:
  fixes mig om :: u64
  defines "mx \<equiv> if mig + 1 + 1024 > om then om + 1 else mig + 1 + 1024"
  assumes "mig \<le> om" "unat om < 2 ^ 61"
  shows "mig + 1 \<le> mx" "mx \<le> om + 1" "mig < mig + 1" "j < mx \<Longrightarrow> j \<le> om"
    "mig < j \<Longrightarrow> mig + 1 \<le> j"
proof -
  have u: "unat (mig + 1) = unat mig + 1" "unat (om + 1) = unat om + 1"
    "unat (mig + 1 + 1024) = unat mig + 1025"
    using assms(2,3) by (simp_all add: unat_word_ariths word_le_nat_alt)
  show "mig < mig + 1" "mig < j \<Longrightarrow> mig + 1 \<le> j"
    using u by (auto simp: word_less_nat_alt word_le_nat_alt)
  show "mig + 1 \<le> mx" "mx \<le> om + 1" "j < mx \<Longrightarrow> j \<le> om"
    using assms(2) u unfolding mx_def
    by (auto simp: word_less_nat_alt word_le_nat_alt simp del: unat_1 split: if_splits)
qed

lemma table_inv_advance:
  assumes inv: "table_inv B ht h N Q" and mig: "under_migrating ht"
    and e: "\<And>j. j < k \<Longrightarrow> j \<le> ht_old_mask ht \<Longrightarrow> Q j = []"
  shows "k \<le> ht_old_mask ht \<Longrightarrow> table_inv B (ht\<lparr>ht_migrated := k\<rparr>) h N Q"
    and "\<not> k \<le> ht_old_mask ht \<Longrightarrow>
      table_inv B (ht\<lparr>ht_migrated := k, ht_old_buckets := 0\<rparr>) h N (\<lambda>_. []) \<and>
      (table_member B (ht\<lparr>ht_migrated := k, ht_old_buckets := 0\<rparr>) N (\<lambda>_. []) x \<longleftrightarrow> table_member B ht N Q x)"
proof -
  note M = table_invD(5) [OF inv mig]
  have "Q j = []" if "j < k" "k \<le> ht_old_mask ht" for j
    using e that by auto
  then show "k \<le> ht_old_mask ht \<Longrightarrow> table_inv B (ht\<lparr>ht_migrated := k\<rparr>) h N Q"
    using inv M mig by (simp add: table_inv_def migration_inv_def under_migrating_def)
  assume "\<not> k \<le> ht_old_mask ht"
  then have "Q (nhash B x AND ht_old_mask ht) = []"
    by (intro e le_less_trans [OF word_and_le_right]) (simp_all add: not_le)
  then show "table_inv B (ht\<lparr>ht_migrated := k, ht_old_buckets := 0\<rparr>) h N (\<lambda>_. []) \<and>
      (table_member B (ht\<lparr>ht_migrated := k, ht_old_buckets := 0\<rparr>) N (\<lambda>_. []) x \<longleftrightarrow> table_member B ht N Q x)"
    using inv by (simp add: table_inv_def under_migrating_def table_member_def)
qed

lemma evacuate_scan_empty:
  assumes inv: "table_inv B ht h N Q" and mig: "under_migrating ht" and i: "Q (ht_migrated ht) = []"
  defines "mx \<equiv> if ht_migrated ht + 1 + 1024 > ht_old_mask ht then ht_old_mask ht + 1
    else ht_migrated ht + 1 + 1024"
  shows "j < evacuate_scan ht h mx (ht_migrated ht + 1) \<Longrightarrow> j \<le> ht_old_mask ht \<Longrightarrow> Q j = []"
    and "ht_migrated ht < evacuate_scan ht h mx (ht_migrated ht + 1)"
proof -
  note D = migration_invD [OF table_invD(5) [OF inv mig]]
  note F = evacuate_front [OF D(2,3), folded mx_def]
  note S = evacuate_scan_ok [OF F(1)]
  show "ht_migrated ht < evacuate_scan ht h mx (ht_migrated ht + 1)"
    by (rule less_le_trans [OF F(3) S(1)])
  assume j: "j < evacuate_scan ht h mx (ht_migrated ht + 1)" "j \<le> ht_old_mask ht"
  show "Q j = []"
  proof (cases "ht_migrated ht < j")
    case True
    from S(3) [OF F(5) [OF True] j(1)] show ?thesis
      using hlist_empty_iff [OF bucket_arrayD(1) [OF D(4) j(2)]]
      by (simp add: bucket_evacuated_def evacuated_def)
  next
    case False
    then show ?thesis using i D(5) by (cases "j = ht_migrated ht") auto
  qed
qed

lemma table_member_migrated [simp]:
  "table_member B (ht\<lparr>ht_migrated := k\<rparr>) N Q = table_member B ht N Q"
  "table_member B (ht\<lparr>ht_n := n\<rparr>) N Q = table_member B ht N Q"
  by (simp_all add: table_member_def fun_eq_iff)

lemma table_inv_n: "table_inv B (ht\<lparr>ht_n := n\<rparr>) h N Q \<longleftrightarrow> table_inv B ht h N Q"
  by (simp add: table_inv_def migration_inv_def under_migrating_def)

lemma evacuate_ok:
  assumes inv: "table_inv B ht (hh_list hp) N Q" and mig: "under_migrating ht" and i: "i \<le> ht_old_mask ht"
  obtains ht' hp' N' Q' where "evacuate B (ht, hp) i = Some (ht', hp')"
    "table_inv B ht' (hh_list hp') N' Q'" "Q' i = []"
    "\<And>x. table_member B ht' N' Q' x \<longleftrightarrow> table_member B ht N Q x"
    "same_array ht ht'" "hh_ghost hp' = hh_ghost hp" "evacuate_progress ht hp i ht' hp'"
proof -
  from evacuate_links [OF inv mig i] obtain g N' where
    g: "(if \<not> evacuated (hh_list hp) (bucket_at (ht_old_buckets ht) i)
      then map_option (\<lambda>h. hlist_head_init h (bucket_at (ht_old_buckets ht) i))
        (evacuate_nodes B ht (hs_first (hh_list hp) (bucket_at (ht_old_buckets ht) i)) (hh_list hp))
      else Some (hh_list hp)) = Some g"
    and inv': "table_inv B ht g N' (Q(i := []))"
    and mem: "\<And>x. table_member B ht N' (Q(i := [])) x \<longleftrightarrow> table_member B ht N Q x"
    by blast
  define mx where "mx = (if ht_migrated ht + 1 + 1024 > ht_old_mask ht then ht_old_mask ht + 1
    else ht_migrated ht + 1 + 1024)"
  define k where "k = evacuate_scan ht g mx (ht_migrated ht + 1)"
  note e = evacuate_def [of B "(ht, hp)" i, unfolded Let_def prod.case g bind.simps, folded mx_def k_def]
  show thesis
  proof (cases "i = ht_migrated ht")
    case False
    show thesis
      by (rule that [of ht "hp\<lparr>hh_list := g\<rparr>" N' "Q(i := [])"])
        (use False inv' mem e in \<open>simp_all add: same_array_def evacuate_progress_def\<close>)
  next
    case True
    have z: "(Q(i := [])) (ht_migrated ht) = []"
      by (simp add: True)
    note S = evacuate_scan_empty [OF inv' mig z, folded mx_def, folded k_def]
    note A = table_inv_advance [where k = k, OF inv' mig S(1)]
    show thesis
    proof (cases "k \<le> ht_old_mask ht")
      case k: True
      show thesis
        by (rule that [of "ht\<lparr>ht_migrated := k\<rparr>" "hp\<lparr>hh_list := g\<rparr>" N' "Q(i := [])"])
          (use True k mem S(2) e A(1) [OF _ _ k] in \<open>simp_all add: same_array_def evacuate_progress_def
            not_less fun_upd_def\<close>)
    next
      case k: False
      let ?ht = "ht\<lparr>ht_migrated := k, ht_old_buckets := 0\<rparr>"
      let ?hp = "hp\<lparr>hh_list := g, hh_memory := memory_free (hh_memory hp) (MASK_TO_PAGE (ht_old_mask ht))\<rparr>"
      show thesis
        by (rule that [of ?ht ?hp N' "\<lambda>_. []"])
          (use True k A(2) [OF _ _ k] mem e in \<open>simp_all add: same_array_def evacuate_progress_def not_le
            under_migrating_def fun_upd_def\<close>)
    qed
  qed
qed

section \<open>The operations on the map of keys\<close>

lemma table_member_cases:
  assumes inv: "table_inv B ht h N Q" and m: "table_member B ht N Q x"
  obtains (new) "x \<in> set (N (nhash B x AND ht_mask ht))"
    | (old) "under_migrating ht" "x \<in> set (Q (nhash B x AND ht_old_mask ht))"
proof (cases "under_migrating ht")
  case True
  then show thesis using m that by (auto simp: table_member_def)
next
  case False
  then show thesis using m that(1) table_invD(6) [OF inv False] by (auto simp: table_member_def)
qed

text \<open>\<open>hash_bucket\<close> finds the bucket whose nodes are all members with that hash.\<close>

lemma hash_bucket_ok:
  assumes inv: "table_inv B ht h N Q"
  obtains xs where "hlist h (hash_bucket B ht h key) xs"
    "\<And>x. x \<in> set xs \<Longrightarrow> table_member B ht N Q x"
    "\<And>x. table_member B ht N Q x \<Longrightarrow> nhash B x = key_hash B key \<Longrightarrow> x \<in> set xs"
proof -
  let ?i = "key_hash B key AND ht_mask ht" and ?j = "key_hash B key AND ht_old_mask ht"
  note new = bucket_arrayD [OF table_invD(4) [OF inv], of ?i, OF word_and_le_right]
  show thesis
  proof (cases "under_migrating ht")
    case False
    have "hash_bucket B ht h key = bucket_at (ht_buckets ht) ?i"
      using False by (simp add: hash_bucket_def Let_def)
    with new that [of "N ?i"] table_invD(6) [OF inv False] show thesis
      by (auto simp: table_member_def)
  next
    case True
    note M = table_invD(5) [OF inv True]
    note old = bucket_arrayD [OF migration_invD(4) [OF M], of ?j, OF word_and_le_right]
    have e: "evacuated h (bucket_at (ht_old_buckets ht) ?j) \<longleftrightarrow> Q ?j = []"
      using hlist_empty_iff [OF old(1)] by (simp add: evacuated_def)
    show thesis
    proof (cases "Q ?j = []")
      case False
      then have "hash_bucket B ht h key = bucket_at (ht_old_buckets ht) ?j"
        using True e by (simp add: hash_bucket_def Let_def)
      moreover have "x \<in> set (Q ?j)" if "table_member B ht N Q x" "nhash B x = key_hash B key" for x
        using that migration_invD(6) [OF M word_and_le_right, of x] False by (auto simp: table_member_def)
      ultimately show thesis
        using that [of "Q ?j"] old by (auto simp: table_member_def)
    next
      case nil: True
      then have "hash_bucket B ht h key = bucket_at (ht_buckets ht) ?i"
        using e by (simp add: hash_bucket_def Let_def)
      with new that [of "N ?i"] nil show thesis
        by (auto simp: table_member_def)
    qed
  qed
qed

lemma hash_find_chain:
  assumes "hchain h l p xs"
  shows "hash_find B h key p = Some (find (\<lambda>x. key_equal B (node_to_key x) key) xs)"
  using assms
proof (induction xs arbitrary: l p)
  case Nil
  then show ?case by (simp add: hash_find.simps)
next
  case (Cons x xs)
  then show ?case
    by (subst hash_find.simps) auto
qed

lemma table_rep_view:
  "table_rep B s mp \<longleftrightarrow> table_view B (fst s) (hh_list (snd s)) mp \<and> finite (dom mp) \<and>
     ht_n (fst s) = of_nat (card (dom mp))"
  by (simp add: table_rep_def table_view_def)

lemma table_repI:
  assumes "table_inv B (fst s) (hh_list (snd s)) N Q"
    and "\<And>k x. mp k = Some x \<longleftrightarrow> table_member B (fst s) N Q x \<and> key_bytes B (node_to_key x) = k"
    and "finite (dom mp)" "ht_n (fst s) = of_nat (card (dom mp))"
  shows "table_rep B s mp"
  using assms unfolding table_rep_def by blast

lemma nhash_key:
  "key_bytes B (node_to_key x) = key_bytes B key \<Longrightarrow> nhash B x = key_hash B key"
  by (simp add: nhash_def key_hash_def hash_cong [of B "node_to_key x" key])

lemma hash_find_view:
  assumes "table_view B ht h mp"
  shows "hash_find B h key (hs_first h (hash_bucket B ht h key)) = Some (mp (key_bytes B key))"
proof -
  from assms obtain N Q where inv: "table_inv B ht h N Q"
    and mp: "\<And>k x. mp k = Some x \<longleftrightarrow> table_member B ht N Q x \<and> key_bytes B (node_to_key x) = k"
    by (auto simp: table_view_def)
  obtain xs where l: "hlist h (hash_bucket B ht h key) xs"
    and in_member: "\<And>x. x \<in> set xs \<Longrightarrow> table_member B ht N Q x"
    and member_in: "\<And>x. table_member B ht N Q x \<Longrightarrow> nhash B x = key_hash B key \<Longrightarrow> x \<in> set xs"
    by (rule hash_bucket_ok [OF inv, of key]) blast
  have "find (\<lambda>x. key_equal B (node_to_key x) key) xs = mp (key_bytes B key)"
  proof (cases "find (\<lambda>x. key_equal B (node_to_key x) key) xs")
    case None
    then have "mp (key_bytes B key) \<noteq> Some x" for x
      using mp [of "key_bytes B key" x] member_in [of x, OF _ nhash_key]
      by (auto simp: find_None_iff key_equal_iff)
    with None show ?thesis by (cases "mp (key_bytes B key)") auto
  next
    case (Some x)
    then have "x \<in> set xs" "key_bytes B (node_to_key x) = key_bytes B key"
      by (auto simp: find_Some_iff key_equal_iff)
    with in_member have "mp (key_bytes B key) = Some x" by (simp add: mp)
    with Some show ?thesis by simp
  qed
  moreover have "hchain h (HFirst (hash_bucket B ht h key)) (hs_first h (hash_bucket B ht h key)) xs"
    using l by (simp add: hlist_def)
  from hash_find_chain [OF this] have "hash_find B h key (hs_first h (hash_bucket B ht h key))
      = Some (find (\<lambda>x. key_equal B (node_to_key x) key) xs)" .
  ultimately show ?thesis by simp
qed

lemma evacuate_view:
  assumes "table_view B ht (hh_list hp) mp" "under_migrating ht" "i \<le> ht_old_mask ht"
  obtains ht' hp' where "evacuate B (ht, hp) i = Some (ht', hp')" "table_view B ht' (hh_list hp') mp"
    "same_array ht ht'" "hh_ghost hp' = hh_ghost hp" "evacuate_progress ht hp i ht' hp'"
proof -
  from assms(1) obtain N Q where inv: "table_inv B ht (hh_list hp) N Q"
    and mp: "\<And>k x. mp k = Some x \<longleftrightarrow> table_member B ht N Q x \<and> key_bytes B (node_to_key x) = k"
    by (auto simp: table_view_def)
  show thesis
  proof (rule evacuate_ok [OF inv assms(2,3)])
    fix ht' hp' N' Q'
    assume e: "evacuate B (ht, hp) i = Some (ht', hp')"
      and inv': "table_inv B ht' (hh_list hp') N' Q'"
      and mem: "\<And>x. table_member B ht' N' Q' x \<longleftrightarrow> table_member B ht N Q x"
      and r: "same_array ht ht'" "hh_ghost hp' = hh_ghost hp" "evacuate_progress ht hp i ht' hp'"
    have "table_view B ht' (hh_list hp') mp"
      using inv' mp mem unfolding table_view_def by (intro exI [of _ N'] exI [of _ Q']) simp
    then show thesis by (rule that [OF e _ r])
  qed
qed

text \<open>\<open>hash_get\<close> answers from the map and keeps it, whatever the state of a migration.\<close>

lemma hash_get_ok:
  assumes "table_rep B (ht, hp) mp"
  obtains ht' hp' where "hash_get B (ht, hp) key = Some (mp (key_bytes B key), ht', hp')"
    "table_rep B (ht', hp') mp" "same_array ht ht'"
    "under_migrating ht \<Longrightarrow> evacuate_progress ht hp (ht_migrated ht) ht' hp'"
    "\<not> under_migrating ht \<Longrightarrow> ht' = ht \<and> hp' = hp"
proof -
  from assms have v: "table_view B ht (hh_list hp) mp" by (simp add: table_rep_view)
  show thesis
  proof (cases "under_migrating ht")
    case False
    then have "hash_get B (ht, hp) key = Some (mp (key_bytes B key), ht, hp)"
      by (simp add: hash_get_def hash_find_view [OF v] Let_def)
    then show thesis by (rule that [OF _ assms]) (simp_all add: False same_array_def)
  next
    case True
    then have "ht_migrated ht \<le> ht_old_mask ht"
      using v by (auto simp: table_view_def dest!: table_invD(5) migration_invD(2))
    from v True this show thesis
    proof (rule evacuate_view)
      fix ht' hp'
      assume e: "evacuate B (ht, hp) (ht_migrated ht) = Some (ht', hp')"
        and v': "table_view B ht' (hh_list hp') mp" and s: "same_array ht ht'"
        and p: "evacuate_progress ht hp (ht_migrated ht) ht' hp'"
      have "hash_get B (ht, hp) key = Some (mp (key_bytes B key), ht', hp')"
        using True e by (simp add: hash_get_def hash_find_view [OF v'] Let_def)
      moreover have "table_rep B (ht', hp') mp"
        using assms v' s by (simp add: table_rep_view same_array_def)
      ultimately show thesis
        using that s p True by blast
    qed
  qed
qed

lemma node_key_inverse [simp]:
  "node_to_key (key_to_node key) = key" "key_to_node (node_to_key node) = node"
  by (simp_all add: node_to_key_def key_to_node_def)

lemma table_inv_add:
  assumes inv: "table_inv B ht h N Q" and x: "\<not> table_member B ht N Q x"
    and q: "Q (nhash B x AND ht_old_mask ht) = []"
  defines "j \<equiv> nhash B x AND ht_mask ht"
  shows "table_inv B ht (hlist_add h (bucket_at (ht_buckets ht) j) x) (N(j := x # N j)) Q"
    and "table_member B ht (N(j := x # N j)) Q y \<longleftrightarrow> y = x \<or> table_member B ht N Q y"
proof -
  let ?h = "hlist_add h (bucket_at (ht_buckets ht) j) x"
  have jm: "j \<le> ht_mask ht" by (simp add: j_def)
  have xn: "x \<notin> set (N i)" if "i \<le> ht_mask ht" for i
    using x bucket_arrayD(2) [OF table_invD(4) [OF inv] that, of x] by (auto simp: table_member_def)
  have new: "bucket_array B ?h (ht_buckets ht) (ht_mask ht) (N(j := x # N j))"
    by (rule bucket_array_add [OF table_invD(4,3) [OF inv] xn j_def [THEN meta_eq_to_obj_eq]])
  have "migration_inv B ht ?h (N(j := x # N j)) Q" if mig: "under_migrating ht"
  proof -
    note M = table_invD(5) [OF inv mig]
    note D = migration_invD [OF M]
    have "bucket_array B ?h (ht_old_buckets ht) (ht_old_mask ht) Q"
    proof (rule bucket_array_frame [OF D(4)])
      fix i assume i: "i \<le> ht_old_mask ht"
      show "hs_first ?h (bucket_at (ht_old_buckets ht) i) = hs_first h (bucket_at (ht_old_buckets ht) i)"
        by (rule hlist_add_first) (rule D(7) [OF jm i, THEN not_sym])
      show "hs_node ?h y = hs_node h y" if y: "y \<in> set (Q i)" for y
        using old_node_apart(1) [OF M i y jm] bucket_arrayD(2) [OF D(4) i y] y q
        by (intro hlist_add_frame [OF bucket_arrayD(1) [OF table_invD(4) [OF inv] jm]]) auto
    qed
    moreover have "\<forall>i \<le> ht_mask ht. \<forall>y \<in> set ((N(j := x # N j)) i). Q (nhash B y AND ht_old_mask ht) = []"
      using D(6) q jm by auto
    ultimately show ?thesis
      using M by (simp add: migration_inv_def)
  qed
  with new inv show "table_inv B ht ?h (N(j := x # N j)) Q"
    by (simp add: table_inv_def)
  show "table_member B ht (N(j := x # N j)) Q y \<longleftrightarrow> y = x \<or> table_member B ht N Q y"
    by (auto simp: table_member_def j_def)
qed

lemma hash_add_ok:
  assumes rep: "table_rep B (ht, hp) mp" and fresh: "mp (key_bytes B key) = None"
  obtains ht' hp' where "hash_add B (ht, hp) key = Some (ht', hp')"
    "table_rep B (ht', hp') (mp(key_bytes B key \<mapsto> key_to_node key))"
proof -
  let ?x = "key_to_node key" and ?k = "key_bytes B key"
  let ?ht = "ht\<lparr>ht_n := ht_n ht + 1\<rparr>"
  from rep obtain N Q where inv: "table_inv B ht (hh_list hp) N Q"
    and mp: "\<And>k x. mp k = Some x \<longleftrightarrow> table_member B ht N Q x \<and> key_bytes B (node_to_key x) = k"
    and n: "ht_n ht = of_nat (card (dom mp))" "finite (dom mp)"
    by (auto simp: table_rep_def)
  have inv1: "table_inv B ?ht (hh_list hp) N Q"
    using inv by (simp add: table_inv_n)
  have hk: "key_hash B key = nhash B ?x" by (simp add: nhash_def)
  have card: "of_nat (card (dom (mp(?k \<mapsto> ?x)))) = ht_n ht + 1"
    using n fresh by (simp add: card_insert_if domIff)
  note result = that
  have fin: thesis
    if e: "hash_add B (ht, hp) key = Some (ht2, hp2\<lparr>hh_list := hlist_add (hh_list hp2)
          (bucket_at (ht_buckets ht2) (nhash B ?x AND ht_mask ht2)) ?x\<rparr>)"
      and inv2: "table_inv B ht2 (hh_list hp2) N2 Q2"
      and mem: "\<And>x. table_member B ht2 N2 Q2 x \<longleftrightarrow> table_member B ht N Q x"
      and q: "Q2 (nhash B ?x AND ht_old_mask ht2) = []" and n2: "ht_n ht2 = ht_n ht + 1"
    for ht2 hp2 N2 Q2
  proof (rule result [OF e])
    have x: "\<not> table_member B ht2 N2 Q2 ?x"
      using mp [of ?k ?x] fresh mem by simp
    note A = table_inv_add [OF inv2 x q]
    show "table_rep B (ht2, hp2\<lparr>hh_list := hlist_add (hh_list hp2)
          (bucket_at (ht_buckets ht2) (nhash B ?x AND ht_mask ht2)) ?x\<rparr>) (mp(?k \<mapsto> ?x))"
    proof (rule table_repI)
      show "(mp(?k \<mapsto> ?x)) k = Some y \<longleftrightarrow>
          table_member B (fst (ht2, hp2\<lparr>hh_list := hlist_add (hh_list hp2)
            (bucket_at (ht_buckets ht2) (nhash B ?x AND ht_mask ht2)) ?x\<rparr>))
            (N2(nhash B ?x AND ht_mask ht2 := ?x # N2 (nhash B ?x AND ht_mask ht2))) Q2 y \<and>
          key_bytes B (node_to_key y) = k" for k y
        using mp [of ?k y] mp [of k y] fresh unfolding fst_conv A(2) mem
        by (cases "k = ?k"; cases "y = ?x") auto
    qed (use A(1) card n n2 in simp_all)
  qed
  show thesis
  proof (cases "under_migrating ht")
    case False
    show thesis
    proof (rule fin [of ?ht hp N Q])
      show "Q (nhash B ?x AND ht_old_mask ?ht) = []"
        using table_invD(6) [OF inv False] by simp
    qed (use False inv1 in \<open>simp_all add: hash_add_def Let_def under_migrating_def hk\<close>)
  next
    case True
    then have "under_migrating ?ht" by (simp add: under_migrating_def)
    then show thesis
    proof (rule evacuate_ok [OF inv1])
      show "nhash B ?x AND ht_old_mask ?ht \<le> ht_old_mask ?ht" by simp
      fix ht2 hp2 N2 Q2
      assume "evacuate B (?ht, hp) (nhash B ?x AND ht_old_mask ?ht) = Some (ht2, hp2)"
        "table_inv B ht2 (hh_list hp2) N2 Q2" "Q2 (nhash B ?x AND ht_old_mask ?ht) = []"
        "\<And>x. table_member B ht2 N2 Q2 x \<longleftrightarrow> table_member B ?ht N Q x" "same_array ?ht ht2"
      then show thesis
        using True by (intro fin [of ht2 hp2 N2 Q2])
          (simp_all add: hash_add_def Let_def under_migrating_def hk same_array_def)
    qed
  qed
qed

lemma hlist_del_outside:
  assumes "hlist h a (xs @ x # ys)" "bucket_array B h b m N"
    and "\<And>i. i \<le> m \<Longrightarrow> bucket_at b i \<noteq> a" "\<And>i y. i \<le> m \<Longrightarrow> y \<in> set (N i) \<Longrightarrow> y \<notin> set (xs @ ys)"
  shows "bucket_array B (hlist_del h x) b m N"
  using assms(3,4)
  by (intro bucket_array_frame [OF assms(2)] hlist_del_first [OF assms(1)] hlist_del_frame [OF assms(1)]) blast+

lemma table_inv_del_new:
  assumes inv: "table_inv B ht h N Q" and x: "N j = xs @ x # ys" and j: "j = nhash B x AND ht_mask ht"
  shows "table_inv B ht (hlist_del h x) (N(j := xs @ ys)) Q"
    and "table_member B ht (N(j := xs @ ys)) Q y \<longleftrightarrow> y \<noteq> x \<and> table_member B ht N Q y"
proof -
  have jm: "j \<le> ht_mask ht" by (simp add: j)
  note new = bucket_arrayD [OF table_invD(4) [OF inv] jm]
  have l: "hlist h (bucket_at (ht_buckets ht) j) (xs @ x # ys)"
    using new(1) x by simp
  have "migration_inv B ht (hlist_del h x) (N(j := xs @ ys)) Q" if mig: "under_migrating ht"
  proof -
    note M = table_invD(5) [OF inv mig]
    note D = migration_invD [OF M]
    have "y \<notin> set (xs @ ys)" if "i \<le> ht_old_mask ht" "y \<in> set (Q i)" for i y
      using old_node_apart(1) [OF M that jm] x by auto
    from hlist_del_outside [OF l D(4) D(7) [OF jm, THEN not_sym] this]
    have "bucket_array B (hlist_del h x) (ht_old_buckets ht) (ht_old_mask ht) Q" by simp
    moreover have "\<forall>i \<le> ht_mask ht. \<forall>y \<in> set ((N(j := xs @ ys)) i). Q (nhash B y AND ht_old_mask ht) = []"
      using D(6) x jm by auto
    ultimately show ?thesis using M by (simp add: migration_inv_def)
  qed
  with bucket_array_del [OF table_invD(4,3) [OF inv] jm x] inv
  show "table_inv B ht (hlist_del h x) (N(j := xs @ ys)) Q" by (simp add: table_inv_def)
  have d: "distinct (xs @ x # ys)" using l by (simp add: hlist_def)
  have "x \<notin> set (Q (nhash B x AND ht_old_mask ht))"
  proof (cases "under_migrating ht")
    case True
    from migration_invD(6) [OF table_invD(5) [OF inv True] jm, of x] x show ?thesis by simp
  next
    case False
    from table_invD(6) [OF inv False] show ?thesis by simp
  qed
  with d show "table_member B ht (N(j := xs @ ys)) Q y \<longleftrightarrow> y \<noteq> x \<and> table_member B ht N Q y"
    using x j by (auto simp: table_member_def)
qed

lemma table_inv_del_old:
  assumes inv: "table_inv B ht h N Q" and mig: "under_migrating ht"
    and x: "Q j = xs @ x # ys" and j: "j = nhash B x AND ht_old_mask ht"
  shows "table_inv B ht (hlist_del h x) N (Q(j := xs @ ys))"
    and "table_member B ht N (Q(j := xs @ ys)) y \<longleftrightarrow> y \<noteq> x \<and> table_member B ht N Q y"
proof -
  note M = table_invD(5) [OF inv mig]
  note D = migration_invD [OF M]
  have jm: "j \<le> ht_old_mask ht" by (simp add: j)
  have l: "hlist h (bucket_at (ht_old_buckets ht) j) (xs @ x # ys)"
    using bucket_arrayD(1) [OF D(4) jm] x by simp
  have xn: "x \<notin> set (N i)" "y \<in> set (N i) \<Longrightarrow> y \<notin> set (xs @ ys)" if "i \<le> ht_mask ht" for i y
    using old_node_apart(1) [OF M jm _ that, of x] old_node_apart(1) [OF M jm _ that, of y] x by auto
  have "bucket_array B (hlist_del h x) (ht_buckets ht) (ht_mask ht) N"
    by (rule hlist_del_outside [OF l table_invD(4) [OF inv] D(7) [OF _ jm] xn(2)])
  moreover have "bucket_array B (hlist_del h x) (ht_old_buckets ht) (ht_old_mask ht) (Q(j := xs @ ys))"
    by (rule bucket_array_del [OF D(4,3) jm x])
  moreover have "\<forall>i < ht_migrated ht. (Q(j := xs @ ys)) i = []"
    using D(5) x by fastforce
  moreover have "\<forall>i \<le> ht_mask ht. \<forall>y \<in> set (N i). (Q(j := xs @ ys)) (nhash B y AND ht_old_mask ht) = []"
    using D(6) x by fastforce
  ultimately show "table_inv B ht (hlist_del h x) N (Q(j := xs @ ys))"
    using inv M mig by (simp add: table_inv_def migration_inv_def)
  have d: "distinct (xs @ x # ys)" using l by (simp add: hlist_def)
  with xn(1) [of "nhash B x AND ht_mask ht"]
  show "table_member B ht N (Q(j := xs @ ys)) y \<longleftrightarrow> y \<noteq> x \<and> table_member B ht N Q y"
    using x j by (auto simp: table_member_def)
qed

lemma table_inv_del:
  assumes inv: "table_inv B ht h N Q" and m: "table_member B ht N Q x"
  obtains N' Q' where "table_inv B ht (hlist_del h x) N' Q'"
    "\<And>y. table_member B ht N' Q' y \<longleftrightarrow> y \<noteq> x \<and> table_member B ht N Q y"
  using inv m
proof (cases rule: table_member_cases)
  case new
  then obtain xs ys where "N (nhash B x AND ht_mask ht) = xs @ x # ys"
    by (auto simp: in_set_conv_decomp)
  from table_inv_del_new [OF inv this refl] show thesis by (rule that)
next
  case old
  then obtain xs ys where "Q (nhash B x AND ht_old_mask ht) = xs @ x # ys"
    by (auto simp: in_set_conv_decomp)
  from table_inv_del_old [OF inv old(1) this refl] show thesis by (rule that)
qed

lemma hash_add_ghost_sel [simp]:
  "fst (hash_add_ghost B s key) = fst s" "hh_list (snd (hash_add_ghost B s key)) = hh_list (snd s)"
  "hh_memory (snd (hash_add_ghost B s key)) = hh_memory (snd s)"
  by (simp_all add: hash_add_ghost_def Let_def split: prod.split)

lemma hash_del_ok:
  assumes rep: "table_rep B s mp" and x: "mp (key_bytes B key) = Some (key_to_node key)"
  shows "table_rep B (hash_del B s key) (mp(key_bytes B key := None))"
proof -
  let ?x = "key_to_node key" and ?k = "key_bytes B key"
  from rep obtain N Q where inv: "table_inv B (fst s) (hh_list (snd s)) N Q"
    and mp: "\<And>k x. mp k = Some x \<longleftrightarrow> table_member B (fst s) N Q x \<and> key_bytes B (node_to_key x) = k"
    and n: "ht_n (fst s) = of_nat (card (dom mp))" "finite (dom mp)"
    by (auto simp: table_rep_def)
  have m: "table_member B (fst s) N Q ?x" using mp x by blast
  obtain c where c: "card (dom mp) = Suc c"
    using n(2) x card_gt_0_iff [of "dom mp"] by (cases "card (dom mp)") auto
  have c': "card (dom mp - {?k}) = c"
    using c x by (subst card_Diff_singleton) auto
  show ?thesis
  proof (rule table_inv_del [OF inv m])
    fix N' Q' assume inv': "table_inv B (fst s) (hlist_del (hh_list (snd s)) ?x) N' Q'"
      and mem: "\<And>y. table_member B (fst s) N' Q' y \<longleftrightarrow> y \<noteq> ?x \<and> table_member B (fst s) N Q y"
    show ?thesis
    proof (rule table_repI [of _ _ N' Q'])
      show "(mp(?k := None)) k = Some y \<longleftrightarrow>
          table_member B (fst (hash_del B s key)) N' Q' y \<and> key_bytes B (node_to_key y) = k" for k y
        using mp [of k y] mp [of ?k ?x] mp [of ?k y] x by (auto simp: hash_del_def Let_def mem)
    qed (use inv' n c c' in \<open>simp_all add: hash_del_def Let_def table_inv_n\<close>)
  qed
qed

text \<open>A fresh table is the empty map; resizing keeps the map and starts a migration.\<close>

lemma hash_table_init_ok:
  assumes "hash_table_init mmap ht hp = (True, ht', hp')" and "\<And>len p. mmap len = Some p \<Longrightarrow> p \<noteq> 0"
  shows "table_rep B (ht', hp') Map.empty"
proof -
  have m: "table_mask MIN_MASK"
    using table_mask_layout(1,4) [of 0]
    by (simp add: MIN_MASK_def MIN_PAGE_def BUCKET_GHOST_def BUCKET_GHOST_SHIFT_def)
  from assms show ?thesis
    by (intro table_repI [where N = "\<lambda>_. []" and Q = "\<lambda>_. []"])
      (auto simp: hash_table_init_def memory_malloc_def sys_malloc_def table_inv_def under_migrating_def
        bucket_array_init m table_member_def split: option.splits prod.splits if_splits)
qed

lemma hash_resize_ok:
  assumes rep: "table_rep B (ht, hp) mp" and nm: "\<not> under_migrating ht"
    and page: "table_mask (PAGE_TO_MASK page)" and new: "new \<noteq> 0"
    and apart: "arrays_apart new (PAGE_TO_MASK page) (ht_buckets ht) (ht_mask ht)"
  shows "table_rep B (hash_resize (ht, hp) page new) mp"
proof -
  from rep obtain N Q where inv: "table_inv B ht (hh_list hp) N Q"
    and mp: "\<And>k x. mp k = Some x \<longleftrightarrow> table_member B ht N Q x \<and> key_bytes B (node_to_key x) = k"
    and n: "ht_n ht = of_nat (card (dom mp))" "finite (dom mp)"
    by (auto simp: table_rep_def)
  have q: "Q = (\<lambda>_. [])" by (rule table_invD(6) [OF inv nm])
  let ?h = "init_buckets (hh_list hp) new (PAGE_TO_MASK page)"
  have f: "hs_first ?h (bucket_at (ht_buckets ht) i) = hs_first (hh_list hp) (bucket_at (ht_buckets ht) i)"
    if "i \<le> ht_mask ht" for i
  proof -
    have "\<not> (\<exists>j \<le> PAGE_TO_MASK page. bucket_at (ht_buckets ht) i = bucket_at new j)"
      using apart that unfolding arrays_apart_def by (metis (no_types))
    then show ?thesis by (simp only: init_buckets_first if_False)
  qed
  have "bucket_array B ?h (ht_buckets ht) (ht_mask ht) N"
    by (rule bucket_array_frame [OF table_invD(4) [OF inv] f]) (simp_all add: init_buckets_first)
  then show ?thesis
    using table_invD(1,2) [OF inv] page new apart mp n
    by (intro table_repI [where N = "\<lambda>_. []" and Q = N])
      (simp_all add: hash_resize_def Let_def table_inv_def migration_inv_def under_migrating_def
        bucket_array_init table_member_def q)
qed

text \<open>The page count \<open>hash_resize_page\<close> asks for is that of an array twice or half as large.\<close>

lemma hash_resize_page_cases:
  assumes "table_mask (ht_mask ht)" "hash_resize_page ht \<noteq> 0"
  obtains k where "k < 48" "ht_mask ht = mask (k + 9)" "hash_resize_page ht = 9 * 2 ^ (k + 1)"
      "should_grow ht"
    | "ht_mask ht = mask (48 + 9)" "should_grow ht"
    | k where "k < 48" "ht_mask ht = mask (k + 1 + 9)" "hash_resize_page ht = 9 * 2 ^ k"
      "should_shrink ht"
proof -
  obtain k where k: "k \<le> 48" "ht_mask ht = mask (k + 9)"
    using assms(1) by (rule table_mask_cases)
  have p: "MASK_TO_PAGE (ht_mask ht) = 9 * 2 ^ k"
    using table_mask_layout(2) [OF k(1)] k(2) by simp
  have nm: "\<not> under_migrating ht"
    using assms(2) by (auto simp: hash_resize_page_def)
  show thesis
  proof (cases "should_grow ht")
    case True
    then have "hash_resize_page ht = 9 * 2 ^ (k + 1)"
      using nm by (simp add: hash_resize_page_def grow_required_page_def p push_bit_eq_mult)
    then show thesis
      using that(1) [of k] that(2) k True by (cases "k = 48") auto
  next
    case False
    then have s: "should_shrink ht" and r: "hash_resize_page ht = drop_bit 1 (9 * 2 ^ k)"
      using nm assms(2) by (auto simp: hash_resize_page_def shrink_required_page_def p split: if_splits)
    have "k \<noteq> 0"
    proof
      assume "k = 0"
      then have "ht_mask ht = MIN_MASK"
        using k table_mask_layout(1) [of 0]
        by (simp add: MIN_MASK_def MIN_PAGE_def BUCKET_GHOST_def BUCKET_GHOST_SHIFT_def)
      with s show False by (simp add: should_shrink_def)
    qed
    then obtain j where j: "k = j + 1" by (cases k) auto
    have "unat (drop_bit 1 (9 * 2 ^ k) :: u64) = unat (9 * 2 ^ j :: u64)"
      using unat_pages [OF k(1)] unat_pages [of j] j k(1)
      by (simp add: drop_bit_eq_div unat_div_distrib)
    with r have "hash_resize_page ht = 9 * 2 ^ j"
      by (simp add: word_unat_eq_iff)
    then show thesis using that(3) [of j] j k s by simp
  qed
qed

section \<open>The ghost queue\<close>

lemma BUCKET_GHOST_MASK_mask: "BUCKET_GHOST_MASK = mask 4"
  by (simp add: BUCKET_GHOST_MASK_def BUCKET_GHOST_def BUCKET_GHOST_SHIFT_def mask_eq_exp_minus_1)

lemma unat_ghost_index: "unat ((w :: u32) AND BUCKET_GHOST_MASK) = unat w mod 16"
  by (simp add: BUCKET_GHOST_MASK_mask take_bit_eq_mask [symmetric] unsigned_take_bit_eq) (simp add: take_bit_eq_mod)

lemma ghost_at_inject:
  assumes "unat m < 2 ^ 57" "i \<le> m" "i' \<le> m" "j < 16" "j' < 16"
  shows "ghost_at g i j = ghost_at g i' j' \<longleftrightarrow> i = i' \<and> j = j'"
proof
  assume e: "ghost_at g i j = ghost_at g i' j'"
  have b: "unat i < 2 ^ 57" "unat i' < 2 ^ 57"
    using assms(1-3) by (auto simp: word_le_nat_alt)
  have u: "unat (i * 64 + of_nat j * 4) = unat i * 64 + j * 4" if "unat i < 2 ^ 57" "j < 16" for i :: u64 and j
    using that by (simp add: unat_word_ariths unat_of_nat)
  have "i * 64 + of_nat j * 4 = i' * 64 + of_nat j' * 4"
    using e by (simp add: ghost_at_def BUCKET_GHOST_def BUCKET_GHOST_SHIFT_def add.assoc)
  then have "unat i * 64 + j * 4 = unat i' * 64 + j' * 4"
    using u [OF b(1) assms(4)] u [OF b(2) assms(5)] by simp
  moreover have "(x * 64 + y * 4) div 64 = x" if "y < 16" for x y :: nat
    using that by simp
  ultimately have "unat i = unat i'"
    using assms(4,5) by metis
  with \<open>unat i * 64 + j * 4 = unat i' * 64 + j' * 4\<close> have "unat i = unat i'" "j = j'"
    by simp_all
  then show "i = i' \<and> j = j'" by (simp add: word_unat_eq_iff)
qed simp

lemma drop_bit_ghost: "drop_bit 4 ((w AND NOT BUCKET_GHOST_MASK) OR (v AND BUCKET_GHOST_MASK)) = drop_bit 4 (w :: u32)"
  unfolding BUCKET_GHOST_MASK_mask by (rule bit_word_eqI) (auto simp: bit_simps dest: bit_imp_le_length)

lemma ghost_index_next:
  "unat ((w AND NOT BUCKET_GHOST_MASK) OR (((v AND BUCKET_GHOST_MASK) + 1) AND BUCKET_GHOST_MASK)) mod 16
     = (unat (v :: u32) + 1) mod 16"
proof -
  have "((w AND NOT BUCKET_GHOST_MASK) OR (u AND BUCKET_GHOST_MASK)) AND BUCKET_GHOST_MASK = u AND BUCKET_GHOST_MASK"
    for u :: u32
    by (rule bit_word_eqI) (auto simp: bit_simps)
  from arg_cong [OF this, of unat, unfolded unat_ghost_index]
  have "unat ((w AND NOT BUCKET_GHOST_MASK) OR (u AND BUCKET_GHOST_MASK)) mod 16 = unat u mod 16" for u :: u32 .
  moreover have "unat ((v AND BUCKET_GHOST_MASK) + 1) = unat v mod 16 + 1"
    by (simp add: unat_word_ariths unat_ghost_index)
  ultimately show ?thesis by (simp add: mod_simps)
qed

lemma hash_add_ghost_slot:
  fixes B :: byte_store and key b :: u64 and s :: "hash_table \<times> hash_heap"
  assumes m: "unat (ht_mask (fst s)) < 2 ^ 57" and b: "b \<le> ht_mask (fst s)" and j: "j < 16"
  defines "b' \<equiv> fst (hash B key) AND ht_mask (fst s)"
  defines "i \<equiv> unat (ghost_slot s b' 0) mod 16"
  shows "ghost_slot (hash_add_ghost B s key) b j =
    (if b \<noteq> b' then ghost_slot s b j
     else if j = 0 then
       ((if i = 0 then snd (hash B key) else ghost_slot s b 0) AND NOT BUCKET_GHOST_MASK) OR
       (((ghost_slot s b 0 AND BUCKET_GHOST_MASK) + 1) AND BUCKET_GHOST_MASK)
     else if j = i then snd (hash B key) else ghost_slot s b j)"
proof -
  have b': "b' \<le> ht_mask (fst s)" by (simp add: b'_def)
  have i: "i < 16" "unat (ghost_slot s b' 0 AND BUCKET_GHOST_MASK) = i"
    by (simp_all add: i_def unat_ghost_index)
  note inj = ghost_at_inject [OF m b b']
  show ?thesis
    using inj [OF j, of 0] inj [OF j i(1)] ghost_at_inject [OF m b' b', of 0 i] i
    by (auto simp: hash_add_ghost_def Let_def split_beta ghost_slot_def b'_def [symmetric])
qed

lemma ghost_holds_new:
  fixes B :: byte_store and key :: u64 and s :: "hash_table \<times> hash_heap"
  assumes "unat (ht_mask (fst s)) < 2 ^ 57"
  defines "b \<equiv> fst (hash B key) AND ht_mask (fst s)"
  shows "ghost_holds (hash_add_ghost B s key) b (snd (hash B key)) (unat (ghost_slot s b 0) mod 16) 0"
proof -
  have b: "b \<le> ht_mask (fst s)" by (simp add: b_def)
  note slot = hash_add_ghost_slot [OF assms(1) b, of _ B key, folded b_def]
  show ?thesis
    using slot [of 0] slot [of "unat (ghost_slot s b 0) mod 16"]
    by (auto simp: ghost_holds_def drop_bit_ghost ghost_index_next mod_simps
        simp del: drop_bit_and drop_bit_or)
qed

lemma ghost_holds_step:
  assumes m: "unat (ht_mask (fst s)) < 2 ^ 57" and b: "b \<le> ht_mask (fst s)"
    and h: "ghost_holds s b fp p a" and a: "a < 15"
  shows "ghost_holds (hash_add_ghost B s key) b fp p (if fst (hash B key) AND ht_mask (fst s) = b then Suc a else a)"
proof -
  note slot = hash_add_ghost_slot [OF m b, of _ B key]
  let ?i = "unat (ghost_slot s b 0) mod 16"
  have p: "p < 16" "?i = (p + 1 + a) mod 16"
    using h by (auto simp: ghost_holds_def)
  have "?i \<noteq> p"
    using p a by (cases "p + 1 + a < 16") (simp_all add: le_mod_geq)
  moreover have "(unat (ghost_slot s b 0) + 1) mod 16 = (p + 1 + Suc a) mod 16"
    using mod_add_left_eq [of "unat (ghost_slot s b 0)" 16 1] mod_add_left_eq [of "p + 1 + a" 16 1] p(2)
    by simp
  ultimately show ?thesis
    using slot [of 0] slot [OF p(1)] h p(1)
    by (cases "fst (hash B key) AND ht_mask (fst s) = b")
      (auto simp: ghost_holds_def drop_bit_ghost ghost_index_next simp del: drop_bit_and drop_bit_or)
qed

lemma ghost_holds_found:
  assumes "ghost_holds s (fst (hash B key) AND ht_mask (fst s)) (snd (hash B key)) p a"
  shows "hash_ghost B s key"
  using assms
  by (cases "p = 0") (force simp: hash_ghost_def split_beta Let_def ghost_holds_def ghost_slot_def
      BUCKET_GHOST_def BUCKET_GHOST_SHIFT_def)+

lemma ghost_holds_all:
  assumes "unat (ht_mask (fst s)) < 2 ^ 57" "b \<le> ht_mask (fst s)" "ghost_holds s b fp p a"
    and "a + length keys \<le> 15"
  shows "\<exists>a'. ghost_holds (fold (\<lambda>k s. hash_add_ghost B s k) keys s) b fp p a'"
  using assms
proof (induction keys arbitrary: s a)
  case Nil
  then show ?case by auto
next
  case (Cons k keys)
  let ?a = "if fst (hash B k) AND ht_mask (fst s) = b then Suc a else a"
  have "ghost_holds (hash_add_ghost B s k) b fp p ?a"
    using Cons.prems by (intro ghost_holds_step) auto
  from Cons.IH [OF _ _ this] show ?case
    using Cons.prems by auto
qed

section \<open>The contract of an index\<close>

locale key_index =
  fixes rep :: "'s \<Rightarrow> ('k \<rightharpoonup> 'n) \<Rightarrow> bool"
    and key :: "'p \<Rightarrow> 'k" and node :: "'p \<Rightarrow> 'n"
    and get :: "'s \<Rightarrow> 'p \<Rightarrow> ('n option \<times> 's) option"
    and add :: "'s \<Rightarrow> 'p \<Rightarrow> 's option"
    and del :: "'s \<Rightarrow> 'p \<Rightarrow> 's"
    and resize :: "'s \<Rightarrow> 'r \<Rightarrow> 's" and can_resize :: "'s \<Rightarrow> 'r \<Rightarrow> bool"
  assumes rep_get: "rep s m \<Longrightarrow> \<exists>t. get s p = Some (m (key p), t) \<and> rep t m"
    and rep_add: "rep s m \<Longrightarrow> m (key p) = None \<Longrightarrow> \<exists>t. add s p = Some t \<and> rep t (m(key p \<mapsto> node p))"
    and rep_del: "rep s m \<Longrightarrow> m (key p) = Some (node p) \<Longrightarrow> rep (del s p) (m(key p := None))"
    and rep_resize: "rep s m \<Longrightarrow> can_resize s r \<Longrightarrow> rep (resize s r) m"
begin

fun run :: "('p, 'r) index_op list \<Rightarrow> 's \<Rightarrow> ('n option list \<times> 's) option" where
  "run [] s = Some ([], s)"
| "run (Get p # ops) s =
     Option.bind (get s p) (\<lambda>(r, t). map_option (\<lambda>(rs, u). (r # rs, u)) (run ops t))"
| "run (Add p # ops) s = Option.bind (add s p) (run ops)"
| "run (Del p # ops) s = run ops (del s p)"
| "run (Resize r # ops) s = run ops (if can_resize s r then resize s r else s)"

fun spec :: "('p, 'r) index_op list \<Rightarrow> ('k \<rightharpoonup> 'n) \<Rightarrow> 'n option list \<times> ('k \<rightharpoonup> 'n)" where
  "spec [] m = ([], m)"
| "spec (Get p # ops) m = (let (rs, m') = spec ops m in (m (key p) # rs, m'))"
| "spec (Add p # ops) m = spec ops (m(key p \<mapsto> node p))"
| "spec (Del p # ops) m = spec ops (m(key p := None))"
| "spec (Resize r # ops) m = spec ops m"

text \<open>Keys are added only when absent, and the node of a key is deleted only while it is present.\<close>

fun legal :: "('p, 'r) index_op list \<Rightarrow> ('k \<rightharpoonup> 'n) \<Rightarrow> bool" where
  "legal [] m \<longleftrightarrow> True"
| "legal (Get p # ops) m \<longleftrightarrow> legal ops m"
| "legal (Add p # ops) m \<longleftrightarrow> m (key p) = None \<and> legal ops (m(key p \<mapsto> node p))"
| "legal (Del p # ops) m \<longleftrightarrow> m (key p) = Some (node p) \<and> legal ops (m(key p := None))"
| "legal (Resize r # ops) m \<longleftrightarrow> legal ops m"

lemma run_refines:
  assumes "rep s m" "legal ops m"
  shows "\<exists>t. run ops s = Some (fst (spec ops m), t) \<and> rep t (snd (spec ops m))"
  using assms
proof (induction ops arbitrary: s m)
  case Nil
  then show ?case by simp
next
  case (Cons op ops)
  show ?case
  proof (cases op)
    case (Get p)
    obtain t where "get s p = Some (m (key p), t)" "rep t m"
      using rep_get [OF Cons.prems(1)] by blast
    with Cons.IH [of t m] Cons.prems(2) Get show ?thesis
      by (auto simp: split_beta)
  next
    case (Add p)
    then obtain t where "add s p = Some t" "rep t (m(key p \<mapsto> node p))"
      using rep_add [OF Cons.prems(1), of p] Cons.prems(2) by auto
    with Cons.IH Cons.prems(2) Add show ?thesis by auto
  next
    case (Del p)
    then have "rep (del s p) (m(key p := None))"
      using rep_del [OF Cons.prems(1), of p] Cons.prems(2) by auto
    with Cons.IH Cons.prems(2) Del show ?thesis by auto
  next
    case (Resize r)
    then have "rep (if can_resize s r then resize s r else s) m"
      using rep_resize [OF Cons.prems(1)] Cons.prems(1) by simp
    with Cons.IH Cons.prems(2) Resize show ?thesis by auto
  qed
qed

end

interpretation hix: key_index "table_rep B" "key_bytes B" key_to_node "hash_get B" "hash_add B" "hash_del B"
  "\<lambda>s r. hash_resize s (fst r) (snd r)" resize_ok for B
proof unfold_locales
  show "\<exists>t. hash_get B s p = Some (m (key_bytes B p), t) \<and> table_rep B t m" if "table_rep B s m" for s m p
    using that hash_get_ok [of B "fst s" "snd s" m p] by (metis prod.collapse)
  show "\<exists>t. hash_add B s p = Some t \<and> table_rep B t (m(key_bytes B p \<mapsto> key_to_node p))"
    if "table_rep B s m" "m (key_bytes B p) = None" for s m p
    using that hash_add_ok [of B "fst s" "snd s" m p] by (metis prod.collapse)
  show "table_rep B (hash_del B s p) (m(key_bytes B p := None))"
    if "table_rep B s m" "m (key_bytes B p) = Some (key_to_node p)" for s m p
    using that by (rule hash_del_ok)
  show "table_rep B (hash_resize s (fst r) (snd r)) m" if "table_rep B s m" "resize_ok s r" for s m r
    using that by (cases s) (auto simp: resize_ok_def hash_resize_page_def split: if_splits intro: hash_resize_ok)
qed

section \<open>Migration ends\<close>

lemma hash_get_all_ok:
  assumes "table_rep B (ht, hp) mp"
    and "under_migrating ht \<Longrightarrow> unat (ht_old_mask ht) < unat (ht_migrated ht) + length keys"
  shows "\<exists>ht' hp'. hash_get_all B keys (ht, hp) = Some (ht', hp') \<and> \<not> under_migrating ht' \<and>
    table_rep B (ht', hp') mp \<and>
    free_pages (hh_memory hp') = free_pages (hh_memory hp) + old_pages ht"
  using assms
proof (induction keys arbitrary: ht hp)
  case Nil
  have "\<not> under_migrating ht"
  proof
    assume m: "under_migrating ht"
    then have "ht_migrated ht \<le> ht_old_mask ht"
      using Nil.prems(1) by (auto simp: table_rep_def dest!: table_invD(5) migration_invD(2))
    with Nil.prems(2) [OF m] show False by (simp add: word_le_nat_alt)
  qed
  with Nil.prems show ?case by (simp add: old_pages_def)
next
  case (Cons key keys)
  show ?case
  proof (rule hash_get_ok [OF Cons.prems(1), of key])
    fix ht1 hp1
    assume g: "hash_get B (ht, hp) key = Some (mp (key_bytes B key), ht1, hp1)"
      and rep: "table_rep B (ht1, hp1) mp" and s: "same_array ht ht1"
      and p: "under_migrating ht \<Longrightarrow> evacuate_progress ht hp (ht_migrated ht) ht1 hp1"
      and nm: "\<not> under_migrating ht \<Longrightarrow> ht1 = ht \<and> hp1 = hp"
    have "unat (ht_old_mask ht1) < unat (ht_migrated ht1) + length keys" if "under_migrating ht1"
    proof -
      have m: "under_migrating ht" using that nm by auto
      with p that have "ht_migrated ht < ht_migrated ht1"
        by (simp add: evacuate_progress_def)
      with Cons.prems(2) [OF m] s show ?thesis
        by (simp add: word_less_nat_alt same_array_def)
    qed
    from Cons.IH [OF rep this] obtain ht' hp' where
      r: "hash_get_all B keys (ht1, hp1) = Some (ht', hp')" "\<not> under_migrating ht'"
        "table_rep B (ht', hp') mp" "free_pages (hh_memory hp') = free_pages (hh_memory hp1) + old_pages ht1"
      by blast
    have "free_pages (hh_memory hp1) + old_pages ht1 = free_pages (hh_memory hp) + old_pages ht"
    proof (cases "under_migrating ht")
      case True
      with p [OF True] s show ?thesis
        by (auto simp: evacuate_progress_def old_pages_def memory_free_def same_array_def under_migrating_def)
    next
      case False
      with nm show ?thesis by simp
    qed
    with g r show ?case by simp
  qed
qed

section \<open>Properties\<close>

text \<open>
  (C1) The hash table refines a finite map from keys to nodes. From a freshly initialised table,
  any sequence of lookups, additions of absent keys, deletions of present nodes and resizings
  (each starting a migration that later operations carry on) ends, and every lookup returns
  what the map holds for the bytes of the key. The system's pages are not at address 0.
\<close>
theorem hash_table_refines_map:
  assumes "hash_table_init mmap ht hp = (True, ht', hp')"
    and "\<forall>len p. mmap len = Some p \<longrightarrow> p \<noteq> 0"
    and "hix.legal B ops Map.empty"
  shows "\<exists>t. hix.run B ops (ht', hp') = Some (fst (hix.spec B ops Map.empty), t) \<and>
    table_rep B t (snd (hix.spec B ops Map.empty))"
  using assms by (intro hix.run_refines hash_table_init_ok [of mmap ht hp]) auto

theorem hash_table_refines_map_witness:
  "\<exists>ht hp t. hash_table_init (\<lambda>_. Some 0x10000) some_table some_heap = (True, ht, hp) \<and>
     hix.run two_keys [Add 0x100, Get 0x100, Get 0x200, Del 0x100, Get 0x100] (ht, hp)
       = Some ([Some 0xF0, None, None], t)"
proof -
  obtain ht hp where i: "hash_table_init (\<lambda>_. Some 0x10000) some_table some_heap = (True, ht, hp)"
    by (simp add: hash_table_init_def memory_malloc_def sys_malloc_def some_heap_def MIN_PAGE_def
        BUCKET_GHOST_def BUCKET_GHOST_SHIFT_def)
  have "hix.spec two_keys [Add 0x100, Get 0x100, Get 0x200, Del 0x100, Get 0x100] Map.empty
      = ([Some 0xF0, None, None], Map.empty)"
    by (simp add: two_keys_def key_bytes_def key_to_node_def)
  moreover have "hix.legal two_keys [Add 0x100, Get 0x100, Get 0x200, Del 0x100, Get 0x100] Map.empty"
    by simp
  ultimately show ?thesis
    using hash_table_refines_map [OF i, of two_keys "[Add 0x100, Get 0x100, Get 0x200, Del 0x100, Get 0x100]"] i
    by auto
qed

text \<open>
  (C12) A migration ends: whatever keys are looked up, after as many lookups as the old array has
  buckets the table is no longer migrating, it is still the same map, and exactly the pages of
  the old array have been given back to the accountant.
\<close>
theorem migration_completes:
  assumes "table_rep B s mp" and "unat (ht_old_mask (fst s)) < length keys"
  shows "\<exists>t. hash_get_all B keys s = Some t \<and> \<not> under_migrating (fst t) \<and> table_rep B t mp \<and>
    free_pages (hh_memory (snd t)) = free_pages (hh_memory (snd s)) + old_pages (fst s)"
  using hash_get_all_ok [of B "fst s" "snd s" mp keys] assms by fastforce

theorem migration_completes_witness:
  "\<exists>s t. under_migrating (fst s) \<and> hash_get_all two_keys (replicate 512 0x100) s = Some t \<and>
     \<not> under_migrating (fst t) \<and> free_pages (hh_memory (snd t)) = free_pages (hh_memory (snd s)) + 9"
proof -
  obtain ht hp where i: "hash_table_init (\<lambda>_. Some 0x10000) some_table some_heap = (True, ht, hp)"
    and h: "ht_mask ht = 511" "ht_buckets ht = 0x10000" "ht_old_buckets ht = 0"
    by (simp add: hash_table_init_def memory_malloc_def sys_malloc_def some_heap_def MIN_PAGE_def
        BUCKET_GHOST_def BUCKET_GHOST_SHIFT_def MIN_MASK_def PAGE_TO_MASK_def PAGE_SHIFT_def)
  have rep: "table_rep two_keys (ht, hp) Map.empty"
    by (rule hash_table_init_ok [OF i]) simp
  have page: "PAGE_TO_MASK 18 = 1023" "table_mask (PAGE_TO_MASK 18)" "MASK_TO_PAGE 511 = 9"
    using table_mask_layout(1,4) [of 1] table_mask_layout(2) [of 0] by (simp_all add: mask_eq_exp_minus_1)
  have u: "unat (bucket_at b i) = unat b + unat i * 8" if "i \<le> 1023" "unat b < 2 ^ 32" for b i
    using that by (simp add: bucket_at_def unat_word_ariths word_le_nat_alt)
  have apart: "arrays_apart 0x100000 (PAGE_TO_MASK 18) (ht_buckets ht) (ht_mask ht)"
    unfolding arrays_apart_def
  proof (intro allI impI)
    fix i j assume "i \<le> PAGE_TO_MASK 18" "j \<le> ht_mask ht"
    then have "i \<le> 1023" "j \<le> 1023" "unat j \<le> 511"
      using page(1) h(1) by (auto simp: word_le_nat_alt)
    then show "bucket_at 0x100000 i \<noteq> bucket_at (ht_buckets ht) j"
      using u [of i "0x100000"] u [of j "0x10000"] h(2) by auto
  qed
  let ?s = "hash_resize (ht, hp) 18 0x100000"
  have s: "under_migrating (fst ?s)" "ht_old_mask (fst ?s) = 511"
    using h by (simp_all add: hash_resize_def Let_def under_migrating_def)
  have "table_rep two_keys ?s Map.empty"
    by (rule hash_resize_ok [OF rep _ page(2) _ apart]) (use h in \<open>simp_all add: under_migrating_def\<close>)
  from migration_completes [OF this, of "replicate 512 0x100"] s obtain t where
    "hash_get_all two_keys (replicate 512 0x100) ?s = Some t" "\<not> under_migrating (fst t)"
    "free_pages (hh_memory (snd t)) = free_pages (hh_memory (snd ?s)) + 9"
    by (auto simp: old_pages_def page(3))
  with s(1) show ?thesis by blast
qed

text \<open>
  (C23) The arrays of a table fill their allocation exactly. For every page count the table asks
  for (\<open>9 * 2 ^ k\<close> up to the address space), the heads of all \<open>mask + 1\<close> buckets end where the
  ghost words begin, the ghost words of the last bucket end with the last page, and
  \<open>MASK_TO_PAGE\<close> gives the page count back for the free.
\<close>
theorem table_layout:
  assumes "k \<le> 48" and "page = 9 * 2 ^ k"
  shows "(unat (PAGE_TO_MASK page) + 1) * 8 = unat (GHOST_OFFSET page) \<and>
    unat (GHOST_OFFSET page) + (unat (PAGE_TO_MASK page) + 1) * (BUCKET_GHOST * 4) = unat page * 2 ^ PAGE_SHIFT \<and>
    MASK_TO_PAGE (PAGE_TO_MASK page) = page"
proof -
  note L = table_mask_layout [OF assms(1), folded assms(2)]
  have "unat (PAGE_TO_MASK page) + 1 = 2 ^ k * 512" "unat (GHOST_OFFSET page) = 2 ^ k * 4096"
    using L(1,3) assms(1) unat_exp_u64 [of "k + 12"] by (simp_all add: unat_mask_u64 power_add)
  moreover have "unat page = 9 * 2 ^ k"
    using unat_pages [OF assms(1)] assms(2) by simp
  ultimately show ?thesis
    using L(1,2) by (simp add: BUCKET_GHOST_def BUCKET_GHOST_SHIFT_def PAGE_SHIFT_def)
qed

theorem table_layout_witness:
  "(unat (PAGE_TO_MASK 18) + 1) * 8 = unat (GHOST_OFFSET 18) \<and> MASK_TO_PAGE (PAGE_TO_MASK 18) = 18"
  using table_layout [of 1 18] by simp

lemma unat_push_bit_small:
  assumes "unat (w :: u64) < 2 ^ 60" "j \<le> 3"
  shows "unat (push_bit j w) = unat w * 2 ^ j"
proof -
  have "(2::nat) ^ j \<le> 2 ^ 3" using assms(2) by (rule power_increasing) simp
  then have "unat w * 2 ^ j < 2 ^ 60 * 2 ^ 3 + 1"
    using assms(1) mult_le_mono [of "unat w" "2 ^ 60" "2 ^ j" "2 ^ 3"] by linarith
  then show ?thesis using assms(2) by (simp add: push_bit_eq_mult unat_word_ariths unat_exp_u64)
qed

lemma unat_table_mask:
  assumes "k \<le> 48"
  shows "unat (mask (k + 9) :: u64) + 1 = 2 ^ k * 512" "unat (mask (k + 9) :: u64) < 2 ^ 60"
    "511 \<le> unat (mask (k + 9) :: u64)"
proof -
  define x where "x = (2 :: nat) ^ k"
  have "x \<le> 2 ^ 48" unfolding x_def using assms by (rule power_increasing) simp
  moreover have "1 \<le> x" by (simp add: x_def)
  moreover have "unat (mask (k + 9) :: u64) = x * 512 - 1"
    using assms by (simp add: x_def unat_mask_u64 power_add)
  ultimately show "unat (mask (k + 9) :: u64) + 1 = 2 ^ k * 512" "unat (mask (k + 9) :: u64) < 2 ^ 60"
    "511 \<le> unat (mask (k + 9) :: u64)"
    unfolding x_def [symmetric] by auto
qed

text \<open>
  (C22) Resizing does not thrash. A table resized as \<open>hash_resize_page\<close> asks has either doubled its
  number of buckets, and then does not want to shrink with the keys it has, or halved it, and
  then does not want to grow.
\<close>
theorem resize_no_thrash:
  assumes "table_mask (ht_mask ht)" and "hash_resize_page ht \<noteq> 0" and "unat (hash_resize_page ht) < 2 ^ 52"
    and ht': "ht' = fst (hash_resize (ht, hp) (hash_resize_page ht) new)"
  shows "(unat (ht_mask ht') + 1 = 2 * (unat (ht_mask ht) + 1) \<and> \<not> should_shrink ht') \<or>
    (2 * (unat (ht_mask ht') + 1) = unat (ht_mask ht) + 1 \<and> \<not> should_grow ht')"
proof -
  have m: "ht_mask ht' = PAGE_TO_MASK (hash_resize_page ht)" "ht_n ht' = ht_n ht"
    by (simp_all add: ht' hash_resize_def Let_def)
  show ?thesis
    using assms(1,2)
  proof (cases rule: hash_resize_page_cases)
    case (1 k)
    then have e: "ht_mask ht' = mask (Suc k + 9)"
      using table_mask_layout(1) [of "k + 1"] m by simp
    note u = unat_table_mask [of k] unat_table_mask [of "Suc k"]
    have "unat (ht_mask ht) * 8 < unat (ht_n ht)"
      using 1 u unat_push_bit_small [of "ht_mask ht" 3] by (simp add: should_grow_def word_less_nat_alt)
    moreover have "should_shrink ht' \<Longrightarrow> unat (ht_n ht) < unat (ht_mask ht') * 2"
      using 1 u e m unat_push_bit_small [of "ht_mask ht'" 1] by (simp add: should_shrink_def word_less_nat_alt)
    moreover have "unat (ht_mask ht') + 1 = 2 * (unat (ht_mask ht) + 1)" "511 \<le> unat (ht_mask ht)"
      using u(1,3,4) 1(1,2) e by simp_all
    ultimately show ?thesis by (cases "should_shrink ht'") auto
  next
    case 2
    then have "hash_resize_page ht = 9 * 2 ^ 49"
      using assms(2) table_mask_layout(2) [of 48]
      by (auto simp: hash_resize_page_def grow_required_page_def push_bit_eq_mult split: if_splits)
    then show ?thesis using assms(3) by simp
  next
    case (3 k)
    then have e: "ht_mask ht' = mask (k + 9)" "ht_mask ht = mask (Suc k + 9)"
      using table_mask_layout(1) [of k] m by simp_all
    note u = unat_table_mask [of k] unat_table_mask [of "Suc k"]
    have "unat (ht_n ht) < unat (ht_mask ht) * 2"
      using 3 u e unat_push_bit_small [of "ht_mask ht" 1] by (simp add: should_shrink_def word_less_nat_alt)
    moreover have "should_grow ht' \<Longrightarrow> unat (ht_mask ht') * 8 < unat (ht_n ht)"
      using 3 u e m unat_push_bit_small [of "ht_mask ht'" 3] by (simp add: should_grow_def word_less_nat_alt)
    moreover have "2 * (unat (ht_mask ht') + 1) = unat (ht_mask ht) + 1" "511 \<le> unat (ht_mask ht')"
      using u(1,3,4) 3(1) e by simp_all
    ultimately show ?thesis by (cases "should_grow ht'") auto
  qed
qed

theorem resize_no_thrash_witness:
  "hash_resize_page (some_table\<lparr>ht_mask := 511, ht_n := 4089\<rparr>) = 18 \<and>
   \<not> should_shrink (fst (hash_resize (some_table\<lparr>ht_mask := 511, ht_n := 4089\<rparr>, some_heap) 18 0x10000))"
proof -
  let ?ht = "some_table\<lparr>ht_mask := 511, ht_n := 4089\<rparr>"
  have m: "table_mask (ht_mask ?ht)"
    using table_mask_layout(4) [of 0] by (simp add: mask_eq_exp_minus_1)
  have p: "hash_resize_page ?ht = 18"
    by (simp add: hash_resize_page_def under_migrating_def should_grow_def some_table_def
        grow_required_page_def MASK_TO_PAGE_def MIN_PAGE_def BUCKET_GHOST_def BUCKET_GHOST_SHIFT_def PAGE_SHIFT_def)
  from resize_no_thrash [OF m _ _ refl, of some_heap "0x10000"] p show ?thesis
    by (simp add: hash_resize_def Let_def PAGE_TO_MASK_def MIN_PAGE_def
        BUCKET_GHOST_def BUCKET_GHOST_SHIFT_def PAGE_SHIFT_def)
qed

text \<open>
  (C21) The ghost queue remembers evictions: after a key is evicted from the table, \<open>hash_ghost\<close>
  recognises it, and still does after up to 15 further evictions, whatever buckets they hit.
\<close>
theorem ghost_remembers:
  assumes "table_rep B s mp" and "length keys \<le> 15"
  shows "hash_ghost B (fold (\<lambda>k s. hash_add_ghost B s k) keys (hash_del B s key)) key"
proof -
  let ?s = "hash_del B s key" and ?b = "fst (hash B key) AND ht_mask (fst s)"
  obtain k where k: "k \<le> 48" "ht_mask (fst s) = mask (k + 9)"
    using assms(1) by (auto simp: table_rep_def dest!: table_invD(1) elim: table_mask_cases)
  have m: "unat (ht_mask (fst s)) < 2 ^ 57"
    using k power_increasing [OF k(1), of "2 :: nat"] by (simp add: unat_mask_u64 power_add)
  have f: "ht_mask (fst (fold (\<lambda>k s. hash_add_ghost B s k) keys s)) = ht_mask (fst s)" for s
    by (induction keys arbitrary: s) simp_all
  obtain p where "ghost_holds ?s ?b (snd (hash B key)) p 0"
    using ghost_holds_new [of "((fst s)\<lparr>ht_n := ht_n (fst s) - 1\<rparr>,
        (snd s)\<lparr>hh_list := hlist_del (hh_list (snd s)) (key_to_node key)\<rparr>)" B key] m
    by (auto simp: hash_del_def Let_def)
  then obtain a where "ghost_holds (fold (\<lambda>k s. hash_add_ghost B s k) keys ?s) ?b (snd (hash B key)) p a"
    using ghost_holds_all [of ?s ?b "snd (hash B key)" p 0 keys B] m assms(2)
    by (auto simp: hash_del_def Let_def)
  then show ?thesis
    by (intro ghost_holds_found) (simp add: f hash_del_def Let_def)
qed

theorem ghost_remembers_witness:
  "\<exists>s. table_rep two_keys s Map.empty \<and>
     hash_ghost two_keys (fold (\<lambda>k s. hash_add_ghost two_keys s k) [0x200, 0x200] (hash_del two_keys s 0x100)) 0x100"
proof -
  obtain ht hp where i: "hash_table_init (\<lambda>_. Some 0x10000) some_table some_heap = (True, ht, hp)"
    by (simp add: hash_table_init_def memory_malloc_def sys_malloc_def some_heap_def MIN_PAGE_def
        BUCKET_GHOST_def BUCKET_GHOST_SHIFT_def)
  have rep: "table_rep two_keys (ht, hp) Map.empty"
    by (rule hash_table_init_ok [OF i]) simp
  with ghost_remembers [OF rep, of "[0x200, 0x200]" "0x100"] show ?thesis by auto
qed

end
