(* ===== verification/Machine.thy ===== *)
theory Machine
  imports Umem_Prelude "HOL-Library.List_Lexorder"
begin

text \<open>
  Machines of a cluster, \<open>src/machine.c\<close> and \<open>src/machine.h\<close>.

  A machine is the 40-byte struct: an address and a port as the bytes they are in memory, two
  bytes of padding, and the little-endian integers as words. \<open>qsort\<close> is a stable sort by the
  18 bytes the comparison reads; the order of equal elements is unspecified in C and no caller
  depends on it, since duplicates are refused. \<open>bsearch\<close> is the binary search of the C library.
\<close>

section \<open>Definitions\<close>

record machine =
  sin6_addr :: "u8 list"
  sin6_port :: "u8 list"
  m_pad :: "u8 list"
  m_id :: u32
  m_stability :: u64
  m_version :: u64

definition MACHINE_SIZE :: u64 where
  "MACHINE_SIZE = 16 + 2 + 2 + 4 + 8 + 8"

definition MACHINES_MIN :: u64 where
  "MACHINES_MIN = 4"

definition MACHINES_MAX :: u64 where
  "MACHINES_MAX = 2 ^ 31 - 1"

definition MACHINES_SIZE_MIN :: u64 where
  "MACHINES_SIZE_MIN = MACHINE_SIZE * MACHINES_MIN"

definition MACHINES_SIZE_MAX :: u64 where
  "MACHINES_SIZE_MAX = MACHINE_SIZE * MACHINES_MAX"

definition machine_id :: "machine \<Rightarrow> u32" where
  "machine_id m = m_id m"

definition machine_stability :: "machine \<Rightarrow> u64" where
  "machine_stability m = m_stability m"

definition is_power_of_2 :: "u32 \<Rightarrow> bool" where
  "is_power_of_2 i \<longleftrightarrow> i AND (i - 1) = 0"

definition machines_size_valid :: "u64 \<Rightarrow> bool" where
  "machines_size_valid sz \<longleftrightarrow>
     sz \<ge> MACHINES_SIZE_MIN \<and> sz \<le> MACHINES_SIZE_MAX \<and>
     sz mod MACHINE_SIZE = 0 \<and> is_power_of_2 (ucast (sz div MACHINE_SIZE))"

definition stability_to_available :: "u64 \<Rightarrow> bool" where
  "stability_to_available stability \<longleftrightarrow> stability AND 1 \<noteq> 0"

definition machine_available :: "machine \<Rightarrow> bool" where
  "machine_available m \<longleftrightarrow> stability_to_available (machine_stability m)"

definition machine_set_stability :: "machine \<Rightarrow> bool \<Rightarrow> machine" where
  "machine_set_stability m available =
     (let stability = machine_stability m
      in if stability_to_available stability \<noteq> available
         then m\<lparr>m_stability := stability + 1\<rparr> else m)"

definition machine_copy :: "machine \<Rightarrow> machine \<Rightarrow> machine" where
  "machine_copy dest src = src"

text \<open>\<open>memcmp\<close> of two byte strings of the same length.\<close>

fun bytes_cmp :: "u8 list \<Rightarrow> u8 list \<Rightarrow> int" where
  "bytes_cmp (a # as) (b # bs) = (if a = b then bytes_cmp as bs else if a < b then -1 else 1)"
| "bytes_cmp _ _ = 0"

definition machine_addr :: "machine \<Rightarrow> u8 list" where
  "machine_addr m = sin6_addr m @ sin6_port m"

definition machine_addr_cmp :: "machine \<Rightarrow> machine \<Rightarrow> int" where
  "machine_addr_cmp a b = bytes_cmp (machine_addr a) (machine_addr b)"

text \<open>\<open>qsort\<close> of the C library: the elements in the order of the comparator.\<close>

fun insert_cmp :: "('a \<Rightarrow> 'a \<Rightarrow> int) \<Rightarrow> 'a \<Rightarrow> 'a list \<Rightarrow> 'a list" where
  "insert_cmp cmp x [] = [x]"
| "insert_cmp cmp x (y # ys) = (if cmp x y \<le> 0 then x # y # ys else y # insert_cmp cmp x ys)"

definition qsort :: "('a \<Rightarrow> 'a \<Rightarrow> int) \<Rightarrow> 'a list \<Rightarrow> 'a list" where
  "qsort cmp xs = foldr (insert_cmp cmp) xs []"

definition machines_sort_by_addr :: "machine list \<Rightarrow> nat \<Rightarrow> machine list" where
  "machines_sort_by_addr machines n = qsort machine_addr_cmp (take n machines) @ drop n machines"

text \<open>The loop of \<open>bsearch\<close> between the indices \<open>l\<close> and \<open>u\<close>.\<close>

function bsearch :: "('a \<Rightarrow> int) \<Rightarrow> 'a list \<Rightarrow> nat \<Rightarrow> nat \<Rightarrow> 'a option" where
  "bsearch cmp base l u =
     (if l < u then
        let idx = (l + u) div 2; c = cmp (base ! idx)
        in if c < 0 then bsearch cmp base l idx
           else if c > 0 then bsearch cmp base (idx + 1) u
           else Some (base ! idx)
      else None)"
  by pat_completeness auto
termination by (relation "measure (\<lambda>(cmp, base, l, u). u - l)") auto

declare bsearch.simps [simp del]

definition machines_search_addr :: "machine \<Rightarrow> machine list \<Rightarrow> nat \<Rightarrow> machine option" where
  "machines_search_addr key base n = bsearch (machine_addr_cmp key) base 0 n"

text \<open>The bytes of a machine in memory.\<close>

definition le_bytes :: "nat \<Rightarrow> 'a::len word \<Rightarrow> u8 list" where
  "le_bytes n w = map (\<lambda>i. ucast (drop_bit (8 * i) w)) [0..<n]"

definition machine_bytes :: "machine \<Rightarrow> u8 list" where
  "machine_bytes m = sin6_addr m @ sin6_port m @ m_pad m @ le_bytes 4 (m_id m) @
     le_bytes 8 (m_stability m) @ le_bytes 8 (m_version m)"

definition machines_cmp :: "machine list \<Rightarrow> machine list \<Rightarrow> nat \<Rightarrow> int" where
  "machines_cmp a b n =
     bytes_cmp (concat (map machine_bytes (take n a))) (concat (map machine_bytes (take n b)))"

text \<open>\<open>memcpy\<close> of the first \<open>n\<close> machines of \<open>src\<close> over the start of \<open>dest\<close>.\<close>

definition machines_copy :: "machine list \<Rightarrow> machine list \<Rightarrow> nat \<Rightarrow> machine list" where
  "machines_copy dest src n = take n src @ drop n dest"

fun machines_find :: "machine list \<Rightarrow> nat \<Rightarrow> u32 \<Rightarrow> machine option" where
  "machines_find machines 0 i = None"
| "machines_find [] (Suc n) i = None"
| "machines_find (m # ms) (Suc n) i = (if machine_id m = i then Some m else machines_find ms n i)"

text \<open>A machine as it is in memory: its fields have their sizes.\<close>

definition machine_wf :: "machine \<Rightarrow> bool" where
  "machine_wf m \<longleftrightarrow> length (sin6_addr m) = 16 \<and> length (sin6_port m) = 2 \<and> length (m_pad m) = 2"

definition machine_at :: "u8 \<Rightarrow> machine" where
  "machine_at b = \<lparr>sin6_addr = replicate 15 0 @ [b], sin6_port = [0x1F, 0x90], m_pad = [0, 0],
     m_id = 0, m_stability = 0, m_version = 0\<rparr>"

section \<open>Byte comparison\<close>

lemma bytes_cmp_eq: "length a = length b \<Longrightarrow> bytes_cmp a b = 0 \<longleftrightarrow> a = b"
  by (induction a b rule: bytes_cmp.induct) auto

lemma bytes_cmp_less: "length a = length b \<Longrightarrow> bytes_cmp a b < 0 \<longleftrightarrow> a < b"
  by (induction a b rule: bytes_cmp.induct) (auto simp: list_less_def lexord_cons_cons)

lemma bytes_cmp_greater: "length a = length b \<Longrightarrow> bytes_cmp a b > 0 \<longleftrightarrow> b < a"
  using bytes_cmp_eq [of a b] bytes_cmp_less [of a b] by (auto simp: not_less_iff_gr_or_eq)

lemma machine_addr_length [simp]: "machine_wf m \<Longrightarrow> length (machine_addr m) = 18"
  by (simp add: machine_wf_def machine_addr_def)

lemma machine_addr_cmp:
  assumes "machine_wf a" "machine_wf b"
  shows "machine_addr_cmp a b = 0 \<longleftrightarrow> machine_addr a = machine_addr b"
    and "machine_addr_cmp a b < 0 \<longleftrightarrow> machine_addr a < machine_addr b"
    and "machine_addr_cmp a b > 0 \<longleftrightarrow> machine_addr b < machine_addr a"
  using assms by (simp_all add: machine_addr_cmp_def bytes_cmp_eq bytes_cmp_less bytes_cmp_greater)

text \<open>A comparator that orders the elements by a key sorts them by it.\<close>

lemma insert_cmp_key:
  assumes "\<And>y. y \<in> set ys \<Longrightarrow> cmp x y \<le> 0 \<longleftrightarrow> f x \<le> f y"
  shows "insert_cmp cmp x ys = insort_key f x ys"
  using assms by (induction ys) auto

lemma qsort_key:
  assumes "\<And>x y. x \<in> set xs \<Longrightarrow> y \<in> set xs \<Longrightarrow> cmp x y \<le> 0 \<longleftrightarrow> f x \<le> f y"
  shows "qsort cmp xs = sort_key f xs"
  using assms
proof (induction xs)
  case Nil
  then show ?case by (simp add: qsort_def)
next
  case (Cons x xs)
  then have "foldr (insert_cmp cmp) xs [] = sort_key f xs" by (simp add: qsort_def)
  moreover have "insert_cmp cmp x (sort_key f xs) = insort_key f x (sort_key f xs)"
    by (rule insert_cmp_key) (use Cons.prems in simp)
  ultimately show ?case by (simp add: qsort_def)
qed

lemma machines_sort_by_addr_wf:
  assumes "\<forall>m \<in> set (take n ms). machine_wf m"
  shows "machines_sort_by_addr ms n = sort_key machine_addr (take n ms) @ drop n ms"
proof -
  have "qsort machine_addr_cmp (take n ms) = sort_key machine_addr (take n ms)"
  proof (rule qsort_key)
    show "machine_addr_cmp x y \<le> 0 \<longleftrightarrow> machine_addr x \<le> machine_addr y"
      if "x \<in> set (take n ms)" "y \<in> set (take n ms)" for x y
      using machine_addr_cmp(3) [of x y] assms that by (metis not_le)
  qed
  then show ?thesis by (simp add: machines_sort_by_addr_def)
qed

lemma le_bytes_inject:
  fixes v w :: "'a::len word"
  assumes "LENGTH('a) \<le> 8 * n" "le_bytes n v = le_bytes n w"
  shows "v = w"
proof (rule bit_word_eqI)
  fix k assume "k < LENGTH('a)"
  then have k: "k div 8 < n" using assms(1) by auto
  have "(ucast (drop_bit (8 * (k div 8)) v) :: u8) = ucast (drop_bit (8 * (k div 8)) w)"
    using arg_cong [OF assms(2), of "\<lambda>xs. xs ! (k div 8)"] k by (simp add: le_bytes_def)
  from arg_cong [OF this, of "\<lambda>u. bit u (k mod 8)"] show "bit v k \<longleftrightarrow> bit w k"
    by (simp add: bit_simps)
qed

lemma le_bytes_length [simp]: "length (le_bytes n w) = n"
  by (simp add: le_bytes_def)

lemma machine_bytes_length: "machine_wf m \<Longrightarrow> length (machine_bytes m) = 40"
  by (simp add: machine_bytes_def machine_wf_def)

lemma machine_bytes_inject:
  assumes "machine_wf a" "machine_wf b"
  shows "machine_bytes a = machine_bytes b \<longleftrightarrow> a = b"
proof
  assume "machine_bytes a = machine_bytes b"
  with assms have "sin6_addr a = sin6_addr b" "sin6_port a = sin6_port b" "m_pad a = m_pad b"
    "le_bytes 4 (m_id a) = le_bytes 4 (m_id b)" "le_bytes 8 (m_stability a) = le_bytes 8 (m_stability b)"
    "le_bytes 8 (m_version a) = le_bytes 8 (m_version b)"
    by (auto simp: machine_bytes_def machine_wf_def)
  then show "a = b"
    by (auto intro!: machine.equality dest!: le_bytes_inject [rotated])
qed simp

lemma concat_same_length:
  assumes "\<And>x. x \<in> set (xs @ ys) \<Longrightarrow> length (f x) = k" "length xs = length ys"
  shows "concat (map f xs) = concat (map f ys) \<longleftrightarrow> map f xs = map f ys"
  using assms(2,1)
proof (induction xs ys rule: list_induct2)
  case Nil
  then show ?case by simp
next
  case (Cons x xs y ys)
  have "length (f x) = length (f y)" using Cons.prems by simp
  with Cons show ?case by simp
qed

lemma machines_cmp_eq:
  assumes "\<forall>m \<in> set (take n a) \<union> set (take n b). machine_wf m" "n \<le> length a" "n \<le> length b"
  shows "machines_cmp a b n = 0 \<longleftrightarrow> take n a = take n b"
proof -
  have l: "length (machine_bytes m) = 40" if "m \<in> set (take n a @ take n b)" for m
    using that assms(1) machine_bytes_length by auto
  have n: "length (take n a) = length (take n b)" using assms by simp
  have "length (concat (map machine_bytes xs)) = 40 * length xs"
    if "set xs \<subseteq> set (take n a @ take n b)" for xs
    using that l by (induction xs) auto
  then have "machines_cmp a b n = 0 \<longleftrightarrow> concat (map machine_bytes (take n a)) = concat (map machine_bytes (take n b))"
    unfolding machines_cmp_def using n by (intro bytes_cmp_eq) simp
  also have "\<dots> \<longleftrightarrow> map machine_bytes (take n a) = map machine_bytes (take n b)"
    by (rule concat_same_length [OF l n])
  also have "\<dots> \<longleftrightarrow> take n a = take n b"
    using assms(1) by (intro inj_on_map_eq_map inj_onI) (auto simp: machine_bytes_inject)
  finally show ?thesis .
qed

section \<open>Searching and sorting\<close>

lemma bsearch_sound: "bsearch cmp base l u = Some x \<Longrightarrow> u \<le> length base \<Longrightarrow> x \<in> set base \<and> cmp x = 0"
proof (induction cmp base l u rule: bsearch.induct)
  case (1 cmp base l u)
  then show ?case
    by (subst (asm) (3) bsearch.simps) (auto simp: Let_def split: if_splits)
qed

lemma bsearch_complete:
  assumes "\<And>i j. i < j \<Longrightarrow> j < u \<Longrightarrow> cmp (base ! j) \<ge> 0 \<Longrightarrow> cmp (base ! i) > 0"
    and "bsearch cmp base l u = None" "l \<le> i" "i < u"
  shows "cmp (base ! i) \<noteq> 0"
  using assms
proof (induction cmp base l u rule: bsearch.induct)
  case (1 cmp base l u)
  let ?m = "(l + u) div 2"
  have lu: "l < u" "l \<le> ?m" "?m < u" using 1 by auto
  have u: "bsearch cmp base l u = (if cmp (base ! ?m) < 0 then bsearch cmp base l ?m
      else if cmp (base ! ?m) > 0 then bsearch cmp base (?m + 1) u else Some (base ! ?m))"
    using lu by (subst bsearch.simps) (simp add: Let_def)
  consider "cmp (base ! ?m) < 0" "bsearch cmp base l ?m = None"
    | "cmp (base ! ?m) > 0" "bsearch cmp base (?m + 1) u = None"
    using 1(4) unfolding u by (auto split: if_splits)
  then show ?case
  proof cases
    case a: 1
    show ?thesis
    proof (cases "i < ?m")
      case True
      then show ?thesis
        using 1(1) [OF lu(1) refl refl a(1) _ a(2)] 1(3,5) lu by auto
    next
      case False
      then show ?thesis
        using 1(3) [of ?m i] 1(6) a(1) by (cases "i = ?m") auto
    qed
  next
    case b: 2
    show ?thesis
    proof (cases "?m < i")
      case True
      then show ?thesis
        using 1(2) [OF lu(1) refl refl _ b(1) _ b(2)] 1(3,6) b(1) by auto
    next
      case False
      then show ?thesis
        using 1(3) [of i ?m] lu b(1) by (cases "i = ?m") auto
    qed
  qed
qed

lemma machines_search_addr_ok:
  assumes wf: "machine_wf key" "\<forall>m \<in> set base. machine_wf m"
    and s: "sorted_wrt (\<lambda>a b. machine_addr a < machine_addr b) base"
  shows "machines_search_addr key base (length base) = Some m \<longleftrightarrow>
      m \<in> set base \<and> machine_addr m = machine_addr key"
    and "machines_search_addr key base (length base) = None \<longleftrightarrow>
      machine_addr key \<notin> machine_addr ` set base"
proof -
  let ?r = "machines_search_addr key base (length base)"
  have sound: "x \<in> set base \<and> machine_addr x = machine_addr key" if "?r = Some x" for x
    using bsearch_sound [OF that [unfolded machines_search_addr_def]] machine_addr_cmp(1) [OF wf(1)] wf(2)
    by auto
  have complete: "machine_addr (base ! i) \<noteq> machine_addr key" if "?r = None" "i < length base" for i
  proof -
    have "machine_addr_cmp key (base ! i) \<noteq> 0"
    proof (rule bsearch_complete [OF _ that(1) [unfolded machines_search_addr_def]])
      fix i j assume "i < j" "j < length base" "machine_addr_cmp key (base ! j) \<ge> 0"
      moreover have "machine_addr (base ! i) < machine_addr (base ! j)"
        using s \<open>i < j\<close> \<open>j < length base\<close> by (simp add: sorted_wrt_iff_nth_less)
      moreover have "machine_wf (base ! i)" "machine_wf (base ! j)"
        using wf(2) \<open>i < j\<close> \<open>j < length base\<close> by auto
      ultimately show "machine_addr_cmp key (base ! i) > 0"
        using machine_addr_cmp [OF wf(1), of "base ! i"] machine_addr_cmp(2) [OF wf(1), of "base ! j"] by auto
    qed (use that(2) in simp_all)
    then show ?thesis
      using machine_addr_cmp(1) [OF wf(1), of "base ! i"] wf(2) that(2) by auto
  qed
  then show none: "?r = None \<longleftrightarrow> machine_addr key \<notin> machine_addr ` set base"
  proof (cases ?r)
    case None
    then show ?thesis using complete by (force simp: in_set_conv_nth)
  next
    case (Some x)
    then show ?thesis using sound [OF Some] by (metis imageI option.distinct(1))
  qed
  have unique: "x = y" if "x \<in> set base" "y \<in> set base" "machine_addr x = machine_addr y" for x y
  proof -
    note xy = that
    obtain i j where "i < length base" "j < length base" "x = base ! i" "y = base ! j"
      using xy(1,2) unfolding in_set_conv_nth by blast
    with xy(3) s show ?thesis
      by (cases i j rule: linorder_cases) (force simp: sorted_wrt_iff_nth_less)+
  qed
  show "?r = Some m \<longleftrightarrow> m \<in> set base \<and> machine_addr m = machine_addr key"
  proof (cases ?r)
    case None
    with none have "machine_addr key \<notin> machine_addr ` set base" by simp
    then have "m \<in> set base \<Longrightarrow> machine_addr m \<noteq> machine_addr key"
      by (metis imageI)
    with None show ?thesis by auto
  next
    case (Some x)
    then show ?thesis using sound [OF Some] unique [of x m] by auto
  qed
qed

lemma sort_by_addr_distinct:
  assumes "distinct (map machine_addr ms)"
  shows "sorted_wrt (\<lambda>a b. machine_addr a < machine_addr b) (sort_key machine_addr ms)"
proof -
  have "sorted (map machine_addr (sort_key machine_addr ms))" by simp
  moreover have "distinct (map machine_addr (sort_key machine_addr ms))"
    using assms by (simp add: distinct_map)
  ultimately have "sorted_wrt (<) (map machine_addr (sort_key machine_addr ms))"
    by (simp add: strict_sorted_iff)
  then show ?thesis by (simp add: sorted_wrt_map)
qed

section \<open>Sizes\<close>

lemma and_pred_nat:
  fixes n :: nat
  shows "0 < n \<Longrightarrow> and n (n - 1) = 0 \<longleftrightarrow> (\<exists>k. n = 2 ^ k)"
proof (induction n rule: less_induct)
  case (less n)
  show ?case
  proof (cases "even n")
    case True
    then obtain m where m: "n = 2 * m" "0 < m" using less.prems by auto
    have "(2 * m - 1) div 2 = m - 1" using m(2) by (cases m) simp_all
    then have "and n (n - 1) = 2 * and m (m - 1)"
      using m(1) by (subst and_rec) simp
    then have "and n (n - 1) = 0 \<longleftrightarrow> and m (m - 1) = 0" by simp
    also have "\<dots> \<longleftrightarrow> (\<exists>k. m = 2 ^ k)" using less.IH [of m] m by simp
    also have "\<dots> \<longleftrightarrow> (\<exists>k. n = 2 ^ k)"
    proof
      assume "\<exists>k. m = 2 ^ k"
      then show "\<exists>k. n = 2 ^ k" using m by (metis power_Suc)
    next
      assume "\<exists>k. n = 2 ^ k"
      then obtain k where k: "n = 2 ^ k" by auto
      with True have "k \<noteq> 0" by (cases k) auto
      with k m show "\<exists>k. m = 2 ^ k" by (cases k) auto
    qed
    finally show ?thesis .
  next
    case False
    then obtain m where m: "n = 2 * m + 1" by (elim oddE)
    have "and n (n - 1) = 2 * m"
      using m by (subst and_rec) simp
    moreover have "(\<exists>k. n = 2 ^ k) \<longleftrightarrow> m = 0"
    proof
      assume "\<exists>k. n = 2 ^ k"
      then obtain k where k: "n = 2 ^ k" by auto
      with False have "k = 0" by (cases k) auto
      with k m show "m = 0" by simp
    qed (use m in \<open>auto intro: exI [of _ 0]\<close>)
    ultimately show ?thesis by simp
  qed
qed

lemma is_power_of_2_iff:
  assumes "0 < unat i"
  shows "is_power_of_2 i \<longleftrightarrow> (\<exists>k. unat i = 2 ^ k)"
proof -
  have "i \<noteq> 0" using assms by auto
  then have "unat (i - 1) = unat i - 1" by (rule unat_minus_one)
  then have "unat (i AND (i - 1)) = and (unat i) (unat i - 1)"
    by (simp add: unsigned_and_eq)
  then show ?thesis
    using and_pred_nat [OF assms] by (simp add: is_power_of_2_def word_unat_eq_iff)
qed

section \<open>Properties\<close>

text \<open>
  (C26) The size check accepts exactly the sizes of clusters of \<open>2 ^ k\<close> machines with
  \<open>2 \<le> k \<le> 30\<close>: at least four machines, a power of two, and a count that fits an \<open>int32_t\<close>.
\<close>
theorem machines_size_valid_iff:
  "machines_size_valid sz \<longleftrightarrow> (\<exists>k. 2 \<le> k \<and> k \<le> 30 \<and> unat sz = 40 * 2 ^ k)"
proof
  let ?n = "unat sz div 40"
  assume v: "machines_size_valid sz"
  then have b: "160 \<le> unat sz" "unat sz \<le> 40 * 2147483647" "unat sz mod 40 = 0"
    by (auto simp: machines_size_valid_def MACHINES_SIZE_MIN_def MACHINES_SIZE_MAX_def MACHINE_SIZE_def
        MACHINES_MIN_def MACHINES_MAX_def word_le_nat_alt word_unat_eq_iff unat_mod_distrib)
  then have n: "unat sz = 40 * ?n" "4 \<le> ?n" "?n \<le> 2147483647" by auto
  have u: "unat (ucast (sz div MACHINE_SIZE) :: u32) = ?n"
    using n(3) by (simp add: MACHINE_SIZE_def unsigned_ucast_eq unat_div_distrib take_bit_eq_mod)
  obtain k where k: "?n = 2 ^ k"
    using v is_power_of_2_iff [of "ucast (sz div MACHINE_SIZE)"] u n(2)
    by (auto simp: machines_size_valid_def)
  have "2 \<le> k"
  proof (rule ccontr)
    assume "\<not> 2 \<le> k"
    then have "k = 0 \<or> k = 1" by auto
    with k n(2) show False by auto
  qed
  moreover have "k \<le> 30"
    using power_increasing [of 31 k "2 :: nat"] k n(3) by (cases "31 \<le> k") auto
  ultimately show "\<exists>k. 2 \<le> k \<and> k \<le> 30 \<and> unat sz = 40 * 2 ^ k"
    using n(1) k by auto
next
  assume "\<exists>k. 2 \<le> k \<and> k \<le> 30 \<and> unat sz = 40 * 2 ^ k"
  then obtain k where k: "2 \<le> k" "k \<le> 30" "unat sz = 40 * 2 ^ k" by auto
  have p: "(4::nat) \<le> 2 ^ k" "(2::nat) ^ k \<le> 2 ^ 30"
    using power_increasing [OF k(1), of "2 :: nat"] power_increasing [OF k(2), of "2 :: nat"] by simp_all
  have u: "unat (ucast (sz div MACHINE_SIZE) :: u32) = 2 ^ k"
    using p(2) k(3) by (simp add: MACHINE_SIZE_def unsigned_ucast_eq unat_div_distrib take_bit_eq_mod)
  show "machines_size_valid sz"
    using is_power_of_2_iff [of "ucast (sz div MACHINE_SIZE)"] u p k(3)
    by (auto simp: machines_size_valid_def MACHINES_SIZE_MIN_def MACHINES_SIZE_MAX_def MACHINE_SIZE_def
        MACHINES_MIN_def MACHINES_MAX_def word_le_nat_alt word_unat_eq_iff unat_mod_distrib)
qed

text \<open>
  (C27) On machines sorted by distinct addresses, the binary search finds a machine exactly when
  one with that address and port is there, and returns it.
\<close>
theorem machines_search_correct:
  assumes "machine_wf key" and "\<forall>m \<in> set ms. machine_wf m" and "distinct (map machine_addr ms)"
  shows "machines_search_addr key (machines_sort_by_addr ms (length ms)) (length ms) =
    find (\<lambda>m. machine_addr m = machine_addr key) ms"
proof -
  let ?s = "sort_key machine_addr ms"
  note ok = machines_search_addr_ok [OF assms(1), of ?s, OF _ sort_by_addr_distinct [OF assms(3)], simplified,
      OF assms(2)]
  show ?thesis
  proof (cases "find (\<lambda>m. machine_addr m = machine_addr key) ms")
    case None
    then have "machine_addr key \<notin> machine_addr ` set ms"
      by (force simp: find_None_iff)
    with None show ?thesis
      using ok(2) assms(2) by (simp add: machines_sort_by_addr_wf)
  next
    case (Some m)
    then have "m \<in> set ms" "machine_addr m = machine_addr key"
      by (auto simp: find_Some_iff)
    with Some show ?thesis
      using ok(1) [of m] assms(2) by (simp add: machines_sort_by_addr_wf)
  qed
qed

theorem machines_search_correct_witness:
  "machines_search_addr (machine_at 2) (machines_sort_by_addr (map machine_at [7, 2, 9, 4]) 4) 4
     = Some (machine_at 2)"
proof -
  have d: "distinct (map machine_addr (map machine_at [7, 2, 9, 4]))"
    by (simp add: machine_addr_def machine_at_def)
  have w: "machine_wf (machine_at b)" for b
    by (simp add: machine_wf_def machine_at_def)
  show ?thesis
    using machines_search_correct [OF w _ d, of 2] w
    by (simp add: machine_addr_def machine_at_def eval_nat_numeral)
qed

end
