(* ===== verification/Raft_Log.thy ===== *)
theory Raft_Log
  imports Machine "HOL-Library.Multiset"
begin

text \<open>
  The replicated log entry of a cluster, \<open>src/log.c\<close> and \<open>src/log.h\<close>.

  A log is the C struct with its flexible array of machines as a list, the machines of the
  current configuration first and those of the proposed one after them. \<open>malloc\<close> is a parameter
  that returns a block with arbitrary contents or nothing. The loops over machines are
  recursions over the list; the loops that run from the last machine to the first are
  recursions that treat the tail first.
\<close>

section \<open>Definitions\<close>

definition LOG_TYPE_UNSTABLE_MASK :: u8 where
  "LOG_TYPE_UNSTABLE_MASK = 14"

definition LOG_TYPE_JOINT_MASK :: u8 where
  "LOG_TYPE_JOINT_MASK = 2"

definition LOG_TYPE_OLD :: u8 where
  "LOG_TYPE_OLD = 0"

definition LOG_TYPE_ADJUST :: u8 where
  "LOG_TYPE_ADJUST = 2"

definition LOG_TYPE_SHRINK :: u8 where
  "LOG_TYPE_SHRINK = 6"

definition LOG_TYPE_CHANGE_AVAILABLE :: u8 where
  "LOG_TYPE_CHANGE_AVAILABLE = 4"

definition LOG_TYPE_GROW_COMPLETE :: u8 where
  "LOG_TYPE_GROW_COMPLETE = 8"

definition LOG_TYPE_GROW_TRANSFORM :: u8 where
  "LOG_TYPE_GROW_TRANSFORM = 1"

definition LOG_TYPE_GROW :: u8 where
  "LOG_TYPE_GROW = 3"

definition LOG_TYPE_GROW_CHANGE_AVAILABLE :: u8 where
  "LOG_TYPE_GROW_CHANGE_AVAILABLE = 5"

lemmas log_types = LOG_TYPE_UNSTABLE_MASK_def LOG_TYPE_JOINT_MASK_def LOG_TYPE_OLD_def LOG_TYPE_ADJUST_def
  LOG_TYPE_SHRINK_def LOG_TYPE_CHANGE_AVAILABLE_def LOG_TYPE_GROW_COMPLETE_def LOG_TYPE_GROW_TRANSFORM_def
  LOG_TYPE_GROW_def LOG_TYPE_GROW_CHANGE_AVAILABLE_def

record log =
  refcount :: int
  l_index :: u64
  l_term :: u64
  l_version :: u64
  next_machine_version :: u64
  next_machine_id :: u32
  l_type :: u8
  old_n :: u32
  new_n :: u32
  distinct_machines_n :: u64
  l_machines :: "machine list"

type_synonym log_alloc = "u64 \<Rightarrow> log option"

definition LOG_SIZE :: u64 where
  "LOG_SIZE = 64"

definition log_malloc :: "log_alloc \<Rightarrow> u64 \<Rightarrow> log option" where
  "log_malloc alloc machines_size =
     map_option (\<lambda>log. log\<lparr>refcount := 0\<rparr>) (alloc (LOG_SIZE + machines_size))"

definition log_malloc_init :: "log_alloc \<Rightarrow> u64 \<Rightarrow> log option" where
  "log_malloc_init alloc machines_size =
     map_option
       (\<lambda>log. log\<lparr>l_index := 1, l_term := 1, l_version := 1, next_machine_version := 1,
          next_machine_id := 1, l_type := LOG_TYPE_OLD,
          old_n := ucast (machines_size div MACHINE_SIZE), new_n := 0,
          distinct_machines_n := ucast (ucast (machines_size div MACHINE_SIZE) :: u32)\<rparr>)
       (log_malloc alloc machines_size)"

definition log_malloc_stable :: "log_alloc \<Rightarrow> log \<Rightarrow> log option" where
  "log_malloc_stable alloc unstable =
     map_option
       (\<lambda>log. log\<lparr>l_index := l_index unstable + 1, l_term := l_term unstable,
          l_version := l_version unstable + 1, next_machine_version := next_machine_version unstable,
          next_machine_id := next_machine_id unstable,
          l_type := l_type unstable AND NOT LOG_TYPE_UNSTABLE_MASK,
          old_n := new_n unstable, new_n := 0, distinct_machines_n := ucast (new_n unstable),
          l_machines := machines_copy (l_machines log)
            (drop (unat (old_n unstable)) (l_machines unstable)) (unat (new_n unstable))\<rparr>)
       (log_malloc alloc (MACHINE_SIZE * ucast (new_n unstable)))"

definition log_malloc_unstable :: "log_alloc \<Rightarrow> u32 \<Rightarrow> u32 \<Rightarrow> log option" where
  "log_malloc_unstable alloc on nn =
     map_option (\<lambda>log. log\<lparr>old_n := on, new_n := nn\<rparr>)
       (log_malloc alloc (MACHINE_SIZE * ucast (on + nn)))"

definition log_complete_unstable :: "log \<Rightarrow> log \<Rightarrow> u64 \<Rightarrow> log" where
  "log_complete_unstable log old trm =
     log\<lparr>l_index := l_index old + 1, l_term := trm, l_version := l_version old,
       next_machine_version := next_machine_version old, next_machine_id := next_machine_id old,
       l_machines := machines_copy (l_machines log) (l_machines old) (unat (old_n old))\<rparr>"

definition log_machine_reset_version :: "log \<Rightarrow> machine \<Rightarrow> log \<times> machine" where
  "log_machine_reset_version log m =
     (log\<lparr>next_machine_version := next_machine_version log + 1\<rparr>,
      m\<lparr>m_version := next_machine_version log\<rparr>)"

text \<open>Resetting the versions of the first \<open>k\<close> machines of a list.\<close>

fun reset_versions :: "log \<Rightarrow> machine list \<Rightarrow> nat \<Rightarrow> log \<times> machine list" where
  "reset_versions log ms 0 = (log, ms)"
| "reset_versions log [] (Suc k) = (log, [])"
| "reset_versions log (m # ms) (Suc k) =
     (let (log, m) = log_machine_reset_version log m;
          (log, ms) = reset_versions log ms k
      in (log, m # ms))"

definition log_malloc_grow_complete :: "log_alloc \<Rightarrow> log \<Rightarrow> u64 \<Rightarrow> log option" where
  "log_malloc_grow_complete alloc transform trm =
     (let n = old_n transform
      in map_option
          (\<lambda>log.
             let log = log_complete_unstable log transform trm;
                 log = log\<lparr>l_type := LOG_TYPE_GROW_COMPLETE\<rparr>;
                 new_machines = machines_copy (drop (unat n) (l_machines log)) (l_machines log) (unat n);
                 (log, new_machines) = reset_versions log new_machines (unat (drop_bit 1 n))
             in log\<lparr>l_machines := take (unat n) (l_machines log) @ new_machines,
                  distinct_machines_n := ucast n\<rparr>)
          (log_malloc_unstable alloc n n))"

definition log_borrow :: "log \<Rightarrow> log" where
  "log_borrow log = log\<lparr>refcount := refcount log + 1\<rparr>"

text \<open>\<open>log_return\<close>: the log that is left, or nothing when the last reference was returned.\<close>

definition log_return :: "log \<Rightarrow> log option" where
  "log_return log =
     (let log = log\<lparr>refcount := refcount log - 1\<rparr>
      in if refcount log = 0 then None else Some log)"

definition log_at_least_up_to_date :: "log \<Rightarrow> u64 \<Rightarrow> u64 \<Rightarrow> bool" where
  "log_at_least_up_to_date log index trm \<longleftrightarrow>
     trm > l_term log \<or> (trm = l_term log \<and> index \<ge> l_index log)"

definition log_machine_set_id :: "log \<Rightarrow> machine \<Rightarrow> log \<times> machine" where
  "log_machine_set_id log m =
     (log\<lparr>next_machine_id := next_machine_id log + 1\<rparr>, m\<lparr>m_id := next_machine_id log\<rparr>)"

definition log_machine_init :: "log \<Rightarrow> machine \<Rightarrow> log \<times> machine" where
  "log_machine_init log m =
     (let (log, m) = log_machine_set_id log m;
          m = machine_set_stability m True
      in log_machine_reset_version log m)"

fun sorted_by_addr_duplate :: "machine list \<Rightarrow> bool" where
  "sorted_by_addr_duplate (a # b # ms) = (machine_addr_cmp a b = 0 \<or> sorted_by_addr_duplate (b # ms))"
| "sorted_by_addr_duplate _ = False"

text \<open>Initialising machines one after the other.\<close>

fun init_machines :: "log \<Rightarrow> machine list \<Rightarrow> log \<times> machine list" where
  "init_machines log [] = (log, [])"
| "init_machines log (m # ms) =
     (let (log, m) = log_machine_init log m;
          (log, ms) = init_machines log ms
      in (log, m # ms))"

text \<open>
  What initialising machines one after the other amounts to: each becomes available and gets the next
  identifier and the next version of the log.
\<close>

definition fresh_machines :: "log \<Rightarrow> machine list \<Rightarrow> machine list" where
  "fresh_machines log ms = map (\<lambda>i. (machine_set_stability (ms ! i) True)
     \<lparr>m_id := next_machine_id log + of_nat i, m_version := next_machine_version log + of_nat i\<rparr>) [0..<length ms]"

definition log_complete_init :: "log \<Rightarrow> bool \<times> log" where
  "log_complete_init log =
     (let n = unat (old_n log);
          (log, ms) = init_machines log (take n (l_machines log));
          ms = machines_sort_by_addr ms n
      in (\<not> sorted_by_addr_duplate ms, log\<lparr>l_machines := ms @ drop n (l_machines log)\<rparr>))"

text \<open>
  What completing a proposed log gives: the completed log, a refusal, or a read past the array
  of machines (no value of the C code).
\<close>

datatype 'a outcome = Accept 'a | Reject | Undefined

text \<open>The first loop of \<open>__log_complete_adjust\<close>, with its counters \<open>keeps\<close> and \<open>new_n\<close>.\<close>

fun adjust_match ::
  "machine list \<Rightarrow> log \<Rightarrow> machine list \<Rightarrow> machine list \<Rightarrow> u32 \<Rightarrow> u32 \<Rightarrow> log \<times> machine list \<times> u32 \<times> u32" where
  "adjust_match sorted_old log (old # olds) (new # news) keeps nn =
     (if machine_addr_cmp new old = 0 then
        let (log, news, keeps, nn) = adjust_match sorted_old log olds news (keeps + 1) nn
        in (log, machine_copy new old # news, keeps, nn)
      else case machines_search_addr new sorted_old (length sorted_old) of
        Some m \<Rightarrow>
          let (log, news, keeps, nn) = adjust_match sorted_old log olds news keeps nn
          in (log, machine_copy new m # news, keeps, nn)
      | None \<Rightarrow>
          let (log, new) = log_machine_init log new;
              (log, news, keeps, nn) = adjust_match sorted_old log olds news keeps (nn + 1)
          in (log, new # news, keeps, nn))"
| "adjust_match sorted_old log _ news keeps nn = (log, news, keeps, nn)"

text \<open>
  The scan for the first machine that decides, and the loop that resets versions from the last
  machine to the first, for a test \<open>ch\<close> of a changed slot and \<open>av\<close> of an available one.
\<close>

fun ring_start ::
  "(machine \<Rightarrow> machine \<Rightarrow> bool) \<Rightarrow> (machine \<Rightarrow> machine \<Rightarrow> bool) \<Rightarrow> machine list \<Rightarrow> machine list \<Rightarrow> bool option" where
  "ring_start ch av (old # olds) (new # news) =
     (if \<not> ch old new \<and> \<not> av old new then ring_start ch av olds news else Some (ch old new))"
| "ring_start ch av _ _ = None"

fun ring_upgrade ::
  "(machine \<Rightarrow> machine \<Rightarrow> bool) \<Rightarrow> (machine \<Rightarrow> machine \<Rightarrow> bool) \<Rightarrow>
   log \<Rightarrow> machine list \<Rightarrow> machine list \<Rightarrow> bool \<Rightarrow> bool \<times> log \<times> machine list" where
  "ring_upgrade ch av log (old # olds) (new # news) upgrade =
     (let (upgrade, log, news) = ring_upgrade ch av log olds news upgrade;
          upgrade = (if ch old new then True else if av old new then False else upgrade);
          (log, new) = (if upgrade then log_machine_reset_version log new else (log, new))
      in (upgrade, log, new # news))"
| "ring_upgrade ch av log _ news upgrade = (upgrade, log, news)"

definition id_changed :: "machine \<Rightarrow> machine \<Rightarrow> bool" where
  "id_changed old new \<longleftrightarrow> machine_id old \<noteq> machine_id new"

definition availability_changed :: "machine \<Rightarrow> machine \<Rightarrow> bool" where
  "availability_changed old new \<longleftrightarrow> machine_available new \<noteq> machine_available old"

definition log_complete_adjust :: "log \<Rightarrow> log \<Rightarrow> log outcome" where
  "log_complete_adjust log old_log =
     (let n = unat (old_n log);
          sorted_old = machines_sort_by_addr (take n (l_machines log)) n;
          old_machines = take n (l_machines old_log);
          new_machines = drop n (l_machines log);
          (log, new_machines, keeps, nn) = adjust_match sorted_old log old_machines new_machines 0 0
      in if keeps = old_n log \<or> keeps < old_n log div 2 then Reject
         else if sorted_by_addr_duplate (machines_sort_by_addr (take n new_machines) n) then Reject
         else case ring_start id_changed (\<lambda>old new. machine_available old) old_machines new_machines of
           None \<Rightarrow> Undefined
         | Some upgrade \<Rightarrow>
             let (_, log, new_machines) =
                   ring_upgrade id_changed (\<lambda>old new. machine_available new) log old_machines new_machines upgrade
             in Accept (log\<lparr>l_machines := old_machines @ new_machines,
                  distinct_machines_n := ucast (old_n log) + ucast nn\<rparr>))"

definition log_complete_shrink :: "log \<Rightarrow> log outcome" where
  "log_complete_shrink log =
     (if machines_cmp (l_machines log) (drop (unat (old_n log)) (l_machines log)) (unat (new_n log)) \<noteq> 0
      then Reject
      else Accept (log\<lparr>distinct_machines_n := ucast (old_n log)\<rparr>))"

text \<open>The merge of two sorted lists that looks for a common address.\<close>

fun merge_disjoint :: "machine list \<Rightarrow> machine list \<Rightarrow> bool" where
  "merge_disjoint (a # as) (b # bs) =
     (let cmp = machine_addr_cmp a b
      in if cmp < 0 then merge_disjoint as (b # bs)
         else if cmp > 0 then merge_disjoint (a # as) bs
         else False)"
| "merge_disjoint _ _ = True"

definition log_complete_grow :: "log \<Rightarrow> log outcome" where
  "log_complete_grow log =
     (let n = unat (old_n log);
          old_machines = l_machines log;
          new_machines = drop n (l_machines log)
      in if machines_cmp new_machines old_machines n \<noteq> 0 then Reject
         else let machines = machines_sort_by_addr (drop n new_machines) n in
           if sorted_by_addr_duplate (take n machines) then Reject
           else if \<not> merge_disjoint (take n (machines_sort_by_addr old_machines n)) (take n machines) then Reject
           else let (log, machines) = init_machines log machines
                in Accept (log\<lparr>l_machines := take n new_machines @ take n new_machines @ machines,
                     distinct_machines_n := ucast (new_n log)\<rparr>))"

definition log_complete_change :: "log \<Rightarrow> log \<Rightarrow> u64 \<Rightarrow> log outcome" where
  "log_complete_change log old trm =
     (let log = log_complete_unstable log old trm
      in if new_n log = old_n log then
           log_complete_adjust (log\<lparr>l_type := LOG_TYPE_ADJUST\<rparr>) old
         else if new_n log = drop_bit 1 (old_n log) then
           log_complete_shrink (log\<lparr>l_type := LOG_TYPE_SHRINK\<rparr>)
         else if new_n log = push_bit 1 (old_n log) then
           log_complete_grow (log\<lparr>l_type := LOG_TYPE_GROW\<rparr>)
         else Reject)"

definition log_complete_change_available :: "log \<Rightarrow> log \<Rightarrow> u64 \<Rightarrow> log outcome" where
  "log_complete_change_available log old_log trm =
     (let log = log_complete_unstable log old_log trm;
          log = log\<lparr>l_type := (if l_type old_log = LOG_TYPE_OLD then LOG_TYPE_CHANGE_AVAILABLE
                                else LOG_TYPE_GROW_CHANGE_AVAILABLE)\<rparr>;
          n = unat (old_n log);
          old_machines = take n (l_machines log);
          new_machines = drop n (l_machines log)
      in case ring_start availability_changed (\<lambda>old new. machine_available old \<or> machine_available new)
                old_machines new_machines of
           None \<Rightarrow> Undefined
         | Some upgrade \<Rightarrow>
             let (_, log, new_machines) =
                   ring_upgrade availability_changed (\<lambda>old new. machine_available old)
                     log old_machines new_machines upgrade
             in Accept (log\<lparr>l_machines := old_machines @ new_machines, distinct_machines_n := ucast (old_n log)\<rparr>))"

definition log_machines_find :: "log \<Rightarrow> u32 \<Rightarrow> machine option" where
  "log_machines_find log i = machines_find (l_machines log) (unat (old_n log + new_n log)) i"

definition log_machines_find_old :: "log \<Rightarrow> u32 \<Rightarrow> machine option" where
  "log_machines_find_old log i = machines_find (l_machines log) (unat (old_n log)) i"

definition log_machines_find_new :: "log \<Rightarrow> u32 \<Rightarrow> machine option" where
  "log_machines_find_new log i =
     machines_find (drop (unat (old_n log)) (l_machines log)) (unat (new_n log)) i"

text \<open>
  The client's dispatch of \<open>README.rst\<close>: a key of slot \<open>i\<close> goes to the next available machine of
  the ring, and carries the version of slot \<open>i\<close>.
\<close>

definition dispatch :: "machine list \<Rightarrow> nat \<Rightarrow> u32 option" where
  "dispatch ms i = map_option machine_id (find machine_available (drop i ms @ take i ms))"

text \<open>
  A well-formed configuration: distinct addresses, distinct identifiers and versions below the
  counters that hand out the next ones.
\<close>

definition config_ok :: "u32 \<Rightarrow> u64 \<Rightarrow> machine list \<Rightarrow> bool" where
  "config_ok ni nv ms \<longleftrightarrow>
     (\<forall>m \<in> set ms. machine_wf m \<and> m_id m < ni \<and> m_version m < nv) \<and>
     distinct (map machine_addr ms) \<and> distinct (map m_id ms) \<and> distinct (map m_version ms)"

text \<open>The decisions of the downward loop, slot by slot.\<close>

fun upgrades ::
  "(machine \<Rightarrow> machine \<Rightarrow> bool) \<Rightarrow> (machine \<Rightarrow> machine \<Rightarrow> bool) \<Rightarrow> machine list \<Rightarrow> machine list \<Rightarrow> bool \<Rightarrow> bool" where
  "upgrades ch av (old # olds) (new # news) upgrade =
     (if ch old new then True else if av old new then False else upgrades ch av olds news upgrade)"
| "upgrades ch av _ _ upgrade = upgrade"

fun flags ::
  "(machine \<Rightarrow> machine \<Rightarrow> bool) \<Rightarrow> (machine \<Rightarrow> machine \<Rightarrow> bool) \<Rightarrow> machine list \<Rightarrow> machine list \<Rightarrow> bool \<Rightarrow> bool list" where
  "flags ch av (old # olds) (new # news) upgrade =
     upgrades ch av (old # olds) (new # news) upgrade # flags ch av olds news upgrade"
| "flags ch av _ _ upgrade = []"

text \<open>A slot after the loop: a new version between the bounds, or as it was.\<close>

definition slot_rel :: "u64 \<Rightarrow> u64 \<Rightarrow> bool \<times> machine \<Rightarrow> machine \<Rightarrow> bool" where
  "slot_rel lo hi p w \<longleftrightarrow>
     (if fst p then lo \<le> m_version w \<and> m_version w < hi \<and> w = (snd p)\<lparr>m_version := m_version w\<rparr>
      else w = snd p)"

text \<open>Slots the test calls unchanged hold the same machine with the same availability.\<close>

definition unchanged_same ::
  "(machine \<Rightarrow> machine \<Rightarrow> bool) \<Rightarrow> (machine \<Rightarrow> machine \<Rightarrow> bool) \<Rightarrow> machine list \<Rightarrow> machine list \<Rightarrow> bool" where
  "unchanged_same ch av = list_all2 (\<lambda>old new. \<not> ch old new \<longrightarrow>
     machine_id old = machine_id new \<and> (machine_available old \<longleftrightarrow> machine_available new) \<and>
     (av old new \<longleftrightarrow> machine_available old))"

definition counters :: "log \<Rightarrow> u32 \<Rightarrow> u64 \<Rightarrow> log" where
  "counters log ni nv = log\<lparr>next_machine_id := ni, next_machine_version := nv\<rparr>"

text \<open>
  A change is safe for clients: when a slot of the new configuration has a version of the old one, it
  is the same slot and its keys are dispatched to the same machine.
\<close>

definition upgrade_safe :: "machine list \<Rightarrow> machine list \<Rightarrow> bool" where
  "upgrade_safe olds news \<longleftrightarrow>
     (\<forall>i < length news. \<forall>j < length olds.
        m_version (news ! i) = m_version (olds ! j) \<longrightarrow> i = j \<and> dispatch news i = dispatch olds i)"

text \<open>What the matching loop of an adjustment establishes, for the machines \<open>ms\<close> of the old log.\<close>

definition adjust_matched ::
  "machine list \<Rightarrow> u32 \<Rightarrow> machine list \<Rightarrow> machine list \<Rightarrow> u32 \<Rightarrow> machine list \<Rightarrow> u32 \<Rightarrow> u32 \<Rightarrow> bool" where
  "adjust_matched ms lo olds news ni news' keeps keeps' \<longleftrightarrow>
     map machine_addr news' = map machine_addr news \<and>
     (\<forall>w \<in> set news'. machine_wf w \<and> m_id w < ni) \<and>
     (\<forall>w \<in> set news'. w \<in> set ms \<or> lo \<le> m_id w) \<and>
     (distinct (map machine_addr news) \<longrightarrow> distinct (map m_id news')) \<and>
     list_all2 (\<lambda>old w. m_id old = m_id w \<longrightarrow> w = old) olds news' \<and>
     (news' = olds \<longrightarrow> keeps' = keeps + of_nat (length news))"

definition log_ok :: "log \<Rightarrow> bool" where
  "log_ok log \<longleftrightarrow>
     length (l_machines log) = unat (old_n log) + unat (new_n log) \<and>
     config_ok (next_machine_id log) (next_machine_version log) (take (unat (old_n log)) (l_machines log)) \<and>
     config_ok (next_machine_id log) (next_machine_version log) (drop (unat (old_n log)) (l_machines log))"

definition counters_room :: "log \<Rightarrow> bool" where
  "counters_room log \<longleftrightarrow>
     unat (next_machine_id log) + unat (old_n log) < 2 ^ 32 \<and>
     unat (next_machine_version log) + 2 * unat (old_n log) < 2 ^ 64 \<and> unat (old_n log) \<le> 2 ^ 30"

text \<open>The proposal of a new configuration, and of new stabilities for the same machines.\<close>

definition proposal :: "log \<Rightarrow> log \<Rightarrow> bool" where
  "proposal old log \<longleftrightarrow>
     old_n log = old_n old \<and> length (l_machines log) = unat (old_n log) + unat (new_n log) \<and>
     (\<forall>m \<in> set (drop (unat (old_n log)) (l_machines log)). machine_wf m)"

definition stability_proposal :: "log \<Rightarrow> log \<Rightarrow> bool" where
  "stability_proposal old log \<longleftrightarrow>
     (let n = unat (old_n old); news = drop n (l_machines log)
      in old_n log = old_n old \<and> new_n log = old_n old \<and> length (l_machines log) = n + n \<and>
         (\<forall>i < n. news ! i = (l_machines old ! i)\<lparr>m_stability := m_stability (news ! i)\<rparr>) \<and>
         (\<exists>i < n. availability_changed (l_machines old ! i) (news ! i)))"

text \<open>\<open>malloc\<close> gives a block of the size asked for.\<close>

definition alloc_sized :: "log_alloc \<Rightarrow> bool" where
  "alloc_sized alloc \<longleftrightarrow>
     (\<forall>sz log. alloc sz = Some log \<longrightarrow> unat sz = unat LOG_SIZE + 40 * length (l_machines log))"

inductive log_step :: "log \<Rightarrow> log \<Rightarrow> bool" where
  change: "proposal old log \<Longrightarrow> counters_room old \<Longrightarrow> log_complete_change log old trm = Accept log' \<Longrightarrow> log_step old log'"
| change_available: "stability_proposal old log \<Longrightarrow> counters_room old \<Longrightarrow>
    log_complete_change_available log old trm = Accept log' \<Longrightarrow> log_step old log'"
| stable: "alloc_sized alloc \<Longrightarrow> log_malloc_stable alloc old = Some log' \<Longrightarrow> log_step old log'"
| grow_complete: "alloc_sized alloc \<Longrightarrow> counters_room old \<Longrightarrow>
    log_malloc_grow_complete alloc old trm = Some log' \<Longrightarrow> log_step old log'"

definition small_machine :: "u8 \<Rightarrow> u32 \<Rightarrow> u64 \<Rightarrow> u64 \<Rightarrow> machine" where
  "small_machine a i stability version =
     (machine_at a)\<lparr>m_id := i, m_stability := stability, m_version := version\<rparr>"

definition small_log :: log where
  "small_log = \<lparr>refcount = 1, l_index = 1, l_term = 1, l_version = 1, next_machine_version = 5, next_machine_id = 5,
     l_type = LOG_TYPE_OLD, old_n = 4, new_n = 0, distinct_machines_n = 4,
     l_machines = [small_machine 1 1 1 1, small_machine 2 2 2 2, small_machine 3 3 1 3, small_machine 4 4 1 4]\<rparr>"

definition small_proposal :: "machine list \<Rightarrow> log" where
  "small_proposal ms = small_log\<lparr>new_n := of_nat (length ms), l_machines := l_machines small_log @ ms\<rparr>"

section \<open>Resetting versions around the ring\<close>

lemma flags_length [simp]: "length olds = length news \<Longrightarrow> length (flags ch av olds news u) = length news"
  by (induction olds news rule: list_induct2) auto

lemma flags_nth:
  "length olds = length news \<Longrightarrow> i < length news \<Longrightarrow>
   flags ch av olds news u ! i \<longleftrightarrow> upgrades ch av (drop i olds) (drop i news) u"
  by (induction olds news arbitrary: i rule: list_induct2) (auto simp: nth_Cons' drop_Cons')

lemma slot_rel_mono: "hi \<le> hi' \<Longrightarrow> slot_rel lo hi p w \<Longrightarrow> slot_rel lo hi' p w"
  by (auto simp: slot_rel_def split: if_splits)

lemma slot_rel_simps [simp]:
  "slot_rel lo hi (False, w) w' \<longleftrightarrow> w' = w"
  "slot_rel lo hi (True, w) (w\<lparr>m_version := v\<rparr>) \<longleftrightarrow> lo \<le> v \<and> v < hi"
  by (auto simp: slot_rel_def)

lemma ring_upgrade_ok:
  assumes "length olds = length news" "unat (next_machine_version log) + length news < 2 ^ 64"
  obtains nv news' where
    "ring_upgrade ch av log olds news u = (upgrades ch av olds news u, log\<lparr>next_machine_version := nv\<rparr>, news')"
    "next_machine_version log \<le> nv" "unat nv \<le> unat (next_machine_version log) + length news"
    "list_all2 (slot_rel (next_machine_version log) nv) (zip (flags ch av olds news u) news) news'"
    "list_all2 (\<lambda>p old. \<not> fst p \<longrightarrow> m_version (snd p) = m_version old) (zip (flags ch av olds news u) news) olds \<Longrightarrow>
     distinct (map m_version olds) \<Longrightarrow> \<forall>m \<in> set olds. m_version m < next_machine_version log \<Longrightarrow>
     distinct (map m_version news')"
  using assms
proof (induction olds news arbitrary: thesis rule: list_induct2)
  case Nil
  show ?case by (rule Nil.prems(1) [of "next_machine_version log" "[]"]) simp_all
next
  case (Cons old olds new news)
  let ?lo = "next_machine_version log" and ?z = "zip (flags ch av olds news u) news"
  have "unat ?lo + length news < 2 ^ 64" using Cons.prems(2) by simp
  then obtain nv news' where
    r: "ring_upgrade ch av log olds news u = (upgrades ch av olds news u, log\<lparr>next_machine_version := nv\<rparr>, news')"
    and lo: "?lo \<le> nv" and hi: "unat nv \<le> unat ?lo + length news"
    and rel: "list_all2 (slot_rel ?lo nv) ?z news'"
    and d: "list_all2 (\<lambda>p old. \<not> fst p \<longrightarrow> m_version (snd p) = m_version old) ?z olds \<Longrightarrow>
      distinct (map m_version olds) \<Longrightarrow> \<forall>m \<in> set olds. m_version m < ?lo \<Longrightarrow> distinct (map m_version news')"
    using Cons.IH by blast
  have vs: "m_version w \<in> {?lo..<nv} \<union> m_version ` set olds"
    if w: "w \<in> set news'" and same: "list_all2 (\<lambda>p old. \<not> fst p \<longrightarrow> m_version (snd p) = m_version old) ?z olds" for w
  proof -
    obtain p where p: "p \<in> set ?z" "slot_rel ?lo nv p w"
      by (rule list_all2_setE [OF rel w])
    obtain old where "old \<in> set olds" "\<not> fst p \<longrightarrow> m_version (snd p) = m_version old"
      using same p(1) by (rule list_all2_set1E)
    with p(2) show ?thesis by (cases "fst p") (auto simp: slot_rel_def)
  qed
  show ?case
  proof (cases "upgrades ch av (old # olds) (new # news) u")
    case False
    have e: "ring_upgrade ch av log (old # olds) (new # news) u
        = (upgrades ch av (old # olds) (new # news) u, log\<lparr>next_machine_version := nv\<rparr>, new # news')"
      using False r by (auto split: if_splits)
    have n: "m_version old \<notin> m_version ` set news'"
      if "list_all2 (\<lambda>p old. \<not> fst p \<longrightarrow> m_version (snd p) = m_version old) ?z olds"
        "distinct (map m_version (old # olds))" "\<forall>m \<in> set (old # olds). m_version m < ?lo"
      using that(2,3) vs [OF _ that(1)] by fastforce
    have f: "flags ch av (old # olds) (new # news) u = False # flags ch av olds news u"
      using False by simp
    show ?thesis
      by (rule Cons.prems(1) [OF e lo]) (use hi rel d n in \<open>simp_all only: f zip_Cons_Cons\<close>, auto)
  next
    case True
    have v: "nv < nv + 1" "nv \<le> nv + 1" "unat (nv + 1) = unat nv + 1" "?lo \<le> nv + 1"
      using hi lo Cons.prems(2) by (auto simp: word_less_nat_alt word_le_nat_alt unat_word_ariths)
    have n: "nv \<notin> m_version ` set news'"
      if "list_all2 (\<lambda>p old. \<not> fst p \<longrightarrow> m_version (snd p) = m_version old) ?z olds"
        "\<forall>m \<in> set olds. m_version m < ?lo"
      using that(2) vs [OF _ that(1)] lo by fastforce
    have l: "list_all2 (slot_rel ?lo (nv + 1)) ?z news'"
      using rel slot_rel_mono [OF v(2)] by (auto elim: list_all2_mono)
    have e: "ring_upgrade ch av log (old # olds) (new # news) u
        = (upgrades ch av (old # olds) (new # news) u, log\<lparr>next_machine_version := nv + 1\<rparr>,
           new\<lparr>m_version := nv\<rparr> # news')"
      using True r by (auto simp: log_machine_reset_version_def split: if_splits)
    have f: "flags ch av (old # olds) (new # news) u = True # flags ch av olds news u"
      using True by simp
    show ?thesis
      by (rule Cons.prems(1) [OF e v(4)]) (use hi v lo l d n in \<open>simp_all only: f zip_Cons_Cons\<close>, auto)
  qed
qed

section \<open>The machine that serves a slot\<close>

lemma ring_start_find:
  assumes "unchanged_same ch av olds news" "ring_start ch av olds news = Some False"
  shows "map_option machine_id (find machine_available (olds @ xs)) =
    map_option machine_id (find machine_available (news @ ys))"
    and "find machine_available olds \<noteq> None" "find machine_available news \<noteq> None"
  using assms unfolding unchanged_same_def
  by (induction rule: list_all2_induct) (auto split: if_splits)

lemma not_upgrades_cases:
  assumes "unchanged_same ch av olds news" "\<not> upgrades ch av olds news u"
  obtains "ring_start ch av olds news = Some False"
    | "\<not> u" "\<forall>m \<in> set olds \<union> set news. \<not> machine_available m"
  using assms unfolding unchanged_same_def
proof (induction arbitrary: thesis rule: list_all2_induct)
  case Nil
  then show ?case by simp
next
  case (Cons old olds new news)
  then show ?case by (auto split: if_splits)
qed

lemma find_append: "find P (xs @ ys) = (case find P xs of None \<Rightarrow> find P ys | Some x \<Rightarrow> Some x)"
  by (induction xs) auto

lemma dispatch_same:
  assumes s: "unchanged_same ch av olds news" "unchanged_same ch av' olds news"
    and start: "ring_start ch av olds news = Some u"
    and up: "\<not> upgrades ch av' (drop i olds) (drop i news) u"
  shows "dispatch olds i = dispatch news i"
proof -
  have d: "unchanged_same ch av' (drop i olds) (drop i news)"
    using s(2) by (simp add: unchanged_same_def list_all2_dropI)
  show ?thesis
    using d up
  proof (cases rule: not_upgrades_cases)
    case 1
    from ring_start_find(1) [OF d 1] show ?thesis by (simp add: dispatch_def)
  next
    case 2
    then have n: "find machine_available (drop i olds) = None" "find machine_available (drop i news) = None"
      by (auto simp: find_None_iff)
    have "map_option machine_id (find machine_available (olds @ [])) =
        map_option machine_id (find machine_available (news @ []))"
      using start 2(1) by (intro ring_start_find(1) [OF s(1)]) simp
    moreover have t: "find machine_available (drop i ms @ take i ms) = find machine_available (ms @ [])"
      if "find machine_available (drop i ms) = None" for ms
    proof -
      have "find machine_available (drop i ms @ take i ms) = find machine_available (take i ms)"
        unfolding find_append that by simp
      also have "\<dots> = find machine_available (take i ms @ drop i ms)"
        unfolding find_append that by (simp split: option.split)
      finally show ?thesis by simp
    qed
    ultimately show ?thesis
      unfolding dispatch_def t [OF n(1)] t [OF n(2)] by blast
  qed
qed

lemma slot_rel_fields:
  assumes "slot_rel lo hi p w"
  shows "m_id w = m_id (snd p)" "machine_addr w = machine_addr (snd p)" "machine_wf w = machine_wf (snd p)"
    "machine_available w = machine_available (snd p)"
proof -
  obtain v where "w = (snd p)\<lparr>m_version := v\<rparr> \<or> w = snd p"
    using assms by (auto simp: slot_rel_def split: if_splits)
  then show "m_id w = m_id (snd p)" "machine_addr w = machine_addr (snd p)" "machine_wf w = machine_wf (snd p)"
    "machine_available w = machine_available (snd p)"
    by (auto simp: machine_addr_def machine_wf_def machine_available_def machine_stability_def)
qed

lemma slot_rel_list:
  assumes "list_all2 (slot_rel lo hi) (zip fs news) news'" "length fs = length news"
  shows "map m_id news' = map m_id news" "map machine_addr news' = map machine_addr news"
    "map machine_wf news' = map machine_wf news" "map machine_available news' = map machine_available news"
  using assms slot_rel_fields [of lo hi] by (auto simp: list_all2_conv_all_nth list_eq_iff_nth_eq)

lemma find_dispatch:
  assumes "map machine_id xs = map machine_id ys" "map machine_available xs = map machine_available ys"
  shows "map_option machine_id (find machine_available xs) = map_option machine_id (find machine_available ys)"
  using map_eq_imp_length_eq [OF assms(1)] assms by (induction xs ys rule: list_induct2) auto

lemma dispatch_slot_rel:
  assumes "list_all2 (slot_rel lo hi) (zip fs news) news'" "length fs = length news"
  shows "dispatch news' i = dispatch news i"
  using slot_rel_list [OF assms] unfolding dispatch_def
  by (intro find_dispatch) (simp_all add: machine_id_def [abs_def] drop_map [symmetric] take_map [symmetric])

lemma upgrades_changed: "ch old new \<Longrightarrow> upgrades ch av (old # olds) (new # news) u"
  by simp

text \<open>
  The loop keeps a configuration well formed and never lets a slot keep its version while the
  machine that serves it changes.
\<close>

lemma ring_upgrade_config:
  assumes len: "length olds = length news" and room: "unat (next_machine_version log) + length news < 2 ^ 64"
    and s: "unchanged_same ch av olds news" "unchanged_same ch av' olds news"
    and start: "ring_start ch av olds news = Some u"
    and same: "\<And>i. i < length news \<Longrightarrow> \<not> ch (olds ! i) (news ! i) \<Longrightarrow> m_version (news ! i) = m_version (olds ! i)"
    and olds: "distinct (map m_version olds)" "\<forall>m \<in> set olds. m_version m < next_machine_version log"
    and news: "\<forall>m \<in> set news. machine_wf m \<and> m_id m < ni" "distinct (map machine_addr news)" "distinct (map m_id news)"
  obtains u' nv news' where
    "ring_upgrade ch av' log olds news u = (u', log\<lparr>next_machine_version := nv\<rparr>, news')"
    "length news' = length news" "config_ok ni nv news'" "next_machine_version log \<le> nv"
    "\<And>i j. i < length news \<Longrightarrow> j < length news \<Longrightarrow> m_version (news' ! i) = m_version (olds ! j) \<Longrightarrow>
      i = j \<and> dispatch news' i = dispatch olds i"
    "\<And>i. i < length news \<Longrightarrow> m_id (news' ! i) = m_id (news ! i)"
proof -
  let ?f = "flags ch av' olds news u" and ?lo = "next_machine_version log"
  obtain nv news' where
    r: "ring_upgrade ch av' log olds news u = (upgrades ch av' olds news u, log\<lparr>next_machine_version := nv\<rparr>, news')"
    and lo: "?lo \<le> nv" and "unat nv \<le> unat ?lo + length news"
    and rel: "list_all2 (slot_rel ?lo nv) (zip ?f news) news'"
    and d: "list_all2 (\<lambda>p old. \<not> fst p \<longrightarrow> m_version (snd p) = m_version old) (zip ?f news) olds \<Longrightarrow>
      distinct (map m_version olds) \<Longrightarrow> \<forall>m \<in> set olds. m_version m < ?lo \<Longrightarrow> distinct (map m_version news')"
    by (rule ring_upgrade_ok [OF len room, of ch av' u]) blast
  have l: "length news' = length news" "length ?f = length news"
    using list_all2_lengthD [OF rel] len by simp_all
  have slot: "slot_rel ?lo nv (?f ! i, news ! i) (news' ! i)" if "i < length news" for i
    using list_all2_nthD2 [OF rel, of i] that l by simp
  have unflagged: "\<not> ch (olds ! i) (news ! i)" if "i < length news" "\<not> ?f ! i" for i
    using that flags_nth [OF len that(1)] len upgrades_changed
    by (metis Cons_nth_drop_Suc)
  have old_version: "m_version (news ! i) = m_version (olds ! i)" if "i < length news" "\<not> ?f ! i" for i
    using same [OF that(1) unflagged [OF that]] .
  have same_list: "list_all2 (\<lambda>p old. \<not> fst p \<longrightarrow> m_version (snd p) = m_version old) (zip ?f news) olds"
    using old_version len l by (auto simp: list_all2_conv_all_nth)
  note fields = slot_rel_list [OF rel l(2)]
  have hi: "m_version w < nv" if w: "w \<in> set news'" for w
  proof -
    obtain i where i: "i < length news" "w = news' ! i"
      using w l unfolding in_set_conv_nth by metis
    show ?thesis
      using slot [OF i(1)] old_version [OF i(1)] olds(2) len lo i
      by (cases "?f ! i") (auto simp: slot_rel_def intro: less_le_trans)
  qed
  have "m_id w < ni \<and> machine_wf w" if "w \<in> set news'" for w
  proof -
    have "m_id w \<in> m_id ` set news" "machine_wf w \<in> machine_wf ` set news"
      using arg_cong [OF fields(1), of set] arg_cong [OF fields(3), of set] that by auto
    then show ?thesis using news(1) by auto
  qed
  then have "config_ok ni nv news'"
    unfolding config_ok_def fields(1,2) using d [OF same_list olds] hi news(2,3) by blast
  moreover have "i = j \<and> dispatch news' i = dispatch olds i"
    if ij: "i < length news" "j < length news" "m_version (news' ! i) = m_version (olds ! j)" for i j
  proof -
    have "m_version (olds ! j) < ?lo"
      using olds(2) ij(2) len by simp
    then have "\<not> ?f ! i"
      using slot [OF ij(1)] ij(3) by (auto simp: slot_rel_def)
    moreover from this have "i = j"
      using slot [OF ij(1)] old_version [OF ij(1)] olds(1) ij len
      by (auto simp: slot_rel_def distinct_conv_nth)
    moreover have "dispatch olds i = dispatch news i"
      using \<open>\<not> ?f ! i\<close> flags_nth [OF len ij(1)] by (intro dispatch_same [OF s start]) simp
    ultimately show ?thesis
      using dispatch_slot_rel [OF rel l(2)] by simp
  qed
  moreover have "m_id (news' ! i) = m_id (news ! i)" if "i < length news" for i
    using fields(1) that by (metis l(1) nth_map)
  ultimately show thesis
    using that r l(1) lo by blast
qed

section \<open>Completing a proposed configuration\<close>

lemma counters_simps [simp]:
  "next_machine_id (counters log ni nv) = ni" "next_machine_version (counters log ni nv) = nv"
  "counters (counters log ni nv) ni' nv' = counters log ni' nv'"
  "old_n (counters log ni nv) = old_n log" "new_n (counters log ni nv) = new_n log"
  "l_machines (counters log ni nv) = l_machines log" "l_index (counters log ni nv) = l_index log"
  "l_type (counters log ni nv) = l_type log" "l_term (counters log ni nv) = l_term log"
  by (simp_all add: counters_def)

lemma machine_set_stability_fields [simp]:
  "m_id (machine_set_stability m a) = m_id m" "m_version (machine_set_stability m a) = m_version m"
  "machine_addr (machine_set_stability m a) = machine_addr m"
  "machine_wf (machine_set_stability m a) = machine_wf m"
  by (simp_all add: machine_set_stability_def Let_def machine_addr_def machine_wf_def)

lemma log_machine_init_ok:
  obtains m' where
    "log_machine_init log m = (counters log (next_machine_id log + 1) (next_machine_version log + 1), m')"
    "m_id m' = next_machine_id log" "m_version m' = next_machine_version log"
    "machine_addr m' = machine_addr m" "machine_wf m' = machine_wf m"
proof -
  let ?m = "machine_set_stability (m\<lparr>m_id := next_machine_id log\<rparr>) True"
  have f: "machine_addr (m\<lparr>m_id := i\<rparr>) = machine_addr m" "machine_wf (m\<lparr>m_id := i\<rparr>) = machine_wf m"
    "machine_addr (m\<lparr>m_version := v\<rparr>) = machine_addr m" "machine_wf (m\<lparr>m_version := v\<rparr>) = machine_wf m"
    for m i v by (simp_all add: machine_addr_def machine_wf_def)
  have "log_machine_init log m = (counters log (next_machine_id log + 1) (next_machine_version log + 1),
      ?m\<lparr>m_version := next_machine_version log\<rparr>)"
    by (simp add: log_machine_init_def log_machine_set_id_def log_machine_reset_version_def Let_def counters_def)
  then show thesis by (rule that) (simp_all add: f)
qed

lemma unat_next:
  "unat (v :: u64) + Suc k < 2 ^ 64 \<Longrightarrow> unat (v + 1) = Suc (unat v)"
  "unat (i :: u32) + Suc k < 2 ^ 32 \<Longrightarrow> unat (i + 1) = Suc (unat i)"
  by (simp_all add: unat_word_ariths)

text \<open>Machines initialised one after the other get the next identifiers and versions.\<close>

lemma init_machines_fresh:
  "init_machines log ms =
     (counters log (next_machine_id log + of_nat (length ms)) (next_machine_version log + of_nat (length ms)),
      fresh_machines log ms)"
proof (induction ms arbitrary: log)
  case Nil
  then show ?case by (simp add: fresh_machines_def counters_def)
next
  case (Cons m ms)
  have "fresh_machines log (m # ms) = snd (log_machine_init log m) # fresh_machines (fst (log_machine_init log m)) ms"
    unfolding fresh_machines_def length_Cons map_upt_Suc
    by (simp add: log_machine_init_def log_machine_set_id_def log_machine_reset_version_def machine_set_stability_def
        machine_stability_def Let_def ac_simps)
  then show ?case
    using Cons.IH [of "fst (log_machine_init log m)"]
    by (simp add: log_machine_init_def log_machine_set_id_def log_machine_reset_version_def counters_def Let_def ac_simps split_beta)
qed

lemma fresh_machines_addr: "map machine_addr (fresh_machines log ms) = map machine_addr ms"
  by (rule nth_equalityI) (simp_all add: fresh_machines_def machine_addr_def machine_set_stability_def Let_def)

lemma fresh_machines_ids:
  "map m_id (fresh_machines log ms) = map (\<lambda>i. next_machine_id log + of_nat i) [0..<length ms]"
  by (simp add: fresh_machines_def)

lemma init_machines_ok:
  assumes "unat (next_machine_id log) + length ms < 2 ^ 32" "unat (next_machine_version log) + length ms < 2 ^ 64"
  obtains ni nv ms' where "init_machines log ms = (counters log ni nv, ms')" "length ms' = length ms"
    "map machine_addr ms' = map machine_addr ms" "map machine_wf ms' = map machine_wf ms"
    "unat ni = unat (next_machine_id log) + length ms" "unat nv = unat (next_machine_version log) + length ms"
    "\<And>i. i < length ms \<Longrightarrow> unat (m_id (ms' ! i)) = unat (next_machine_id log) + i"
    "\<And>i. i < length ms \<Longrightarrow> unat (m_version (ms' ! i)) = unat (next_machine_version log) + i"
  using assms
proof (induction ms arbitrary: log thesis)
  case Nil
  show ?case
    by (rule Nil.prems(1) [of "next_machine_id log" "next_machine_version log" "[]"])
      (simp_all add: counters_def)
next
  case (Cons m ms)
  obtain m' where m: "log_machine_init log m = (counters log (next_machine_id log + 1) (next_machine_version log + 1), m')"
    "m_id m' = next_machine_id log" "m_version m' = next_machine_version log"
    "machine_addr m' = machine_addr m" "machine_wf m' = machine_wf m"
    by (rule log_machine_init_ok)
  let ?log = "counters log (next_machine_id log + 1) (next_machine_version log + 1)"
  have u: "unat (next_machine_id ?log) = Suc (unat (next_machine_id log))"
    "unat (next_machine_version ?log) = Suc (unat (next_machine_version log))"
    using Cons.prems(2,3) by (simp_all add: unat_word_ariths)
  show ?case
  proof (rule Cons.IH [of ?log])
    show "unat (next_machine_id ?log) + length ms < 2 ^ 32" "unat (next_machine_version ?log) + length ms < 2 ^ 64"
      unfolding u using Cons.prems(2,3) by simp_all
    fix ni nv ms'
    assume r: "init_machines ?log ms = (counters ?log ni nv, ms')" "length ms' = length ms"
      "map machine_addr ms' = map machine_addr ms" "map machine_wf ms' = map machine_wf ms"
      "unat ni = unat (next_machine_id ?log) + length ms" "unat nv = unat (next_machine_version ?log) + length ms"
      "\<And>i. i < length ms \<Longrightarrow> unat (m_id (ms' ! i)) = unat (next_machine_id ?log) + i"
      "\<And>i. i < length ms \<Longrightarrow> unat (m_version (ms' ! i)) = unat (next_machine_version ?log) + i"
    have "init_machines log (m # ms) = (counters log ni nv, m' # ms')"
      using m(1) r(1) by simp
    then show thesis
      by (rule Cons.prems(1)) (use m r u in \<open>auto simp: nth_Cons' simp del: counters_simps(1,2)\<close>)
  qed
qed

lemma ring_start_None:
  assumes "length olds = length news" "i < length news" "ch (olds ! i) (news ! i)"
  shows "ring_start ch av olds news \<noteq> None"
  using assms
proof (induction olds news arbitrary: i rule: list_induct2)
  case (Cons old olds new news)
  then show ?case by (cases i) auto
qed simp

lemma config_okD:
  assumes "config_ok ni nv ms"
  shows "distinct (map m_version ms)" "\<forall>m \<in> set ms. m_version m < nv" "\<forall>m \<in> set ms. machine_wf m \<and> m_id m < ni"
    "distinct (map machine_addr ms)" "distinct (map m_id ms)"
  using assms by (auto simp: config_ok_def)

lemma change_available_ok:
  assumes n: "old_n log = old_n old" "n = unat (old_n old)" "length olds = n" "length news = n"
    and ms: "l_machines old = olds @ rest" "l_machines log = xs @ news" "length xs = n"
    and ok: "config_ok (next_machine_id old) (next_machine_version old) olds"
    and st: "\<And>i. i < n \<Longrightarrow> \<exists>s. news ! i = (olds ! i)\<lparr>m_stability := s\<rparr>"
    and ch: "i < n" "availability_changed (olds ! i) (news ! i)"
    and room: "unat (next_machine_version old) + n < 2 ^ 64"
  obtains nv news' where
    "log_complete_change_available log old trm = Accept
       (log\<lparr>l_index := l_index old + 1, l_term := trm, l_version := l_version old,
          next_machine_id := next_machine_id old, next_machine_version := nv,
          l_type := (if l_type old = LOG_TYPE_OLD then LOG_TYPE_CHANGE_AVAILABLE else LOG_TYPE_GROW_CHANGE_AVAILABLE),
          distinct_machines_n := ucast (old_n old), l_machines := olds @ news'\<rparr>)"
    "length news' = n" "config_ok (next_machine_id old) nv news'" "next_machine_version old \<le> nv"
    "upgrade_safe olds news'" "map machine_available news' = map machine_available news"
proof -
  define log1 where "log1 = (log_complete_unstable log old trm)\<lparr>l_type := (if l_type old = LOG_TYPE_OLD
    then LOG_TYPE_CHANGE_AVAILABLE else LOG_TYPE_GROW_CHANGE_AVAILABLE)\<rparr>"
  let ?ch = availability_changed and ?av = "\<lambda>old new. machine_available old \<or> machine_available new"
    and ?av' = "\<lambda>old new. machine_available old"
  have l1: "l_machines log1 = olds @ news" "next_machine_version log1 = next_machine_version old" "old_n log1 = old_n old"
    using n ms by (simp_all add: log1_def log_complete_unstable_def machines_copy_def)
  have s: "unchanged_same ?ch ?av olds news" "unchanged_same ?ch ?av' olds news"
    using n st by (fastforce simp: unchanged_same_def list_all2_conv_all_nth availability_changed_def machine_id_def)+
  have len: "length olds = length news" using n by simp
  obtain u where u: "ring_start ?ch ?av olds news = Some u"
    using ring_start_None [OF len, of i ?ch ?av] ch n by auto
  have f: "map m_id news = map m_id olds" "map machine_addr news = map machine_addr olds"
    "map machine_wf news = map machine_wf olds" "map m_version news = map m_version olds"
    using n st by (fastforce simp: list_eq_iff_nth_eq machine_addr_def machine_wf_def)+
  have w: "m_id m \<in> m_id ` set olds \<and> machine_wf m \<in> machine_wf ` set olds" if "m \<in> set news" for m
    using arg_cong [OF f(1), of set] arg_cong [OF f(3), of set] that by auto
  note ok' = config_okD [OF ok]
  obtain u' nv news' where r: "ring_upgrade ?ch ?av' log1 olds news u = (u', log1\<lparr>next_machine_version := nv\<rparr>, news')"
    "length news' = length news" "config_ok (next_machine_id old) nv news'" "next_machine_version log1 \<le> nv"
    and d: "\<And>i j. i < length news \<Longrightarrow> j < length news \<Longrightarrow> m_version (news' ! i) = m_version (olds ! j) \<Longrightarrow>
      i = j \<and> dispatch news' i = dispatch olds i"
  proof (rule ring_upgrade_config [OF len _ s u])
    show "unat (next_machine_version log1) + length news < 2 ^ 64" using room l1 n by simp
    show "m_version (news ! i) = m_version (olds ! i)" if "i < length news" for i
      using f(4) that len by (metis nth_map)
    show "\<forall>m \<in> set news. machine_wf m \<and> m_id m < next_machine_id old"
      using w ok'(3) by fastforce
  qed (use ok' l1 f in simp_all)
  have av: "map machine_available news' = map machine_available news"
  proof -
    obtain nv' news'' where "ring_upgrade ?ch ?av' log1 olds news u = (upgrades ?ch ?av' olds news u, log1\<lparr>next_machine_version := nv'\<rparr>, news'')"
      "list_all2 (slot_rel (next_machine_version log1) nv') (zip (flags ?ch ?av' olds news u) news) news''"
      by (rule ring_upgrade_ok [OF len, of log1 ?ch ?av' u]) (use room l1 n in simp_all)
    with r(1) slot_rel_list(4) len show ?thesis by simp
  qed
  have "log_complete_change_available log old trm = Accept (log1\<lparr>next_machine_version := nv,
      l_machines := olds @ news', distinct_machines_n := ucast (old_n old)\<rparr>)"
    using u r(1) l1 n unfolding log_complete_change_available_def log1_def [symmetric] Let_def by simp
  then have "log_complete_change_available log old trm = Accept
       (log\<lparr>l_index := l_index old + 1, l_term := trm, l_version := l_version old,
          next_machine_id := next_machine_id old, next_machine_version := nv,
          l_type := (if l_type old = LOG_TYPE_OLD then LOG_TYPE_CHANGE_AVAILABLE else LOG_TYPE_GROW_CHANGE_AVAILABLE),
          distinct_machines_n := ucast (old_n old), l_machines := olds @ news'\<rparr>)"
    by (simp add: log1_def log_complete_unstable_def)
  then show thesis
    by (rule that) (use r d len l1 n av in \<open>auto simp: upgrade_safe_def\<close>)
qed

lemma adjust_matched_old:
  assumes a: "adjust_matched ms lo olds news ni news' keeps keeps'"
    and ms: "distinct (map m_id ms)" "\<forall>m \<in> set ms. machine_wf m \<and> m_id m < lo" "lo \<le> ni"
    and m: "m \<in> set ms" "old \<in> set ms" "machine_addr m = machine_addr new"
    and k: "keeps = k + (if m = old then 1 else 0)"
  shows "adjust_matched ms lo (old # olds) (new # news) ni (m # news') k keeps'"
proof -
  have inj: "x = y" if "x \<in> set ms" "y \<in> set ms" "m_id x = m_id y" for x y
    using ms(1) that by (auto simp: distinct_map inj_on_def)
  have "m_id m \<notin> m_id ` set news'" if d: "machine_addr m \<notin> machine_addr ` set news"
  proof
    assume "m_id m \<in> m_id ` set news'"
    then obtain w where w: "w \<in> set news'" "m_id w = m_id m" by auto
    then have "w \<in> set ms"
      using a ms(2) m(1) by (force simp: adjust_matched_def)
    then have "m = w" using inj m(1) w(2) by simp
    moreover have "machine_addr ` set news' = machine_addr ` set news"
      using a by (metis adjust_matched_def list.set_map)
    ultimately show False using w(1) d by blast
  qed
  moreover have "m_id m < ni" using ms(2,3) m(1) by (meson less_le_trans)
  moreover have "m_id old = m_id m \<longrightarrow> m = old" using inj [OF m(1,2)] by auto
  moreover have "machine_wf m" using ms(2) m(1) by blast
  moreover have "distinct (map m_id (m # news'))" if "distinct (map machine_addr (new # news))"
    using that a calculation(1) m(3) by (simp add: adjust_matched_def)
  moreover have "keeps' = k + of_nat (length (new # news))" if "m # news' = old # olds"
    using that a k by (simp add: adjust_matched_def)
  ultimately show ?thesis
    using a m(1,3) unfolding adjust_matched_def by simp
qed

lemma adjust_matched_new:
  assumes a: "adjust_matched ms (lo + 1) olds news ni news' keeps keeps'"
    and ms: "\<forall>m \<in> set ms. m_id m < lo" "lo < lo + 1" "lo + 1 \<le> ni"
    and m: "m_id m = lo" "machine_wf m" "machine_addr m = machine_addr new" "old \<in> set ms"
  shows "adjust_matched ms lo (old # olds) (new # news) ni (m # news') keeps keeps'"
proof -
  have *: "w \<in> set ms \<or> lo + 1 \<le> m_id w" if "w \<in> set news'" for w
    using a that by (auto simp: adjust_matched_def)
  have "m_id w \<noteq> lo" if "w \<in> set news'" for w
    using * [OF that] ms(1,2) by auto
  then have "lo \<notin> m_id ` set news'" by auto
  moreover have "w \<in> set ms \<or> lo \<le> m_id w" if "w \<in> set news'" for w
    using * [OF that] ms(2) by auto
  moreover have "m_id old < lo" "lo < ni" using ms m(4) by auto
  ultimately show ?thesis
    using a m by (auto simp: adjust_matched_def)
qed

lemma adjust_match_ok:
  assumes ms: "distinct (map machine_addr ms)" "distinct (map m_id ms)"
      "\<forall>m \<in> set ms. machine_wf m \<and> m_id m < next_machine_id log"
    and len: "length olds = length news"
    and olds: "set olds \<subseteq> set ms" and wf: "\<forall>m \<in> set news. machine_wf m"
    and room: "unat (next_machine_id log) + length news < 2 ^ 32" "unat (next_machine_version log) + length news < 2 ^ 64"
  obtains ni nv news' keeps' nn' where
    "adjust_match (sort_key machine_addr ms) log olds news keeps nn = (counters log ni nv, news', keeps', nn')"
    "adjust_matched ms (next_machine_id log) olds news ni news' keeps keeps'"
    "next_machine_id log \<le> ni" "next_machine_version log \<le> nv"
    "unat ni \<le> unat (next_machine_id log) + length news"
    "unat nv \<le> unat (next_machine_version log) + length news"
  using len ms(3) olds wf room
proof (induction olds news arbitrary: log keeps nn thesis rule: list_induct2)
  case Nil
  show ?case
    by (rule Nil.prems(1) [of "next_machine_id log" "next_machine_version log" "[]" keeps nn])
      (simp_all add: counters_def adjust_matched_def)
next
  case (Cons old olds new news)
  have old: "old \<in> set ms" "set olds \<subseteq> set ms" "machine_wf new" "machine_wf old" "\<forall>m \<in> set news. machine_wf m"
    using Cons.prems by auto
  have room: "unat (next_machine_id log) + length news < 2 ^ 32" "unat (next_machine_version log) + length news < 2 ^ 64"
    using Cons.prems(5,6) by simp_all
  note search = machines_search_addr_ok [OF old(3), of "sort_key machine_addr ms", OF _ sort_by_addr_distinct [OF ms(1)]]
  note IH = Cons.IH [OF _ _ old(2,5)]
  have found: thesis
    if m: "m \<in> set ms" "machine_addr m = machine_addr new" and k: "keeps' = keeps + (if m = old then 1 else 0)"
      and e: "\<And>log' news' k' n'. adjust_match (sort_key machine_addr ms) log olds news keeps' nn = (log', news', k', n') \<Longrightarrow>
        adjust_match (sort_key machine_addr ms) log (old # olds) (new # news) keeps nn = (log', m # news', k', n')"
    for m keeps'
  proof (rule IH [OF _ Cons.prems(2) room, of keeps' nn])
    fix ni nv news' k' n'
    assume a: "adjust_match (sort_key machine_addr ms) log olds news keeps' nn = (counters log ni nv, news', k', n')"
      "adjust_matched ms (next_machine_id log) olds news ni news' keeps' k'"
      "next_machine_id log \<le> ni" "next_machine_version log \<le> nv"
      "unat ni \<le> unat (next_machine_id log) + length news" "unat nv \<le> unat (next_machine_version log) + length news"
    show thesis
      by (rule Cons.prems(1) [OF e [OF a(1)] adjust_matched_old [OF a(2) ms(2) Cons.prems(2) a(3) m(1) old(1) m(2) k]])
        (use a in simp_all)
  qed
  show ?case
  proof (cases "machine_addr_cmp new old = 0")
    case True
    then show ?thesis
      using found [of old "keeps + 1"] old machine_addr_cmp(1) [OF old(3,4)] by (simp add: machine_copy_def)
  next
    case differ: False
    show ?thesis
    proof (cases "machines_search_addr new (sort_key machine_addr ms) (length ms)")
      case (Some m)
      have m: "m \<in> set ms" "machine_addr m = machine_addr new"
        using search(1) Some Cons.prems(2) by auto
      then have "m \<noteq> old"
        using differ machine_addr_cmp(1) [OF old(3,4)] by auto
      then show ?thesis
        using found [OF m, of keeps] differ Some by (simp add: machine_copy_def)
    next
      case None
      let ?i = "next_machine_id log" and ?v = "next_machine_version log"
      let ?log = "counters log (?i + 1) (?v + 1)"
      obtain m where m: "log_machine_init log new = (?log, m)" "m_id m = ?i" "m_version m = ?v"
        "machine_addr m = machine_addr new" "machine_wf m = machine_wf new"
        by (rule log_machine_init_ok)
      have u: "unat (?i + 1) = Suc (unat ?i)" "unat (?v + 1) = Suc (unat ?v)"
        using Cons.prems(5,6) by (simp_all add: unat_word_ariths)
      then have lt: "?i < ?i + 1" "?v < ?v + 1" by (simp_all add: word_less_nat_alt)
      show ?thesis
      proof (rule IH [of ?log keeps "nn + 1"])
        show "\<forall>m \<in> set ms. machine_wf m \<and> m_id m < next_machine_id ?log"
          using Cons.prems(2) lt(1) by (auto intro: less_trans)
        show "unat (next_machine_id ?log) + length news < 2 ^ 32" "unat (next_machine_version ?log) + length news < 2 ^ 64"
          using u Cons.prems(5,6) by simp_all
        fix ni nv news' k' n'
        assume a: "adjust_match (sort_key machine_addr ms) ?log olds news keeps (nn + 1) = (counters ?log ni nv, news', k', n')"
          "adjust_matched ms (next_machine_id ?log) olds news ni news' keeps k'"
          "next_machine_id ?log \<le> ni" "next_machine_version ?log \<le> nv"
          "unat ni \<le> unat (next_machine_id ?log) + length news" "unat nv \<le> unat (next_machine_version ?log) + length news"
        have e: "adjust_match (sort_key machine_addr ms) log (old # olds) (new # news) keeps nn
            = (counters log ni nv, m # news', k', n')"
          using differ None m(1) a(1) by simp
        have am: "adjust_matched ms ?i (old # olds) (new # news) ni (m # news') keeps k'"
          by (rule adjust_matched_new [OF a(2) [simplified] _ lt(1)]) (use a(3) m old Cons.prems(2) in simp_all)
        show thesis
          by (rule Cons.prems(1) [OF e am]) (use a u lt in \<open>auto intro: less_imp_le less_le_trans\<close>)
      qed
    qed
  qed
qed

lemma sorted_by_addr_duplate:
  assumes "\<forall>m \<in> set ms. machine_wf m"
  shows "sorted_by_addr_duplate (sort_key machine_addr ms) \<longleftrightarrow> \<not> distinct (map machine_addr ms)"
proof -
  have "sorted_by_addr_duplate xs \<longleftrightarrow> \<not> distinct (map machine_addr xs)"
    if "sorted (map machine_addr xs)" "\<forall>m \<in> set xs. machine_wf m" for xs
    using that
  proof (induction xs rule: sorted_by_addr_duplate.induct)
    case (1 a b ms)
    then have "sorted_by_addr_duplate (b # ms) \<longleftrightarrow> \<not> distinct (map machine_addr (b # ms))" by simp
    moreover have "machine_addr_cmp a b = 0 \<longleftrightarrow> machine_addr a = machine_addr b"
      using 1 machine_addr_cmp(1) by simp
    moreover have "machine_addr a \<notin> machine_addr ` set ms" if "machine_addr a \<noteq> machine_addr b"
      using 1(2) that by force
    ultimately show ?case by auto
  qed auto
  from this [of "sort_key machine_addr ms"] show ?thesis
    using assms by (simp add: distinct_map)
qed

lemma unchanged_sameI:
  assumes "length olds = length news"
    and "\<And>i. i < length news \<Longrightarrow> \<not> ch (olds ! i) (news ! i) \<Longrightarrow> news ! i = olds ! i"
    and "\<And>m. av m m = machine_available m"
  shows "unchanged_same ch av olds news"
  unfolding unchanged_same_def list_all2_conv_all_nth
proof (intro conjI allI impI assms(1))
  fix i assume "i < length olds" and c: "\<not> ch (olds ! i) (news ! i)"
  then have "news ! i = olds ! i" using assms(1) by (intro assms(2)) simp_all
  then show "machine_id (olds ! i) = machine_id (news ! i)"
    "machine_available (olds ! i) = machine_available (news ! i)"
    "av (olds ! i) (news ! i) = machine_available (olds ! i)"
    using assms(3) by simp_all
qed

lemma adjust_ok:
  assumes n: "old_n log = old_n old" "n = unat (old_n old)" "length olds = n" "length news = n"
    and ms: "l_machines old = olds @ rest" "l_machines log = olds @ news"
    and ok: "config_ok (next_machine_id log) (next_machine_version log) olds" and wf: "\<forall>m \<in> set news. machine_wf m"
    and room: "unat (next_machine_id log) + n < 2 ^ 32" "unat (next_machine_version log) + 2 * n < 2 ^ 64"
    and acc: "log_complete_adjust log old \<noteq> Reject"
  obtains ni nv d news' where
    "log_complete_adjust log old = Accept ((counters log ni nv)\<lparr>l_machines := olds @ news', distinct_machines_n := d\<rparr>)"
    "length news' = n" "config_ok ni nv news'" "next_machine_id log \<le> ni" "next_machine_version log \<le> nv"
    "upgrade_safe olds news'" "map machine_addr news' = map machine_addr news"
proof -
  let ?av = "\<lambda>old new. machine_available old" and ?av' = "\<lambda>old new. machine_available new"
  note ok' = config_okD [OF ok]
  have len: "length olds = length news" using n by simp
  obtain ni nv news' keeps nn where
    a: "adjust_match (sort_key machine_addr olds) log olds news 0 0 = (counters log ni nv, news', keeps, nn)"
    and am: "adjust_matched olds (next_machine_id log) olds news ni news' 0 keeps"
    and le: "next_machine_id log \<le> ni" "next_machine_version log \<le> nv"
      "unat nv \<le> unat (next_machine_version log) + length news"
    by (rule adjust_match_ok [OF ok'(4,5,3) len subset_refl wf, of 0 0]) (use room n in simp_all)
  have l: "length news' = length news" using am by (metis adjust_matched_def length_map)
  have wf': "\<forall>m \<in> set news'. machine_wf m \<and> m_id m < ni" using am by (simp add: adjust_matched_def)
  have e: "log_complete_adjust log old = (if keeps = old_n old \<or> keeps < old_n old div 2 then Reject
     else if sorted_by_addr_duplate (sort_key machine_addr news') then Reject
     else case ring_start id_changed ?av olds news' of None \<Rightarrow> Undefined
       | Some upgrade \<Rightarrow> let (_, log, new_machines) = ring_upgrade id_changed ?av' (counters log ni nv) olds news' upgrade
          in Accept (log\<lparr>l_machines := olds @ new_machines, distinct_machines_n := ucast (old_n log) + ucast nn\<rparr>))"
  proof -
    have t: "take (unat (old_n log)) (l_machines old) = olds" using n ms by simp
    show ?thesis
      using n ms a l ok'(3) wf' unfolding log_complete_adjust_def Let_def t by (simp add: machines_sort_by_addr_wf)
  qed
  have k: "keeps \<noteq> old_n old" and dup: "\<not> sorted_by_addr_duplate (sort_key machine_addr news')"
    using acc e by (auto split: if_splits)
  have dist: "distinct (map machine_addr news')" "distinct (map m_id news')"
    using dup sorted_by_addr_duplate [of news'] wf' am by (auto simp: adjust_matched_def)
  have "news' \<noteq> olds"
    using k am n by (auto simp: adjust_matched_def)
  then obtain i where i: "i < length news'" "news' ! i \<noteq> olds ! i"
    using l len by (metis nth_equalityI)
  have same: "news' ! i = olds ! i" if "i < length news'" "\<not> id_changed (olds ! i) (news' ! i)" for i
  proof -
    have "m_id (olds ! i) = m_id (news' ! i) \<longrightarrow> news' ! i = olds ! i"
      using am that(1) l len unfolding adjust_matched_def by (auto simp: list_all2_conv_all_nth)
    then show ?thesis using that(2) by (simp add: id_changed_def machine_id_def)
  qed
  have s: "unchanged_same id_changed ?av olds news'" "unchanged_same id_changed ?av' olds news'"
    using unchanged_sameI [OF _ same] l len by auto
  obtain u where u: "ring_start id_changed ?av olds news' = Some u"
    using ring_start_None [of olds news' i id_changed ?av] i same len l by auto
  obtain u' nv' news'' where
    r: "ring_upgrade id_changed ?av' (counters log ni nv) olds news' u = (u', (counters log ni nv)\<lparr>next_machine_version := nv'\<rparr>, news'')"
      "length news'' = length news'" "config_ok ni nv' news''" "next_machine_version (counters log ni nv) \<le> nv'"
    and d: "\<And>i j. i < length news' \<Longrightarrow> j < length news' \<Longrightarrow> m_version (news'' ! i) = m_version (olds ! j) \<Longrightarrow>
      i = j \<and> dispatch news'' i = dispatch olds i"
  proof (rule ring_upgrade_config [OF _ _ s u])
    show "unat (next_machine_version (counters log ni nv)) + length news' < 2 ^ 64"
      using room(2) le(3) l n by simp
    show "\<forall>m \<in> set olds. m_version m < next_machine_version (counters log ni nv)"
      using ok'(2) le(2) by (auto intro: less_le_trans)
    show "\<forall>m \<in> set news'. machine_wf m \<and> m_id m < ni" by (rule wf')
    show "m_version (news' ! i) = m_version (olds ! i)" if "i < length news'" "\<not> id_changed (olds ! i) (news' ! i)" for i
      using same [OF that] by simp
  qed (use ok' dist l len in simp_all)
  have addr: "map machine_addr news'' = map machine_addr news"
  proof -
    obtain nv2 news2 where "ring_upgrade id_changed ?av' (counters log ni nv) olds news' u
        = (upgrades id_changed ?av' olds news' u, (counters log ni nv)\<lparr>next_machine_version := nv2\<rparr>, news2)"
      "list_all2 (slot_rel nv nv2) (zip (flags id_changed ?av' olds news' u) news') news2"
      by (rule ring_upgrade_ok [of olds news' "counters log ni nv" id_changed ?av' u])
        (use room le l len n in simp_all)
    with r(1) slot_rel_list(2) len l am show ?thesis by (simp add: adjust_matched_def)
  qed
  have "log_complete_adjust log old = Accept ((counters log ni nv')
      \<lparr>l_machines := olds @ news'', distinct_machines_n := ucast (old_n log) + ucast nn\<rparr>)"
    using acc u r(1) n unfolding e by (auto simp: counters_def split: if_splits)
  then show thesis
    by (rule that) (use r d len l n le addr in \<open>auto simp: upgrade_safe_def intro: order_trans\<close>)
qed

lemma distinct_map_perm: "mset xs = mset ys \<Longrightarrow> distinct (map f xs) \<longleftrightarrow> distinct (map f ys)"
  by (metis mset_eq_imp_distinct_iff mset_map)

lemma config_ok_perm:
  assumes "mset ms = mset ms'"
  shows "config_ok ni nv ms \<longleftrightarrow> config_ok ni nv ms'"
  unfolding config_ok_def mset_eq_setD [OF assms] distinct_map_perm [OF assms] ..

lemma config_ok_mono:
  "config_ok ni nv ms \<Longrightarrow> ni \<le> ni' \<Longrightarrow> nv \<le> nv' \<Longrightarrow> config_ok ni' nv' ms"
  by (auto simp: config_ok_def intro: less_le_trans)

lemma distinct_unat_map:
  assumes "\<And>i. i < length xs \<Longrightarrow> unat (f (xs ! i)) = b + i"
  shows "distinct (map f xs)"
  using assms by (auto simp: distinct_conv_nth) (metis add_left_cancel)

text \<open>Freshly initialised machines after a configuration.\<close>

lemma init_machines_config:
  assumes ok: "config_ok (next_machine_id log) (next_machine_version log) olds"
    and wf: "\<forall>m \<in> set ms. machine_wf m"
    and room: "unat (next_machine_id log) + length ms < 2 ^ 32" "unat (next_machine_version log) + length ms < 2 ^ 64"
  obtains ni nv ms' where "init_machines log ms = (counters log ni nv, ms')" "length ms' = length ms"
    "map machine_addr ms' = map machine_addr ms" "\<forall>m \<in> set ms'. machine_wf m"
    "next_machine_id log \<le> ni" "next_machine_version log \<le> nv"
    "distinct (map machine_addr (olds @ ms)) \<Longrightarrow> config_ok ni nv (olds @ ms')"
proof -
  obtain ni nv ms' where r: "init_machines log ms = (counters log ni nv, ms')" "length ms' = length ms"
    "map machine_addr ms' = map machine_addr ms" "map machine_wf ms' = map machine_wf ms"
    and u: "unat ni = unat (next_machine_id log) + length ms" "unat nv = unat (next_machine_version log) + length ms"
    and i: "\<And>i. i < length ms \<Longrightarrow> unat (m_id (ms' ! i)) = unat (next_machine_id log) + i"
    and v: "\<And>i. i < length ms \<Longrightarrow> unat (m_version (ms' ! i)) = unat (next_machine_version log) + i"
    by (rule init_machines_ok [OF room]) blast
  have le: "next_machine_id log \<le> ni" "next_machine_version log \<le> nv"
    using u by (simp_all add: word_le_nat_alt)
  have wf': "machine_wf m" if "m \<in> set ms'" for m
    using arg_cong [OF r(4), of set] wf that by auto
  have b: "next_machine_id log \<le> m_id m \<and> m_id m < ni" "next_machine_version log \<le> m_version m \<and> m_version m < nv"
    if m: "m \<in> set ms'" for m
  proof -
    obtain k where k: "k < length ms" "m = ms' ! k" using m r(2) by (metis in_set_conv_nth)
    show "next_machine_id log \<le> m_id m \<and> m_id m < ni"
      "next_machine_version log \<le> m_version m \<and> m_version m < nv"
      using i [OF k(1)] v [OF k(1)] k u by (simp_all add: word_le_nat_alt word_less_nat_alt)
  qed
  have "config_ok ni nv (olds @ ms')" if d: "distinct (map machine_addr (olds @ ms))"
  proof -
    have ids: "distinct (map m_id ms')" "distinct (map m_version ms')"
      using distinct_unat_map i v r(2) by metis+
    have "machine_addr ` set ms' = machine_addr ` set ms"
      using r(3) by (metis list.set_map)
    moreover have "m_id ` set olds \<inter> m_id ` set ms' = {}" "m_version ` set olds \<inter> m_version ` set ms' = {}"
      using b config_okD(2,3) [OF ok] by fastforce+
    ultimately show ?thesis
      using d ids wf' b r(3) config_ok_mono [OF ok le] by (simp add: config_ok_def ball_Un)
  qed
  with r le wf' show thesis by (intro that) auto
qed

lemma log_complete_init_ok:
  assumes n: "length (l_machines log) = unat (old_n log)" and wf: "\<forall>m \<in> set (l_machines log). machine_wf m"
    and room: "unat (next_machine_id log) + unat (old_n log) < 2 ^ 32"
      "unat (next_machine_version log) + unat (old_n log) < 2 ^ 64"
  obtains ni nv ms' where
    "log_complete_init log = (distinct (map machine_addr (l_machines log)), (counters log ni nv)\<lparr>l_machines := ms'\<rparr>)"
    "length ms' = unat (old_n log)" "sorted (map machine_addr ms')"
    "mset (map machine_addr ms') = mset (map machine_addr (l_machines log))"
    "distinct (map machine_addr (l_machines log)) \<Longrightarrow> config_ok ni nv ms'"
proof -
  let ?ms = "l_machines log"
  have e: "config_ok (next_machine_id log) (next_machine_version log) []" by (simp add: config_ok_def)
  obtain ni nv ms' where r: "init_machines log ?ms = (counters log ni nv, ms')" "length ms' = length ?ms"
    "map machine_addr ms' = map machine_addr ?ms" "\<forall>m \<in> set ms'. machine_wf m"
    and ok: "distinct (map machine_addr ([] @ ?ms)) \<Longrightarrow> config_ok ni nv ([] @ ms')"
    by (rule init_machines_config [OF e wf]) (use room n in simp_all)
  have "mset (map machine_addr (sort_key machine_addr ms')) = mset (map machine_addr ?ms)"
    using r(3) by (metis mset_map mset_sort)
  moreover have "log_complete_init log = (distinct (map machine_addr ?ms),
      (counters log ni nv)\<lparr>l_machines := sort_key machine_addr ms'\<rparr>)"
    using r n sorted_by_addr_duplate [OF r(4)]
    by (simp add: log_complete_init_def Let_def machines_sort_by_addr_wf)
  ultimately show thesis
    using that [of "sort_key machine_addr ms'" ni nv] ok n r(2) config_ok_perm [of "sort_key machine_addr ms'" ms']
    by simp
qed

lemma merge_disjoint:
  assumes "\<forall>m \<in> set as \<union> set bs. machine_wf m" "sorted (map machine_addr as)" "sorted (map machine_addr bs)"
  shows "merge_disjoint as bs \<longleftrightarrow> machine_addr ` set as \<inter> machine_addr ` set bs = {}"
  using assms
proof (induction as bs rule: merge_disjoint.induct)
  case (1 a as b bs)
  have wf: "machine_wf a" "machine_wf b" using 1(3) by auto
  note cmp = machine_addr_cmp [OF wf]
  consider "machine_addr a < machine_addr b" | "machine_addr b < machine_addr a" | "machine_addr a = machine_addr b"
    by fastforce
  then show ?case
  proof cases
    case 1
    then have "machine_addr a \<notin> machine_addr ` set (b # bs)"
      using "1.prems"(3) by auto
    with 1 cmp "1.IH"(1) "1.prems" show ?thesis by (simp add: Let_def)
  next
    case 2
    then have "machine_addr b \<notin> machine_addr ` set (a # as)"
      using "1.prems"(2) by auto
    with 2 cmp "1.IH"(2) "1.prems" show ?thesis by (auto simp: Let_def)
  next
    case 3
    with cmp show ?thesis by (auto simp: Let_def)
  qed
qed auto

lemma grow_ok:
  assumes n: "n = unat (old_n log)" "length olds = n" "length pre = n" "length app = n"
    and ms: "l_machines log = olds @ pre @ app"
    and ok: "config_ok (next_machine_id log) (next_machine_version log) olds"
    and wf: "\<forall>m \<in> set (pre @ app). machine_wf m"
    and room: "unat (next_machine_id log) + n < 2 ^ 32" "unat (next_machine_version log) + n < 2 ^ 64"
  obtains ni nv app' where
    "log_complete_grow log = (if pre = olds \<and> distinct (map machine_addr (olds @ app))
       then Accept ((counters log ni nv)\<lparr>l_machines := olds @ olds @ app', distinct_machines_n := ucast (new_n log)\<rparr>)
       else Reject)"
    "length app' = n" "next_machine_id log \<le> ni" "next_machine_version log \<le> nv"
    "distinct (map machine_addr (olds @ app)) \<Longrightarrow> config_ok ni nv (olds @ app')"
    "ni = next_machine_id log + of_nat n" "nv = next_machine_version log + of_nat n"
    "app' = fresh_machines log (sort_key machine_addr app)"
proof -
  let ?s = "sort_key machine_addr app"
  note ok' = config_okD [OF ok]
  obtain ni nv app' where r: "init_machines log ?s = (counters log ni nv, app')" "length app' = length ?s"
    "next_machine_id log \<le> ni" "next_machine_version log \<le> nv"
    and new: "distinct (map machine_addr (olds @ ?s)) \<Longrightarrow> config_ok ni nv (olds @ app')"
    by (rule init_machines_config [OF ok, of ?s]) (use room n wf in \<open>simp_all add: length_sort\<close>)
  have p: "distinct (map machine_addr (olds @ ?s)) \<longleftrightarrow> distinct (map machine_addr (olds @ app))"
    by (rule distinct_map_perm) simp
  have cmp: "machines_cmp (pre @ app) (olds @ pre @ app) n = 0 \<longleftrightarrow> pre = olds"
    using machines_cmp_eq [of n "pre @ app" "olds @ pre @ app"] n ok'(3) wf by auto
  have dup: "sorted_by_addr_duplate ?s \<longleftrightarrow> \<not> distinct (map machine_addr app)"
    using wf by (intro sorted_by_addr_duplate) simp
  have disj: "merge_disjoint (sort_key machine_addr olds) ?s \<longleftrightarrow> machine_addr ` set olds \<inter> machine_addr ` set app = {}"
    using merge_disjoint [of "sort_key machine_addr olds" ?s] wf ok'(3) by auto
  have "log_complete_grow log = (if pre = olds \<and> distinct (map machine_addr (olds @ app))
     then Accept ((counters log ni nv)\<lparr>l_machines := olds @ olds @ app', distinct_machines_n := ucast (new_n log)\<rparr>)
     else Reject)"
    using n ms cmp dup disj r(1) ok'(3,4) wf
    by (auto simp: log_complete_grow_def Let_def machines_sort_by_addr_wf)
  moreover have "ni = next_machine_id log + of_nat n" "nv = next_machine_version log + of_nat n" "app' = fresh_machines log ?s"
    using r(1) n unfolding init_machines_fresh by (auto simp: counters_def length_sort dest: arg_cong [where f = next_machine_id] arg_cong [where f = next_machine_version])
  ultimately show thesis
    by (intro that) (use r new n p in simp_all)
qed

lemma shrink_ok:
  assumes n: "n = unat (old_n log)" "k = unat (new_n log)" "length olds = n" "length news = k" "k \<le> n"
    and ms: "l_machines log = olds @ news" and wf: "\<forall>m \<in> set (olds @ news). machine_wf m"
  shows "log_complete_shrink log =
    (if news = take k olds then Accept (log\<lparr>distinct_machines_n := ucast (old_n log)\<rparr>) else Reject)"
proof -
  have "machines_cmp (olds @ news) news k = 0 \<longleftrightarrow> take k olds = news"
    using machines_cmp_eq [of k "olds @ news" news] wf n by (auto dest: in_set_takeD)
  then show ?thesis
    using n ms by (auto simp: log_complete_shrink_def)
qed

section \<open>Every log of a history is well formed\<close>

lemma reset_versions_ok:
  assumes "k \<le> length ms" "unat (next_machine_version log) + k < 2 ^ 64"
  obtains nv ms' where "reset_versions log ms k = (log\<lparr>next_machine_version := nv\<rparr>, ms')" "length ms' = length ms"
    "unat nv = unat (next_machine_version log) + k"
    "\<And>i. i < length ms \<Longrightarrow> ms' ! i = (ms ! i)\<lparr>m_version := (if i < k then next_machine_version log + of_nat i else m_version (ms ! i))\<rparr>"
  using assms
proof (induction log ms k arbitrary: thesis rule: reset_versions.induct)
  case (1 log ms)
  show ?case
    by (rule 1(1) [of "next_machine_version log" ms]) simp_all
next
  case (3 log m ms k)
  let ?log = "log\<lparr>next_machine_version := next_machine_version log + 1\<rparr>" and ?m = "m\<lparr>m_version := next_machine_version log\<rparr>"
  have v: "unat (next_machine_version log + 1) = Suc (unat (next_machine_version log))"
    using "3.prems"(3) by (simp add: unat_word_ariths)
  obtain nv ms' where r: "reset_versions ?log ms k = (?log\<lparr>next_machine_version := nv\<rparr>, ms')" "length ms' = length ms"
    "unat nv = unat (next_machine_version ?log) + k"
    and i: "\<And>i. i < length ms \<Longrightarrow> ms' ! i = (ms ! i)\<lparr>m_version := (if i < k then next_machine_version ?log + of_nat i else m_version (ms ! i))\<rparr>"
    by (rule "3.IH" [where x = "(?log, ?m)" and xa = ?log and y = ?m])
      (use "3.prems"(2,3) v in \<open>auto simp: log_machine_reset_version_def\<close>)
  show ?case
    by (rule "3.prems"(1) [of nv "?m # ms'"])
      (use r i v in \<open>auto simp: log_machine_reset_version_def nth_Cons' of_nat_diff\<close>)
qed auto

lemma grow_complete_config:
  assumes ok: "config_ok ni lo ms" and len: "length ms' = length ms" and k: "k \<le> length ms"
    and hi: "unat nv = unat lo + k" "unat lo + k < 2 ^ 64"
    and nth: "\<And>i. i < length ms \<Longrightarrow> ms' ! i = (ms ! i)\<lparr>m_version := (if i < k then lo + of_nat i else m_version (ms ! i))\<rparr>"
  shows "config_ok ni nv ms'"
proof -
  note ok' = config_okD [OF ok]
  have f: "map machine_addr ms' = map machine_addr ms" "map m_id ms' = map m_id ms" "map machine_wf ms' = map machine_wf ms"
    using len nth by (auto simp: list_eq_iff_nth_eq machine_addr_def machine_wf_def)
  have u: "unat (lo + of_nat i) = unat lo + i" if "i < k" for i
    using that hi by (simp add: unat_word_ariths unat_of_nat_u64)
  have v: "unat (m_version (ms' ! i)) = (if i < k then unat lo + i else unat (m_version (ms ! i)))" if "i < length ms" for i
    using nth [OF that] u by simp
  have low: "unat (m_version (ms ! i)) < unat lo" if "i < length ms" for i
    using ok'(2) that by (simp add: word_less_nat_alt)
  have neq: "unat (m_version (ms ! i)) \<noteq> unat (m_version (ms ! j))" if "i < length ms" "j < length ms" "i \<noteq> j" for i j
    using ok'(1) that by (simp add: distinct_conv_nth word_unat_eq_iff)
  have "m_version (ms' ! i) \<noteq> m_version (ms' ! j)" if ij: "i < length ms" "j < length ms" "i \<noteq> j" for i j
    using v [OF ij(1)] v [OF ij(2)] low [OF ij(1)] low [OF ij(2)] neq [OF ij] ij(3)
    by (metis add_left_cancel not_add_less1)
  then have "distinct (map m_version ms')"
    using len by (simp add: distinct_conv_nth)
  moreover have "m_version m < nv" if m: "m \<in> set ms'" for m
  proof -
    obtain i where "i < length ms" "m = ms' ! i" using m len by (metis in_set_conv_nth)
    with v [of i] low [of i] hi show ?thesis by (auto simp: word_less_nat_alt split: if_splits)
  qed
  moreover have "m_id m < ni \<and> machine_wf m" if m: "m \<in> set ms'" for m
  proof -
    have "m_id m \<in> m_id ` set ms" "machine_wf m \<in> machine_wf ` set ms"
      using arg_cong [OF f(2), of set] arg_cong [OF f(3), of set] m by auto
    then show ?thesis using ok'(3) by auto
  qed
  ultimately show ?thesis
    unfolding config_ok_def f(1,2) using ok'(4,5) by blast
qed

lemma alloc_sized_machines:
  fixes n :: u32
  assumes "alloc_sized alloc" "log_malloc alloc (MACHINE_SIZE * ucast n) = Some log"
  shows "length (l_machines log) = unat n"
proof -
  obtain b where b: "alloc (LOG_SIZE + MACHINE_SIZE * ucast n) = Some b" "log = b\<lparr>refcount := 0\<rparr>"
    using assms(2) by (auto simp: log_malloc_def)
  have "unat (LOG_SIZE + MACHINE_SIZE * ucast n :: u64) = 64 + 40 * unat n"
  proof -
    have n: "unat n < 4294967296" using unat_bound [of n] by simp
    then have u: "unat (ucast n :: u64) = unat n" by (simp add: unsigned_ucast_eq take_bit_eq_mod)
    show ?thesis unfolding LOG_SIZE_def MACHINE_SIZE_def unat_word_ariths u using n by simp
  qed
  then show ?thesis
    using assms(1) b by (fastforce simp: alloc_sized_def LOG_SIZE_def)
qed

lemma log_malloc_stable_ok:
  assumes "alloc_sized alloc" "log_ok old" "log_malloc_stable alloc old = Some log"
  shows "log_ok log" "l_index log = l_index old + 1" "old_n log = new_n old" "new_n log = 0"
    "l_machines log = drop (unat (old_n old)) (l_machines old)"
    "l_type log = l_type old AND NOT LOG_TYPE_UNSTABLE_MASK" "l_version log = l_version old + 1"
    "next_machine_version log = next_machine_version old" "next_machine_id log = next_machine_id old"
proof -
  obtain b where b: "log_malloc alloc (MACHINE_SIZE * ucast (new_n old)) = Some b"
    using assms(3) by (auto simp: log_malloc_stable_def)
  have l: "length (l_machines b) = unat (new_n old)"
    by (rule alloc_sized_machines [OF assms(1) b])
  have d: "length (drop (unat (old_n old)) (l_machines old)) = unat (new_n old)"
    using assms(2) by (simp add: log_ok_def)
  show m: "l_machines log = drop (unat (old_n old)) (l_machines old)" and "l_index log = l_index old + 1"
    and o: "old_n log = new_n old" and n: "new_n log = 0"
    and "l_type log = l_type old AND NOT LOG_TYPE_UNSTABLE_MASK" "l_version log = l_version old + 1"
    and c: "next_machine_version log = next_machine_version old" "next_machine_id log = next_machine_id old"
    using assms(3) b l d by (auto simp: log_malloc_stable_def machines_copy_def)
  show "log_ok log"
    using assms(2) d unfolding log_ok_def m o n c by (simp add: config_ok_def)
qed

lemma log_grow_complete_ok:
  assumes a: "alloc_sized alloc" and old: "log_ok old" "counters_room old"
    and e: "log_malloc_grow_complete alloc old trm = Some log"
  shows "log_ok log" "l_index log = l_index old + 1"
proof -
  let ?n = "unat (old_n old)" and ?olds = "take (unat (old_n old)) (l_machines old)" and ?k = "unat (drop_bit 1 (old_n old))"
  obtain b where b: "log_malloc_unstable alloc (old_n old) (old_n old) = Some b"
    using e by (auto simp: log_malloc_grow_complete_def Let_def)
  then obtain b' where b': "log_malloc alloc (MACHINE_SIZE * ucast (old_n old + old_n old)) = Some b'"
    "b = b'\<lparr>old_n := old_n old, new_n := old_n old\<rparr>"
    by (auto simp: log_malloc_unstable_def)
  have n: "unat (old_n old + old_n old) = ?n + ?n"
    using old(2) by (simp add: counters_room_def unat_word_ariths)
  have l: "length (l_machines b) = ?n + ?n" "length ?olds = ?n"
    using alloc_sized_machines [OF a b'(1)] b'(2) n old(1) by (simp_all add: log_ok_def)
  let ?log = "(log_complete_unstable b old trm)\<lparr>l_type := LOG_TYPE_GROW_COMPLETE\<rparr>"
  have m: "l_machines ?log = ?olds @ drop ?n (l_machines b)" "next_machine_version ?log = next_machine_version old"
    by (simp_all add: log_complete_unstable_def machines_copy_def)
  have new: "machines_copy (drop ?n (l_machines ?log)) (l_machines ?log) ?n = ?olds"
    unfolding m(1) machines_copy_def using l by simp
  have k: "?k \<le> length ?olds" "unat (next_machine_version old) + ?k < 2 ^ 64"
    using l(2) old(2) by (auto simp: counters_room_def drop_bit_eq_div unat_div_distrib)
  obtain nv ms' where r: "reset_versions ?log ?olds ?k = (?log\<lparr>next_machine_version := nv\<rparr>, ms')" "length ms' = length ?olds"
    "unat nv = unat (next_machine_version old) + ?k"
    and i: "\<And>i. i < length ?olds \<Longrightarrow>
      ms' ! i = (?olds ! i)\<lparr>m_version := (if i < ?k then next_machine_version old + of_nat i else m_version (?olds ! i))\<rparr>"
    by (rule reset_versions_ok [of ?k ?olds ?log]) (use k m(2) in simp_all)
  have log: "log = ?log\<lparr>next_machine_version := nv, l_machines := ?olds @ ms', distinct_machines_n := ucast (old_n old)\<rparr>"
    using e b new r(1) m(1) l(2) by (simp add: log_malloc_grow_complete_def Let_def)
  have ok: "config_ok (next_machine_id old) (next_machine_version old) ?olds" using old(1) by (simp add: log_ok_def)
  have "config_ok (next_machine_id old) nv ms'"
    by (rule grow_complete_config [OF ok r(2) k(1) r(3) k(2) i])
  moreover have "next_machine_version old \<le> nv" using r(3) by (simp add: word_le_nat_alt)
  ultimately show "log_ok log"
    using config_ok_mono [OF ok] r(2) l(2) b'(2) by (simp add: log_ok_def log log_complete_unstable_def)
  show "l_index log = l_index old + 1"
    by (simp add: log log_complete_unstable_def)
qed

lemma split_proposal:
  assumes "proposal old log" "log_ok old"
  obtains olds rest xs news where "l_machines old = olds @ rest" "l_machines log = xs @ news"
    "length olds = unat (old_n old)" "length xs = unat (old_n old)" "length news = unat (new_n log)"
    "olds = take (unat (old_n old)) (l_machines old)" "news = drop (unat (old_n old)) (l_machines log)"
    "l_machines (log_complete_unstable log old trm) = olds @ news"
    "config_ok (next_machine_id old) (next_machine_version old) olds" "\<forall>m \<in> set news. machine_wf m"
proof (rule that [of "take (unat (old_n old)) (l_machines old)" "drop (unat (old_n old)) (l_machines old)"
    "take (unat (old_n old)) (l_machines log)" "drop (unat (old_n old)) (l_machines log)"])
qed (use assms in \<open>auto simp: log_ok_def proposal_def log_complete_unstable_def machines_copy_def\<close>)

lemma unstable_fields [simp]:
  "next_machine_id (log_complete_unstable log old trm) = next_machine_id old"
  "next_machine_version (log_complete_unstable log old trm) = next_machine_version old"
  "l_index (log_complete_unstable log old trm) = l_index old + 1"
  "old_n (log_complete_unstable log old trm) = old_n log" "new_n (log_complete_unstable log old trm) = new_n log"
  by (simp_all add: log_complete_unstable_def)

lemma log_okI:
  assumes "l_machines log = olds @ news" "length olds = unat (old_n log)" "length news = unat (new_n log)"
    "config_ok ni nv olds" "ni \<le> next_machine_id log" "nv \<le> next_machine_version log"
    "config_ok (next_machine_id log) (next_machine_version log) news"
  shows "log_ok log"
  using assms config_ok_mono [OF assms(4-6)] by (simp add: log_ok_def)

lemma change_adjust_ok:
  assumes p: "proposal old log" and ok: "log_ok old" and room: "counters_room old" and n: "new_n log = old_n old"
  shows "log_complete_change log old trm \<noteq> Undefined"
    and "log_complete_change log old trm = Accept log' \<Longrightarrow>
      log_ok log' \<and> l_index log' = l_index old + 1 \<and>
      take (unat (old_n old)) (l_machines log') = take (unat (old_n old)) (l_machines old) \<and>
      upgrade_safe (take (unat (old_n old)) (l_machines old)) (drop (unat (old_n old)) (l_machines log'))"
proof -
  let ?log = "(log_complete_unstable log old trm)\<lparr>l_type := LOG_TYPE_ADJUST\<rparr>"
  obtain olds rest xs news where s: "l_machines old = olds @ rest" "l_machines log = xs @ news"
    "length olds = unat (old_n old)" "length xs = unat (old_n old)" "length news = unat (new_n log)"
    "olds = take (unat (old_n old)) (l_machines old)" "news = drop (unat (old_n old)) (l_machines log)"
    "l_machines (log_complete_unstable log old trm) = olds @ news"
    "config_ok (next_machine_id old) (next_machine_version old) olds" "\<forall>m \<in> set news. machine_wf m"
    by (rule split_proposal [OF p ok])
  have on: "old_n log = old_n old" using p by (simp add: proposal_def)
  have e: "log_complete_change log old trm = log_complete_adjust ?log old"
    using on n by (simp add: log_complete_change_def Let_def)
  show "log_complete_change log old trm \<noteq> Undefined"
  proof
    assume u: "log_complete_change log old trm = Undefined"
    show False
      by (rule adjust_ok [of ?log old "unat (old_n old)" olds news rest]) (use u e on n s(1-5,8-10) room in \<open>simp_all add: counters_room_def\<close>)
  qed
  assume acc: "log_complete_change log old trm = Accept log'"
  show "log_ok log' \<and> l_index log' = l_index old + 1 \<and>
      take (unat (old_n old)) (l_machines log') = take (unat (old_n old)) (l_machines old) \<and>
      upgrade_safe (take (unat (old_n old)) (l_machines old)) (drop (unat (old_n old)) (l_machines log'))"
  proof (rule adjust_ok [of ?log old "unat (old_n old)" olds news rest])
    fix ni nv d news'
    assume a: "log_complete_adjust ?log old = Accept ((counters ?log ni nv)\<lparr>l_machines := olds @ news', distinct_machines_n := d\<rparr>)"
      "length news' = unat (old_n old)" "config_ok ni nv news'" "next_machine_id ?log \<le> ni" "next_machine_version ?log \<le> nv"
      "upgrade_safe olds news'"
    have log': "log' = (counters ?log ni nv)\<lparr>l_machines := olds @ news', distinct_machines_n := d\<rparr>"
      using acc e a(1) by simp
    have "log_ok log'"
      by (rule log_okI [OF _ _ _ s(9), where news = news']) (use a on n s(3) in \<open>simp_all add: log'\<close>)
    then show ?thesis
      using a s(1,3) by (simp add: log')
  qed (use acc e on n s(1-5,8-10) room in \<open>simp_all add: counters_room_def\<close>)
qed

lemma change_shrink_grow_ok:
  assumes p: "proposal old log" and ok: "log_ok old" and room: "counters_room old" and n: "new_n log \<noteq> old_n old"
    and acc: "log_complete_change log old trm = Accept log'"
  shows "log_ok log' \<and> l_index log' = l_index old + 1"
proof -
  let ?log = "log_complete_unstable log old trm" and ?n = "unat (old_n old)"
  obtain olds rest xs news where s: "l_machines old = olds @ rest" "l_machines log = xs @ news"
    "length olds = ?n" "length xs = ?n" "length news = unat (new_n log)"
    "olds = take ?n (l_machines old)" "news = drop ?n (l_machines log)" "l_machines ?log = olds @ news"
    "config_ok (next_machine_id old) (next_machine_version old) olds" "\<forall>m \<in> set news. machine_wf m"
    by (rule split_proposal [OF p ok])
  have on: "old_n log = old_n old" using p by (simp add: proposal_def)
  note old = config_okD [OF s(9)]
  show ?thesis
  proof (cases "new_n log = drop_bit 1 (old_n old)")
    case True
    then have k: "unat (new_n log) \<le> ?n" by (simp add: drop_bit_eq_div unat_div_distrib)
    have "log_complete_shrink (?log\<lparr>l_type := LOG_TYPE_SHRINK\<rparr>) = Accept log'"
      using acc True n on by (simp add: log_complete_change_def Let_def)
    then have log': "log' = ?log\<lparr>l_type := LOG_TYPE_SHRINK, distinct_machines_n := ucast (old_n old)\<rparr>"
      and news: "news = take (unat (new_n log)) olds"
      using shrink_ok [of ?n "?log\<lparr>l_type := LOG_TYPE_SHRINK\<rparr>" "unat (new_n log)" olds news] on s(1-5,8-10) k old(3)
      by (simp_all add: ball_Un split: if_splits)
    have "config_ok (next_machine_id old) (next_machine_version old) news"
      using s(9) unfolding news config_ok_def by (auto simp: take_map [symmetric] dest: in_set_takeD)
    then have "log_ok log'"
      by (intro log_okI [OF _ _ _ s(9), where news = news]) (use on s(1-5,8-10) in \<open>simp_all add: log'\<close>)
    then show ?thesis by (simp add: log')
  next
    case False
    let ?log1 = "?log\<lparr>l_type := LOG_TYPE_GROW\<rparr>"
    have g: "new_n log = push_bit 1 (old_n old)" "log_complete_grow ?log1 = Accept log'"
      using acc False n on by (simp_all add: log_complete_change_def Let_def split: if_splits)
    have k: "unat (new_n log) = ?n + ?n"
      using g(1) room by (simp add: push_bit_eq_mult unat_word_ariths counters_room_def)
    obtain ni nv app' where r: "log_complete_grow ?log1 = (if take ?n news = olds \<and> distinct (map machine_addr (olds @ drop ?n news))
       then Accept ((counters ?log1 ni nv)\<lparr>l_machines := olds @ olds @ app', distinct_machines_n := ucast (new_n ?log1)\<rparr>) else Reject)"
      "length app' = ?n" "next_machine_id ?log1 \<le> ni" "next_machine_version ?log1 \<le> nv"
      and c: "distinct (map machine_addr (olds @ drop ?n news)) \<Longrightarrow> config_ok ni nv (olds @ app')"
      by (rule grow_ok [of ?n ?log1 olds "take ?n news" "drop ?n news"]) (use on s(1-5,8-10) k room in \<open>simp_all add: counters_room_def\<close>)
    have log': "log' = (counters ?log1 ni nv)\<lparr>l_machines := olds @ olds @ app', distinct_machines_n := ucast (new_n log)\<rparr>"
      and c': "config_ok ni nv (olds @ app')"
      using g(2) r(1) c by (auto split: if_splits)
    have "log_ok log'"
      by (rule log_okI [OF _ _ _ s(9), where news = "olds @ app'"]) (use c' r on s(1-5,8-10) k in \<open>simp_all add: log'\<close>)
    then show ?thesis by (simp add: log')
  qed
qed

lemma change_stability_ok:
  assumes p: "stability_proposal old log" and ok: "log_ok old" and room: "counters_room old"
  obtains log' where "log_complete_change_available log old trm = Accept log'" "log_ok log'" "l_index log' = l_index old + 1"
    "take (unat (old_n old)) (l_machines log') = take (unat (old_n old)) (l_machines old)"
    "map machine_available (drop (unat (old_n old)) (l_machines log'))
       = map machine_available (drop (unat (old_n old)) (l_machines log))"
    "upgrade_safe (take (unat (old_n old)) (l_machines old)) (drop (unat (old_n old)) (l_machines log'))"
proof -
  let ?n = "unat (old_n old)"
  let ?olds = "take ?n (l_machines old)" and ?news = "drop ?n (l_machines log)"
  have n: "old_n log = old_n old" "new_n log = old_n old" "length (l_machines log) = ?n + ?n"
    and st: "\<And>i. i < ?n \<Longrightarrow> ?news ! i = (?olds ! i)\<lparr>m_stability := m_stability (?news ! i)\<rparr>"
    using p by (auto simp: stability_proposal_def Let_def)
  obtain i where i: "i < ?n" "availability_changed (?olds ! i) (?news ! i)"
    using p by (auto simp: stability_proposal_def Let_def)
  have l: "length ?olds = ?n" "length ?news = ?n" "length (take ?n (l_machines log)) = ?n"
    using ok n by (simp_all add: log_ok_def)
  have c: "config_ok (next_machine_id old) (next_machine_version old) ?olds"
    using ok by (simp add: log_ok_def)
  obtain nv news' where
    r: "log_complete_change_available log old trm = Accept
       (log\<lparr>l_index := l_index old + 1, l_term := trm, l_version := l_version old,
          next_machine_id := next_machine_id old, next_machine_version := nv,
          l_type := (if l_type old = LOG_TYPE_OLD then LOG_TYPE_CHANGE_AVAILABLE else LOG_TYPE_GROW_CHANGE_AVAILABLE),
          distinct_machines_n := ucast (old_n old), l_machines := ?olds @ news'\<rparr>)" (is "_ = Accept ?log'")
    "length news' = ?n" "config_ok (next_machine_id old) nv news'" "next_machine_version old \<le> nv"
    "upgrade_safe ?olds news'" "map machine_available news' = map machine_available ?news"
    by (rule change_available_ok [OF n(1) refl l(1,2) append_take_drop_id [symmetric] append_take_drop_id [symmetric] l(3) c _ i])
      (use st room in \<open>auto simp: counters_room_def\<close>)
  have "log_ok ?log'"
    by (rule log_okI [OF _ _ _ c, where news = news']) (use r l(1) n in simp_all)
  with r(1) show thesis
    by (rule that) (use r l(1) in simp_all)
qed

lemma log_step_ok:
  assumes "log_step old log'" "log_ok old"
  shows "log_ok log'" "l_index log' = l_index old + 1"
proof -
  have "log_ok log' \<and> l_index log' = l_index old + 1"
    using assms(1)
  proof cases
    case (change log trm)
    then show ?thesis
      using change_adjust_ok(2) change_shrink_grow_ok assms(2) by blast
  next
    case (change_available log trm)
    show ?thesis
      by (rule change_stability_ok [OF change_available(1) assms(2) change_available(2), of trm])
        (use change_available(3) in simp)
  next
    case (stable alloc)
    then show ?thesis using log_malloc_stable_ok assms(2) by blast
  next
    case (grow_complete alloc trm)
    then show ?thesis using log_grow_complete_ok assms(2) by blast
  qed
  then show "log_ok log'" "l_index log' = l_index old + 1" by blast+
qed

lemma log_steps_ok:
  assumes "(log_step ^^ k) log log'" "log_ok log"
  shows "log_ok log' \<and> l_index log' = l_index log + of_nat k"
  using assms
proof (induction k arbitrary: log')
  case (Suc k)
  then obtain mid where "(log_step ^^ k) log mid" "log_step mid log'" by auto
  with Suc.IH Suc.prems(2) log_step_ok show ?case by (simp add: algebra_simps)
qed simp

section \<open>A small cluster\<close>

lemma small_machine_simps [simp]:
  "machine_wf (small_machine a i st v)" "m_id (small_machine a i st v) = i" "m_version (small_machine a i st v) = v"
  "machine_addr (small_machine a i st v) = machine_addr (machine_at a)" "m_stability (small_machine a i st v) = st"
  by (simp_all add: small_machine_def machine_at_def machine_wf_def machine_addr_def)

lemma machine_at_addr [simp]: "machine_addr (machine_at a) = machine_addr (machine_at b) \<longleftrightarrow> a = b"
  by (simp add: machine_at_def machine_addr_def)

lemma machine_at_less [simp]: "machine_addr (machine_at a) \<le> machine_addr (machine_at b) \<longleftrightarrow> a \<le> b"
  by (auto simp: machine_at_def machine_addr_def eval_nat_numeral)

lemma small_machine_stability:
  "(small_machine a i st v)\<lparr>m_stability := st'\<rparr> = small_machine a i st' v"
  by (simp add: small_machine_def)

lemma small_ok: "log_ok small_log" "counters_room small_log"
  by (simp_all add: log_ok_def counters_room_def small_log_def config_ok_def)

section \<open>Properties\<close>

text \<open>
  (C3) An adjustment of a well-formed log never reads past its machines, and what it accepts is a
  well-formed log in which no slot keeps a version while its keys move to another machine.
\<close>

theorem adjust_keeps_dispatch:
  assumes "proposal old log" and "log_ok old" and "counters_room old" and "new_n log = old_n old"
  shows "log_complete_change log old trm \<noteq> Undefined \<and>
    (\<forall>log'. log_complete_change log old trm = Accept log' \<longrightarrow>
       log_ok log' \<and>
       take (unat (old_n old)) (l_machines log') = take (unat (old_n old)) (l_machines old) \<and>
       upgrade_safe (take (unat (old_n old)) (l_machines old)) (drop (unat (old_n old)) (l_machines log')))"
  using change_adjust_ok [OF assms] by blast

theorem adjust_keeps_dispatch_witness:
  "\<exists>log'. log_complete_change (small_proposal [small_machine 1 0 0 0, small_machine 9 0 0 0, small_machine 3 0 0 0, small_machine 4 0 0 0])
       small_log 2 = Accept log' \<and> log_ok log' \<and> upgrade_safe (l_machines small_log) (drop 4 (l_machines log'))"
proof -
  let ?p = "small_proposal [small_machine 1 0 0 0, small_machine 9 0 0 0, small_machine 3 0 0 0, small_machine 4 0 0 0]"
  have "proposal small_log ?p" "new_n ?p = old_n small_log"
    by (simp_all add: small_log_def small_proposal_def proposal_def)
  note safe = adjust_keeps_dispatch [OF this(1) small_ok this(2), of 2]
  have "log_complete_change ?p small_log 2 \<noteq> Reject" by code_simp
  then obtain log' where "log_complete_change ?p small_log 2 = Accept log'"
    using safe by (cases "log_complete_change ?p small_log 2") auto
  with safe show ?thesis by (auto simp: small_log_def)
qed

text \<open>
  (C13) A change of availability of a well-formed log always completes: the scan for an available
  machine ends, the availabilities are those proposed, and no slot keeps a version while its keys
  move to another machine.
\<close>

theorem change_available_keeps_dispatch:
  assumes "stability_proposal old log" and "log_ok old" and "counters_room old"
  shows "\<exists>log'. log_complete_change_available log old trm = Accept log' \<and> log_ok log' \<and>
    map machine_available (drop (unat (old_n old)) (l_machines log'))
      = map machine_available (drop (unat (old_n old)) (l_machines log)) \<and>
    upgrade_safe (take (unat (old_n old)) (l_machines old)) (drop (unat (old_n old)) (l_machines log'))"
  by (rule change_stability_ok [OF assms, of trm]) blast

theorem change_available_keeps_dispatch_witness:
  "\<exists>log'. log_complete_change_available
       (small_proposal [small_machine 1 1 2 1, small_machine 2 2 3 2, small_machine 3 3 1 3, small_machine 4 4 1 4])
       small_log 2 = Accept log' \<and> upgrade_safe (l_machines small_log) (drop 4 (l_machines log'))"
proof -
  let ?p = "small_proposal [small_machine 1 1 2 1, small_machine 2 2 3 2, small_machine 3 3 1 3, small_machine 4 4 1 4]"
  have "stability_proposal small_log ?p"
  proof -
    have all: "(\<forall>i < 4. P i) \<longleftrightarrow> P 0 \<and> P 1 \<and> P 2 \<and> P 3" for P :: "nat \<Rightarrow> bool"
      by (simp add: numeral_eq_Suc All_less_Suc) blast
    have ex: "(\<exists>i < 4. P i) \<longleftrightarrow> \<not> (\<forall>i < 4. \<not> P i)" for P :: "nat \<Rightarrow> bool" by blast
    show ?thesis
      by (simp add: stability_proposal_def small_log_def small_proposal_def Let_def small_machine_stability
          all ex availability_changed_def machine_available_def machine_stability_def stability_to_available_def)
  qed
  from change_available_keeps_dispatch [OF this small_ok, of 2] show ?thesis
    by (auto simp: small_log_def)
qed

text \<open>
  (C28) Growing is accepted exactly when the first half of the proposal is the old configuration and
  all addresses of the old and the appended machines differ. The accepted log then has the old
  configuration, and as the new one the old machines followed by the appended ones: sorted by
  address, available, with the next identifiers and versions of the log in this order, which the
  counters move past, and the whole is well formed. Nothing else of the log changes but the number
  of its machines.
\<close>

theorem grow_accepts_iff:
  assumes "unat (old_n log) = length olds" and "l_machines log = olds @ pre @ app"
    and "length pre = length olds" and "length app = length olds"
    and "config_ok (next_machine_id log) (next_machine_version log) olds"
    and "\<forall>m \<in> set (pre @ app). machine_wf m" and "counters_room log"
  defines "app' \<equiv> fresh_machines log (sort_key machine_addr app)"
    and "log' \<equiv> log\<lparr>next_machine_id := next_machine_id log + of_nat (length app),
      next_machine_version := next_machine_version log + of_nat (length app),
      l_machines := olds @ olds @ fresh_machines log (sort_key machine_addr app), distinct_machines_n := ucast (new_n log)\<rparr>"
  shows "if pre = olds \<and> distinct (map machine_addr (olds @ app))
    then log_complete_grow log = Accept log' \<and> config_ok (next_machine_id log') (next_machine_version log') (olds @ app') \<and>
      sorted (map machine_addr app') \<and> mset (map machine_addr app') = mset (map machine_addr app)
    else log_complete_grow log = Reject"
proof (rule grow_ok [OF assms(1) [symmetric] refl assms(3,4,2,5,6)])
  show "unat (next_machine_id log) + length olds < 2 ^ 32" "unat (next_machine_version log) + length olds < 2 ^ 64"
    using assms(1,7) by (simp_all add: counters_room_def)
  fix ni nv app''
  assume g: "log_complete_grow log = (if pre = olds \<and> distinct (map machine_addr (olds @ app))
       then Accept ((counters log ni nv)\<lparr>l_machines := olds @ olds @ app'', distinct_machines_n := ucast (new_n log)\<rparr>)
       else Reject)"
    and c: "distinct (map machine_addr (olds @ app)) \<Longrightarrow> config_ok ni nv (olds @ app'')"
    and e: "ni = next_machine_id log + of_nat (length olds)" "nv = next_machine_version log + of_nat (length olds)"
      "app'' = fresh_machines log (sort_key machine_addr app)"
  have l: "(counters log ni nv)\<lparr>l_machines := olds @ olds @ app'', distinct_machines_n := ucast (new_n log)\<rparr> = log'"
    unfolding log'_def e using assms(4) by (simp add: counters_def)
  have a: "map machine_addr app' = map machine_addr (sort_key machine_addr app)"
    unfolding app'_def by (rule fresh_machines_addr)
  have "config_ok (next_machine_id log') (next_machine_version log') (olds @ app')" if "distinct (map machine_addr (olds @ app))"
    using c [OF that] assms(4) unfolding e app'_def log'_def by simp
  then show ?thesis using g unfolding l a by auto
qed

theorem grow_accepts_iff_witness:
  "\<exists>log'. log_complete_grow (small_proposal (l_machines small_log @
      [small_machine 8 0 0 0, small_machine 5 0 0 0, small_machine 7 0 0 0, small_machine 6 0 0 0])) = Accept log' \<and>
     map m_id (l_machines log') = [1, 2, 3, 4, 1, 2, 3, 4, 5, 6, 7, 8] \<and> next_machine_id log' = 9 \<and>
     map machine_addr (drop 8 (l_machines log')) = map machine_addr (map machine_at [5, 6, 7, 8])"
proof -
  let ?o = "l_machines small_log" and ?a = "[small_machine 8 0 0 0, small_machine 5 0 0 0, small_machine 7 0 0 0, small_machine 6 0 0 0]"
  let ?p = "small_proposal (?o @ ?a)"
  have d: "distinct (map machine_addr (?o @ ?a))" by (simp add: small_log_def)
  have "log_complete_grow ?p = Accept (?p\<lparr>next_machine_id := next_machine_id ?p + of_nat (length ?a),
      next_machine_version := next_machine_version ?p + of_nat (length ?a),
      l_machines := ?o @ ?o @ fresh_machines ?p (sort_key machine_addr ?a), distinct_machines_n := ucast (new_n ?p)\<rparr>)"
    using grow_accepts_iff [of ?p ?o ?o ?a] d by (simp add: small_proposal_def small_log_def config_ok_def counters_room_def)
  moreover have "sort_key machine_addr ?a = [small_machine 5 0 0 0, small_machine 6 0 0 0, small_machine 7 0 0 0, small_machine 8 0 0 0]"
    by simp
  moreover have "map m_id (fresh_machines ?p ms) = map (\<lambda>i. 5 + of_nat i) [0..<length ms]" for ms
    unfolding fresh_machines_ids by (simp add: small_proposal_def small_log_def)
  ultimately show ?thesis
    using fresh_machines_addr [of ?p] by (simp add: small_proposal_def small_log_def upt_rec)
qed

text \<open>
  (C29) The first configuration is accepted exactly when its addresses differ; it is then well
  formed and sorted by address.
\<close>

theorem init_accepts_iff:
  assumes "length (l_machines log) = unat (old_n log)" and "\<forall>m \<in> set (l_machines log). machine_wf m"
    and "counters_room log" and "new_n log = 0"
  shows "fst (log_complete_init log) = distinct (map machine_addr (l_machines log)) \<and>
    sorted (map machine_addr (l_machines (snd (log_complete_init log)))) \<and>
    (fst (log_complete_init log) \<longrightarrow> log_ok (snd (log_complete_init log)))"
proof (rule log_complete_init_ok [OF assms(1,2)])
  show "unat (next_machine_id log) + unat (old_n log) < 2 ^ 32" "unat (next_machine_version log) + unat (old_n log) < 2 ^ 64"
    using assms(3) by (simp_all add: counters_room_def)
  fix ni nv ms'
  assume "log_complete_init log = (distinct (map machine_addr (l_machines log)), (counters log ni nv)\<lparr>l_machines := ms'\<rparr>)"
    "length ms' = unat (old_n log)" "sorted (map machine_addr ms')"
    "distinct (map machine_addr (l_machines log)) \<Longrightarrow> config_ok ni nv ms'"
  then show ?thesis
    using assms(4) by (auto simp: log_ok_def) (simp_all add: config_ok_def)
qed

theorem init_accepts_iff_witness:
  "fst (log_complete_init small_log) \<and> log_ok (snd (log_complete_init small_log))"
proof -
  have "distinct (map machine_addr (l_machines small_log))" by (simp add: small_log_def)
  then show ?thesis
    using init_accepts_iff [of small_log] small_ok by (simp add: small_log_def)
qed

text \<open>
  (C14) Over any sequence of completed changes, changes of availability, stabilisations and
  completions of a growth, the log stays well formed and its index counts the entries.
\<close>

theorem log_history:
  assumes "(log_step ^^ k) log log'" and "log_ok log"
  shows "log_ok log' \<and> l_index log' = l_index log + of_nat k"
  using assms by (rule log_steps_ok)

theorem log_history_witness:
  "\<exists>log'. log_step small_log log' \<and> log_ok log' \<and> l_index log' = 2"
proof -
  let ?alloc = "\<lambda>sz. if sz = 384 then Some (small_log\<lparr>l_machines := replicate 8 (machine_at 0)\<rparr>) else None"
  have a: "alloc_sized ?alloc" by (simp add: alloc_sized_def LOG_SIZE_def)
  have "log_malloc_grow_complete ?alloc small_log 2 \<noteq> None"
    by (simp add: log_malloc_grow_complete_def log_malloc_unstable_def log_malloc_def LOG_SIZE_def MACHINE_SIZE_def
        small_log_def split: prod.splits)
  then obtain log' where "log_malloc_grow_complete ?alloc small_log 2 = Some log'" by blast
  then have "log_step small_log log'"
    by (rule log_step.grow_complete [OF a small_ok(2)])
  moreover from this have "(log_step ^^ 1) small_log log'" by auto
  ultimately show ?thesis
    using log_history [of 1 small_log log', OF _ small_ok(1)] by (auto simp: small_log_def)
qed

end
