(* ===== verification/Raft_Proto.thy ===== *)
theory Raft_Proto
  imports Raft_Log
begin

text \<open>
  The messages of the cluster protocol, \<open>src/raft_proto.h\<close>, and the bytes they are in the buffer
  of a connection.

  A message is a record of the integers it carries; \<open>get_\<close> and \<open>put_\<close> read and write its fields
  at the offsets the C structs give them, little-endian as \<open>le64toh\<close> and \<open>htole64\<close> make them,
  and leave the padding alone. The machines that follow a message are the bytes of
  \<open>machine_bytes\<close>, one after the other.
\<close>

section \<open>Definitions\<close>

definition RAFT_CMD_REQUEST_VOTE :: u8 where "RAFT_CMD_REQUEST_VOTE = 0"
definition RAFT_CMD_APPEND_LOG :: u8 where "RAFT_CMD_APPEND_LOG = 1"
definition RAFT_CMD_HEARTBEAT :: u8 where "RAFT_CMD_HEARTBEAT = 2"
definition RAFT_CMD_INIT_CLUSTER :: u8 where "RAFT_CMD_INIT_CLUSTER = 3"
definition RAFT_CMD_CHANGE_CLUSTER :: u8 where "RAFT_CMD_CHANGE_CLUSTER = 4"
definition RAFT_CMD_ADMIN_DIVIDER :: u8 where "RAFT_CMD_ADMIN_DIVIDER = 5"
definition RAFT_CMD_LEADER :: u8 where "RAFT_CMD_LEADER = 6"
definition RAFT_CMD_CLUSTER :: u8 where "RAFT_CMD_CLUSTER = 7"
definition RAFT_CMD_CONNECT :: u8 where "RAFT_CMD_CONNECT = 8"
definition RAFT_CMD_AUTHORITY :: u8 where "RAFT_CMD_AUTHORITY = 9"

lemmas raft_cmds = RAFT_CMD_REQUEST_VOTE_def RAFT_CMD_APPEND_LOG_def RAFT_CMD_HEARTBEAT_def
  RAFT_CMD_INIT_CLUSTER_def RAFT_CMD_CHANGE_CLUSTER_def RAFT_CMD_ADMIN_DIVIDER_def RAFT_CMD_LEADER_def
  RAFT_CMD_CLUSTER_def RAFT_CMD_CONNECT_def RAFT_CMD_AUTHORITY_def

text \<open>The value of little-endian bytes, and bytes written over a buffer.\<close>

fun le_value :: "u8 list \<Rightarrow> 'a::len word" where
  "le_value [] = 0"
| "le_value (b # bs) = ucast b OR push_bit 8 (le_value bs)"

definition overwrite :: "nat \<Rightarrow> 'a list \<Rightarrow> 'a list \<Rightarrow> 'a list" where
  "overwrite off bs buf = take off buf @ bs @ drop (off + length bs) buf"

definition get_field :: "nat \<Rightarrow> nat \<Rightarrow> u8 list \<Rightarrow> 'a::len word" where
  "get_field off n buf = le_value (take n (drop off buf))"

definition put_field :: "nat \<Rightarrow> nat \<Rightarrow> 'a::len word \<Rightarrow> u8 list \<Rightarrow> u8 list" where
  "put_field off n w buf = overwrite off (le_bytes n w) buf"

definition get_bool :: "nat \<Rightarrow> u8 list \<Rightarrow> bool" where
  "get_bool off buf \<longleftrightarrow> (get_field off 1 buf :: u8) \<noteq> 0"

definition put_bool :: "nat \<Rightarrow> bool \<Rightarrow> u8 list \<Rightarrow> u8 list" where
  "put_bool off b buf = put_field off 1 (if b then 1 else 0 :: u8) buf"

record request_vote_req =
  rv_candidate_id :: u32
  rv_term :: u64
  rv_log_index :: u64
  rv_log_term :: u64

definition get_request_vote_req :: "u8 list \<Rightarrow> request_vote_req" where
  "get_request_vote_req buf =
     \<lparr>rv_candidate_id = get_field 4 4 buf, rv_term = get_field 8 8 buf,
      rv_log_index = get_field 16 8 buf, rv_log_term = get_field 24 8 buf\<rparr>"

definition put_request_vote_req :: "request_vote_req \<Rightarrow> u8 list \<Rightarrow> u8 list" where
  "put_request_vote_req req buf =
     put_field 24 8 (rv_log_term req) (put_field 16 8 (rv_log_index req) (put_field 8 8 (rv_term req)
       (put_field 4 4 (rv_candidate_id req) (put_field 0 1 RAFT_CMD_REQUEST_VOTE buf))))"

record request_vote_res =
  vr_term :: u64
  vr_granted :: bool

definition get_request_vote_res :: "u8 list \<Rightarrow> request_vote_res" where
  "get_request_vote_res buf = \<lparr>vr_term = get_field 0 8 buf, vr_granted = get_bool 8 buf\<rparr>"

definition put_request_vote_res :: "request_vote_res \<Rightarrow> u8 list \<Rightarrow> u8 list" where
  "put_request_vote_res res buf = put_bool 8 (vr_granted res) (put_field 0 8 (vr_term res) buf)"

record append_log_req =
  al_type :: u8
  al_machines_size :: u64
  al_term :: u64
  al_leader_id :: u32
  al_follower_id :: u32
  al_log_index :: u64
  al_log_term :: u64
  al_version :: u64
  al_next_machine_version :: u64
  al_next_machine_id :: u32
  al_new_machine_nr :: u32
  al_distinct_machines_n :: u64

definition get_append_log_req :: "u8 list \<Rightarrow> append_log_req" where
  "get_append_log_req buf =
     \<lparr>al_type = get_field 1 1 buf, al_machines_size = get_field 8 8 buf, al_term = get_field 16 8 buf,
      al_leader_id = get_field 24 4 buf, al_follower_id = get_field 28 4 buf, al_log_index = get_field 32 8 buf,
      al_log_term = get_field 40 8 buf, al_version = get_field 48 8 buf,
      al_next_machine_version = get_field 56 8 buf, al_next_machine_id = get_field 64 4 buf,
      al_new_machine_nr = get_field 68 4 buf, al_distinct_machines_n = get_field 72 8 buf\<rparr>"

definition put_append_log_req :: "append_log_req \<Rightarrow> u8 list \<Rightarrow> u8 list" where
  "put_append_log_req req buf =
     (let buf = put_field 0 1 RAFT_CMD_APPEND_LOG buf;
          buf = put_field 1 1 (al_type req) buf;
          buf = put_field 8 8 (al_machines_size req) buf;
          buf = put_field 16 8 (al_term req) buf;
          buf = put_field 24 4 (al_leader_id req) buf;
          buf = put_field 28 4 (al_follower_id req) buf;
          buf = put_field 32 8 (al_log_index req) buf;
          buf = put_field 40 8 (al_log_term req) buf;
          buf = put_field 48 8 (al_version req) buf;
          buf = put_field 56 8 (al_next_machine_version req) buf;
          buf = put_field 64 4 (al_next_machine_id req) buf;
          buf = put_field 68 4 (al_new_machine_nr req) buf
      in put_field 72 8 (al_distinct_machines_n req) buf)"

definition get_heartbeat_term :: "u8 list \<Rightarrow> u64" where
  "get_heartbeat_term buf = get_field 8 8 buf"

definition put_heartbeat_req :: "u64 \<Rightarrow> u8 list \<Rightarrow> u8 list" where
  "put_heartbeat_req trm buf = put_field 8 8 trm (put_field 0 1 RAFT_CMD_HEARTBEAT buf)"

record append_entry_res =
  ae_term :: u64
  ae_applied :: bool

definition get_append_entry_res :: "u8 list \<Rightarrow> append_entry_res" where
  "get_append_entry_res buf = \<lparr>ae_term = get_field 0 8 buf, ae_applied = get_bool 8 buf\<rparr>"

definition put_append_entry_res :: "append_entry_res \<Rightarrow> u8 list \<Rightarrow> u8 list" where
  "put_append_entry_res res buf = put_bool 8 (ae_applied res) (put_field 0 8 (ae_term res) buf)"

definition get_change_cluster_size :: "u8 list \<Rightarrow> u64" where
  "get_change_cluster_size buf = get_field 8 8 buf"

record leader_res =
  lr_addr :: "u8 list"
  lr_port :: "u8 list"
  lr_lost :: bool

definition put_leader_res :: "leader_res \<Rightarrow> u8 list \<Rightarrow> u8 list" where
  "put_leader_res res buf =
     put_bool 18 (lr_lost res)
       (if lr_lost res then buf else overwrite 16 (lr_port res) (overwrite 0 (lr_addr res) buf))"

record cluster_res =
  cr_type :: u8
  cr_machines_size :: u64
  cr_version :: u64

definition get_cluster_machines_size :: "u8 list \<Rightarrow> u64" where
  "get_cluster_machines_size buf = get_field 8 8 buf"

definition put_cluster_res :: "cluster_res \<Rightarrow> u8 list \<Rightarrow> u8 list" where
  "put_cluster_res res buf =
     put_field 16 8 (cr_version res) (put_field 8 8 (cr_machines_size res) (put_field 0 1 (cr_type res) buf))"

definition get_connect_thread :: "u8 list \<Rightarrow> u32" where
  "get_connect_thread buf = get_field 4 4 buf"

record authority_approval =
  aa_version :: u64
  aa_count :: u64

definition put_authority_approval :: "authority_approval \<Rightarrow> u8 list \<Rightarrow> u8 list" where
  "put_authority_approval res buf = put_field 8 8 (aa_count res) (put_field 0 8 (aa_version res) buf)"

definition REQUEST_VOTE_REQ_SIZE :: u64 where "REQUEST_VOTE_REQ_SIZE = 32"
definition REQUEST_VOTE_RES_SIZE :: u64 where "REQUEST_VOTE_RES_SIZE = 16"
definition APPEND_LOG_REQ_SIZE :: u64 where "APPEND_LOG_REQ_SIZE = 80"
definition HEARTBEAT_REQ_SIZE :: u64 where "HEARTBEAT_REQ_SIZE = 16"
definition APPEND_ENTRY_RES_SIZE :: u64 where "APPEND_ENTRY_RES_SIZE = 16"
definition CHANGE_CLUSTER_REQ_SIZE :: u64 where "CHANGE_CLUSTER_REQ_SIZE = 16"
definition LEADER_RES_SIZE :: u64 where "LEADER_RES_SIZE = 20"
definition CLUSTER_RES_SIZE :: u64 where "CLUSTER_RES_SIZE = 24"
definition CONNECT_REQ_SIZE :: u64 where "CONNECT_REQ_SIZE = 8"
definition AUTHORITY_APPROVAL_SIZE :: u64 where "AUTHORITY_APPROVAL_SIZE = 16"
definition RAFT_CONN_BUFFER_SIZE :: u64 where "RAFT_CONN_BUFFER_SIZE = APPEND_LOG_REQ_SIZE"

lemmas raft_sizes = REQUEST_VOTE_REQ_SIZE_def REQUEST_VOTE_RES_SIZE_def APPEND_LOG_REQ_SIZE_def
  HEARTBEAT_REQ_SIZE_def APPEND_ENTRY_RES_SIZE_def CHANGE_CLUSTER_REQ_SIZE_def LEADER_RES_SIZE_def
  CLUSTER_RES_SIZE_def CONNECT_REQ_SIZE_def AUTHORITY_APPROVAL_SIZE_def RAFT_CONN_BUFFER_SIZE_def

text \<open>The machines that bytes in memory are.\<close>

definition machine_of_bytes :: "u8 list \<Rightarrow> machine" where
  "machine_of_bytes bs =
     \<lparr>sin6_addr = take 16 bs, sin6_port = take 2 (drop 16 bs), m_pad = take 2 (drop 18 bs),
      m_id = get_field 20 4 bs, m_stability = get_field 24 8 bs, m_version = get_field 32 8 bs\<rparr>"

fun machines_of_bytes :: "nat \<Rightarrow> u8 list \<Rightarrow> machine list" where
  "machines_of_bytes 0 bs = []"
| "machines_of_bytes (Suc n) bs = machine_of_bytes (take 40 bs) # machines_of_bytes n (drop 40 bs)"

definition machines_bytes :: "machine list \<Rightarrow> u8 list" where
  "machines_bytes ms = concat (map machine_bytes ms)"

text \<open>A buffer that has room for every message.\<close>

definition roomy :: "u8 list \<Rightarrow> bool" where
  "roomy buf \<longleftrightarrow> 80 \<le> length buf"

section \<open>Fields of a buffer\<close>

lemma bit_le_value:
  "bit (le_value bs :: 'a::len word) k \<longleftrightarrow> k < LENGTH('a) \<and> k div 8 < length bs \<and> bit (bs ! (k div 8)) (k mod 8)"
proof (induction bs arbitrary: k)
  case (Cons b bs)
  have b: "bit b k \<longleftrightarrow> k < 8 \<and> bit b k" for k
    using bit_imp_le_length [of b k] by auto
  show ?case
  proof (cases "k < 8")
    case True
    then show ?thesis by (auto simp: bit_simps)
  next
    case False
    then have "k div 8 = Suc ((k - 8) div 8)" "(k - 8) mod 8 = k mod 8"
      by (simp_all add: le_div_geq le_mod_geq)
    then show ?thesis
      using False b [of k] Cons.IH [of "k - 8"] by (auto simp: bit_simps)
  qed
qed simp

lemma le_value_le_bytes:
  assumes "LENGTH('a) \<le> 8 * n"
  shows "le_value (le_bytes n (w :: 'a::len word)) = w"
proof (rule bit_word_eqI)
  fix k assume k: "k < LENGTH('a)"
  then have "k div 8 < n" using assms by auto
  then show "bit (le_value (le_bytes n w) :: 'a word) k \<longleftrightarrow> bit w k"
    using k by (auto simp: bit_le_value le_bytes_def bit_simps)
qed

lemma overwrite_length [simp]: "off + length bs \<le> length buf \<Longrightarrow> length (overwrite off bs buf) = length buf"
  by (simp add: overwrite_def)

lemma overwrite_same: "off + length bs \<le> length buf \<Longrightarrow> take (length bs) (drop off (overwrite off bs buf)) = bs"
  by (simp add: overwrite_def)

lemma overwrite_other:
  assumes "off + length bs \<le> length buf" "off' + n \<le> off \<or> off + length bs \<le> off'"
  shows "take n (drop off' (overwrite off bs buf)) = take n (drop off' buf)"
  using assms(2)
proof
  assume "off' + n \<le> off"
  then have "take n (drop off' (take off buf @ xs)) = take n (drop off' buf)" for xs
    using assms(1) by (simp add: drop_take min_absorb2)
  then show ?thesis unfolding overwrite_def .
next
  assume "off + length bs \<le> off'"
  then show ?thesis using assms(1) by (simp add: overwrite_def)
qed

lemma put_field_length [simp]: "off + n \<le> length buf \<Longrightarrow> length (put_field off n w buf) = length buf"
  by (simp add: put_field_def)

lemma put_bool_length [simp]: "off + 1 \<le> length buf \<Longrightarrow> length (put_bool off b buf) = length buf"
  by (simp add: put_bool_def)

lemma get_put_same [simp]:
  "off + n \<le> length buf \<Longrightarrow> LENGTH('a) \<le> 8 * n \<Longrightarrow> get_field off n (put_field off n (w :: 'a::len word) buf) = w"
  using overwrite_same [of off "le_bytes n w" buf] by (simp add: get_field_def put_field_def le_value_le_bytes)

lemma get_put_other [simp]:
  "off + n \<le> length buf \<Longrightarrow> off' + n' \<le> off \<or> off + n \<le> off' \<Longrightarrow>
   get_field off' n' (put_field off n w buf) = get_field off' n' buf"
  by (simp add: get_field_def put_field_def overwrite_other)

lemma get_put_bool [simp]:
  "off + 1 \<le> length buf \<Longrightarrow> get_bool off (put_bool off b buf) = b"
  "off + 1 \<le> length buf \<Longrightarrow> off' + n' \<le> off \<or> off + 1 \<le> off' \<Longrightarrow>
   get_field off' n' (put_bool off b buf) = get_field off' n' buf"
  by (simp_all add: get_bool_def put_bool_def)

text \<open>
  The same facts with one condition on the buffer, so that a chain of field writes is read back in
  one pass.
\<close>

lemma roomy_put [simp]:
  "roomy buf \<Longrightarrow> off + n \<le> 80 \<Longrightarrow> roomy (put_field off n w buf)"
  "roomy buf \<Longrightarrow> off + 1 \<le> 80 \<Longrightarrow> roomy (put_bool off b buf)"
  by (simp_all add: roomy_def)

lemma roomy_length:
  "roomy buf \<Longrightarrow> off + n \<le> 80 \<Longrightarrow> length (put_field off n w buf) = length buf"
  "roomy buf \<Longrightarrow> off + 1 \<le> 80 \<Longrightarrow> length (put_bool off b buf) = length buf"
  by (simp_all add: roomy_def)

lemma roomy_get:
  "roomy buf \<Longrightarrow> off + n \<le> 80 \<Longrightarrow> LENGTH('a) \<le> 8 * n \<Longrightarrow> get_field off n (put_field off n (w :: 'a::len word) buf) = w"
  "roomy buf \<Longrightarrow> off + n \<le> 80 \<Longrightarrow> off' + n' \<le> off \<or> off + n \<le> off' \<Longrightarrow>
     get_field off' n' (put_field off n v buf) = get_field off' n' buf"
  "roomy buf \<Longrightarrow> off + 1 \<le> 80 \<Longrightarrow> get_bool off (put_bool off b buf) = b"
  "roomy buf \<Longrightarrow> off + 1 \<le> 80 \<Longrightarrow> off' + n' \<le> off \<or> off + 1 \<le> off' \<Longrightarrow>
     get_field off' n' (put_bool off b buf) = get_field off' n' buf"
  by (simp_all add: roomy_def)

lemmas roomy_simps = roomy_length roomy_get

declare put_field_length [simp del] put_bool_length [simp del] get_put_same [simp del]
  get_put_other [simp del] get_put_bool [simp del]

section \<open>Machines as bytes\<close>

lemma machine_of_bytes: "machine_wf m \<Longrightarrow> machine_of_bytes (machine_bytes m) = m"
  by (simp add: machine_of_bytes_def machine_bytes_def machine_wf_def get_field_def le_value_le_bytes)

lemma machines_bytes_length: "\<forall>m \<in> set ms. machine_wf m \<Longrightarrow> length (machines_bytes ms) = 40 * length ms"
  by (induction ms) (auto simp: machines_bytes_def machine_bytes_length)

lemma machines_of_bytes: "\<forall>m \<in> set ms. machine_wf m \<Longrightarrow> machines_of_bytes (length ms) (machines_bytes ms) = ms"
  by (induction ms) (simp_all add: machines_bytes_def machine_bytes_length machine_of_bytes)

lemma machines_of_bytes_length [simp]: "length (machines_of_bytes n bs) = n"
  by (induction n bs rule: machines_of_bytes.induct) auto

lemma machine_of_bytes_wf: "40 \<le> length bs \<Longrightarrow> machine_wf (machine_of_bytes bs)"
  by (simp add: machine_of_bytes_def machine_wf_def)

lemma machines_of_bytes_wf:
  "40 * n \<le> length bs \<Longrightarrow> m \<in> set (machines_of_bytes n bs) \<Longrightarrow> machine_wf m"
  by (induction n bs rule: machines_of_bytes.induct) (auto intro: machine_of_bytes_wf)

section \<open>Messages\<close>

lemma request_vote_req_roundtrip:
  assumes "roomy buf"
  shows "get_request_vote_req (put_request_vote_req req buf) = req"
    and "get_field 0 1 (put_request_vote_req req buf) = RAFT_CMD_REQUEST_VOTE"
    and "length (put_request_vote_req req buf) = length buf"
  using assms by (simp_all add: get_request_vote_req_def put_request_vote_req_def roomy_simps)

lemma request_vote_res_roundtrip:
  assumes "roomy buf"
  shows "get_request_vote_res (put_request_vote_res res buf) = res"
    and "length (put_request_vote_res res buf) = length buf"
  using assms by (simp_all add: get_request_vote_res_def put_request_vote_res_def roomy_simps)

lemma append_log_req_roundtrip:
  assumes "roomy buf"
  shows "get_append_log_req (put_append_log_req req buf) = req"
    and "get_field 0 1 (put_append_log_req req buf) = RAFT_CMD_APPEND_LOG"
    and "length (put_append_log_req req buf) = length buf"
  using assms by (simp_all add: get_append_log_req_def put_append_log_req_def Let_def roomy_simps)

lemma heartbeat_req_roundtrip:
  assumes "roomy buf"
  shows "get_heartbeat_term (put_heartbeat_req trm buf) = trm"
    and "get_field 0 1 (put_heartbeat_req trm buf) = RAFT_CMD_HEARTBEAT"
    and "length (put_heartbeat_req trm buf) = length buf"
  using assms by (simp_all add: get_heartbeat_term_def put_heartbeat_req_def roomy_simps)

lemma append_entry_res_roundtrip:
  assumes "roomy buf"
  shows "get_append_entry_res (put_append_entry_res res buf) = res"
    and "length (put_append_entry_res res buf) = length buf"
  using assms by (simp_all add: get_append_entry_res_def put_append_entry_res_def roomy_simps)

lemma cluster_res_roundtrip:
  assumes "roomy buf"
  shows "get_cluster_machines_size (put_cluster_res res buf) = cr_machines_size res"
    and "get_field 0 1 (put_cluster_res res buf) = cr_type res"
    and "get_field 16 8 (put_cluster_res res buf) = cr_version res"
    and "length (put_cluster_res res buf) = length buf"
  using assms by (simp_all add: get_cluster_machines_size_def put_cluster_res_def roomy_simps)

section \<open>Properties\<close>

text \<open>
  (C30) Every message of the protocol written into the buffer of a connection is read back as it was
  by the peer, with its command byte. Of the answer with the cluster the server itself reads the size
  of the machines; its type and its version, for the client, are at their places in the layout.
\<close>

theorem messages_roundtrip:
  assumes "length buf = 80"
  shows "get_request_vote_req (put_request_vote_req vreq buf) = vreq \<and>
    get_field 0 1 (put_request_vote_req vreq buf) = RAFT_CMD_REQUEST_VOTE \<and>
    get_request_vote_res (put_request_vote_res vres buf) = vres \<and>
    get_append_log_req (put_append_log_req areq buf) = areq \<and>
    get_field 0 1 (put_append_log_req areq buf) = RAFT_CMD_APPEND_LOG \<and>
    get_heartbeat_term (put_heartbeat_req trm buf) = trm \<and>
    get_field 0 1 (put_heartbeat_req trm buf) = RAFT_CMD_HEARTBEAT \<and>
    get_append_entry_res (put_append_entry_res ares buf) = ares \<and>
    get_cluster_machines_size (put_cluster_res cres buf) = cr_machines_size cres \<and>
    get_field 0 1 (put_cluster_res cres buf) = cr_type cres \<and>
    get_field 16 8 (put_cluster_res cres buf) = cr_version cres"
  using assms roomy_def [of buf] request_vote_req_roundtrip [of buf] request_vote_res_roundtrip [of buf] append_log_req_roundtrip [of buf]
    heartbeat_req_roundtrip [of buf] append_entry_res_roundtrip [of buf] cluster_res_roundtrip [of buf]
  by simp

theorem messages_roundtrip_witness:
  "get_request_vote_res (put_request_vote_res \<lparr>vr_term = 0x123456789ABCDEF, vr_granted = True\<rparr> (replicate 80 7)) =
     \<lparr>vr_term = 0x123456789ABCDEF, vr_granted = True\<rparr>"
  using messages_roundtrip [of "replicate 80 7"] by simp

end
