(* ===== verification/Raft_Conn.thy ===== *)
theory Raft_Conn
  imports Raft_Proto
begin

text \<open>
  Connections of the cluster protocol, \<open>src/raft_conn.c\<close> and \<open>src/raft_conn.h\<close>.

  Logs and connections live in stores: \<open>logs\<close> maps the address of a log to the log and
  \<open>conns\<close> the address of a connection to the connection, so that a freed object has no entry.
  An outgoing connection is embedded in a member of a cluster and its address names both; an
  incoming one has an address of its own. The union of a connection is the byte buffer; the
  three counters of the authority view, which a connection uses from the \<open>AUTHORITY\<close> command
  to its end, are fields beside it, and the list of authority connections is a list of addresses.
  The bytes read so far into the machines of a borrowed log are kept in \<open>rx\<close>: nothing else reads
  those machines before they are complete.

  The operating system is a parameter: \<open>os_io\<close> gives the result of each \<open>read\<close>, \<open>send\<close> and
  \<open>sendmsg\<close>, \<open>os_mem\<close> whether \<open>malloc\<close> or \<open>socket\<close> succeeds, and \<open>os_log\<close> the block of a new log;
  each is asked with the number of calls made before. A call never moves more bytes than it was
  asked to. \<open>os_drain\<close> is the finite sequence of reads after which a socket has no more bytes,
  \<open>os_connect\<close> the outcome of connecting to a member, \<open>os_conn\<close> and \<open>os_round\<close> what fresh memory
  holds, and \<open>os_warm\<close> the answer of the cache threads. The build without \<open>CONFIG_KERNEL_TLS\<close> is modelled.
\<close>

section \<open>Definitions\<close>

definition EPOLLIN :: u8 where "EPOLLIN = 1"
definition EPOLLOUT :: u8 where "EPOLLOUT = 4"
definition EPOLLLOG :: u8 where "EPOLLLOG = 2"

datatype raft_conn_state =
    RAFT_CONN_STATE_NOT_CONNECTED
  | RAFT_CONN_STATE_IN_PROGRESS
  | RAFT_CONN_STATE_READY_FOR_USE
  | RAFT_CONN_STATE_REQUEST_VOTE_OUT
  | RAFT_CONN_STATE_REQUEST_VOTE_IN
  | RAFT_CONN_STATE_APPEND_LOG_OUT
  | RAFT_CONN_STATE_APPEND_LOG_IN
  | RAFT_CONN_STATE_HEARTBEAT_OUT
  | RAFT_CONN_STATE_HEARTBEAT_IN
  | RAFT_CONN_OUTGOING_INCOMING_DIVIDER
  | RAFT_CONN_STATE_IN_CMD
  | RAFT_CONN_STATE_CHANGE_CLUSTER_OUT
  | RAFT_CONN_STATE_VOTE_OUT
  | RAFT_CONN_STATE_RECV_ENTRY_OUT
  | RAFT_CONN_STATE_RECV_LOG_IN
  | RAFT_CONN_STATE_LEADER_OUT
  | RAFT_CONN_STATE_CLUSTER_OUT
  | RAFT_CONN_STATE_INIT_CLUSTER_IN
  | RAFT_CONN_STATE_CHANGE_CLUSTER_IN
  | RAFT_CONN_STATE_AUTHORITY_DIVIDER
  | RAFT_CONN_STATE_AUTHORITY_PENDING
  | RAFT_CONN_STATE_AUTHORITY_OUT

fun state_code :: "raft_conn_state \<Rightarrow> u8" where
  "state_code RAFT_CONN_STATE_NOT_CONNECTED = 8 * 3"
| "state_code RAFT_CONN_STATE_IN_PROGRESS = 8 * 4 + EPOLLOUT"
| "state_code RAFT_CONN_STATE_READY_FOR_USE = 8 * 5"
| "state_code RAFT_CONN_STATE_REQUEST_VOTE_OUT = 8 * 6 + EPOLLOUT"
| "state_code RAFT_CONN_STATE_REQUEST_VOTE_IN = 8 * 7 + EPOLLIN"
| "state_code RAFT_CONN_STATE_APPEND_LOG_OUT = 8 * 8 + EPOLLOUT + EPOLLLOG"
| "state_code RAFT_CONN_STATE_APPEND_LOG_IN = 8 * 9 + EPOLLIN"
| "state_code RAFT_CONN_STATE_HEARTBEAT_OUT = 8 * 10 + EPOLLOUT"
| "state_code RAFT_CONN_STATE_HEARTBEAT_IN = 8 * 11 + EPOLLIN"
| "state_code RAFT_CONN_OUTGOING_INCOMING_DIVIDER = 8 * 12"
| "state_code RAFT_CONN_STATE_IN_CMD = 8 * 16 + EPOLLIN"
| "state_code RAFT_CONN_STATE_CHANGE_CLUSTER_OUT = 8 * 17 + EPOLLOUT"
| "state_code RAFT_CONN_STATE_VOTE_OUT = 8 * 18 + EPOLLOUT"
| "state_code RAFT_CONN_STATE_RECV_ENTRY_OUT = 8 * 19 + EPOLLOUT"
| "state_code RAFT_CONN_STATE_RECV_LOG_IN = 8 * 20 + EPOLLIN + EPOLLLOG"
| "state_code RAFT_CONN_STATE_LEADER_OUT = 8 * 21 + EPOLLOUT"
| "state_code RAFT_CONN_STATE_CLUSTER_OUT = 8 * 22 + EPOLLOUT + EPOLLLOG"
| "state_code RAFT_CONN_STATE_INIT_CLUSTER_IN = 8 * 23 + EPOLLIN + EPOLLLOG"
| "state_code RAFT_CONN_STATE_CHANGE_CLUSTER_IN = 8 * 24 + EPOLLIN + EPOLLLOG"
| "state_code RAFT_CONN_STATE_AUTHORITY_DIVIDER = 8 * 25"
| "state_code RAFT_CONN_STATE_AUTHORITY_PENDING = 8 * 26 + EPOLLIN"
| "state_code RAFT_CONN_STATE_AUTHORITY_OUT = 8 * 27 + EPOLLOUT"

record raft_conn =
  rc_log :: nat
  unio :: u64
  fd :: int
  admin :: bool
  rc_state :: raft_conn_state
  buffer :: "u8 list"
  rx :: "u8 list"
  authority_pending_nr :: u64
  authority_processing_nr :: u64
  authority_succeed_nr :: u64

datatype conn_ref = In nat | Out nat nat

datatype io = Moved "u8 list" | Again | Fail

datatype connect = Socket_Failed | Connected | Connecting | Refused

record os =
  os_io :: "nat \<Rightarrow> io"
  os_drain :: "nat \<Rightarrow> io list"
  os_mem :: "nat \<Rightarrow> bool"
  os_log :: "nat \<Rightarrow> log_alloc"
  os_conn :: "nat \<Rightarrow> raft_conn"
  os_connect :: "nat \<Rightarrow> connect \<times> int"
  os_round :: "nat \<Rightarrow> nat \<Rightarrow> u64"
  os_warm :: "nat \<Rightarrow> bool"

record world =
  logs :: "nat \<rightharpoonup> log"
  conns :: "conn_ref \<rightharpoonup> raft_conn"
  authority :: "conn_ref list"
  calls :: nat
  next_addr :: nat
  sent :: "(int \<times> u8 list) list"
  closed :: "int list"

definition conn_of :: "world \<Rightarrow> conn_ref \<Rightarrow> raft_conn" where
  "conn_of w r = the (conns w r)"

definition set_conn :: "world \<Rightarrow> conn_ref \<Rightarrow> raft_conn \<Rightarrow> world" where
  "set_conn w r c = w\<lparr>conns := (conns w)(r \<mapsto> c)\<rparr>"

definition upd_conn :: "world \<Rightarrow> conn_ref \<Rightarrow> (raft_conn \<Rightarrow> raft_conn) \<Rightarrow> world" where
  "upd_conn w r f = set_conn w r (f (conn_of w r))"

definition log_of :: "world \<Rightarrow> nat \<Rightarrow> log" where
  "log_of w a = the (logs w a)"

text \<open>\<open>log_borrow\<close> and \<open>log_return\<close> on the store: the last return frees the log.\<close>

definition borrow_log :: "world \<Rightarrow> nat \<Rightarrow> world" where
  "borrow_log w a = w\<lparr>logs := (logs w)(a \<mapsto> log_borrow (log_of w a))\<rparr>"

definition return_log :: "world \<Rightarrow> nat \<Rightarrow> world" where
  "return_log w a = w\<lparr>logs := (logs w)(a := log_return (log_of w a))\<rparr>"

text \<open>A new log at a new address, or nothing when \<open>malloc\<close> fails.\<close>

definition new_log :: "world \<Rightarrow> log option \<Rightarrow> nat option \<times> world" where
  "new_log w block =
     (case block of
        None \<Rightarrow> (None, w\<lparr>calls := calls w + 1\<rparr>)
      | Some log \<Rightarrow> (Some (next_addr w),
          w\<lparr>calls := calls w + 1, next_addr := next_addr w + 1, logs := (logs w)(next_addr w \<mapsto> log)\<rparr>))"

definition conn_borrowed_log :: "raft_conn \<Rightarrow> bool" where
  "conn_borrowed_log c \<longleftrightarrow> state_code (rc_state c) AND EPOLLLOG \<noteq> 0"

definition raft_conn_set_io :: "raft_conn_state \<Rightarrow> u64 \<Rightarrow> raft_conn \<Rightarrow> raft_conn" where
  "raft_conn_set_io st sz c = c\<lparr>rc_state := st, unio := sz\<rparr>"

definition raft_in_conn_malloc :: "os \<Rightarrow> world \<Rightarrow> int \<Rightarrow> bool \<Rightarrow> conn_ref option \<times> world" where
  "raft_in_conn_malloc os w f adm =
     (let w' = w\<lparr>calls := calls w + 1\<rparr>
      in if os_mem os (calls w) then
           let r = In (next_addr w);
               c = (os_conn os (calls w))\<lparr>fd := f, admin := adm\<rparr>
           in (Some r, set_conn (w'\<lparr>next_addr := next_addr w + 1\<rparr>) r
                 (raft_conn_set_io RAFT_CONN_STATE_IN_CMD RAFT_CONN_BUFFER_SIZE c))
         else (None, w'))"

definition raft_out_conn_init :: "raft_conn \<Rightarrow> raft_conn" where
  "raft_out_conn_init c = c\<lparr>rc_state := RAFT_CONN_STATE_NOT_CONNECTED\<rparr>"

definition raft_conn_borrow_log ::
  "world \<Rightarrow> conn_ref \<Rightarrow> nat \<Rightarrow> raft_conn_state \<Rightarrow> u64 \<Rightarrow> world" where
  "raft_conn_borrow_log w r a st sz =
     (let w = upd_conn w r (raft_conn_set_io st sz);
          w = upd_conn w r (\<lambda>c. c\<lparr>rc_log := a\<rparr>)
      in borrow_log w a)"

definition raft_conn_return_log :: "world \<Rightarrow> conn_ref \<Rightarrow> world" where
  "raft_conn_return_log w r = return_log w (rc_log (conn_of w r))"

definition raft_conn_change_to_ready_for_use :: "raft_conn \<Rightarrow> raft_conn" where
  "raft_conn_change_to_ready_for_use c = c\<lparr>rc_state := RAFT_CONN_STATE_READY_FOR_USE\<rparr>"

definition raft_conn_outgoing :: "raft_conn \<Rightarrow> bool" where
  "raft_conn_outgoing c \<longleftrightarrow> state_code (rc_state c) < state_code RAFT_CONN_OUTGOING_INCOMING_DIVIDER"

definition raft_conn_free :: "world \<Rightarrow> conn_ref \<Rightarrow> world" where
  "raft_conn_free w r =
     (let c = conn_of w r;
          w = (if conn_borrowed_log c then raft_conn_return_log w r
               else if state_code (rc_state c) > state_code RAFT_CONN_STATE_AUTHORITY_DIVIDER
               then w\<lparr>authority := remove1 r (authority w)\<rparr> else w)
      in w\<lparr>closed := closed w @ [fd c], conns := (conns w)(r := None)\<rparr>)"

definition raft_conn_clear :: "world \<Rightarrow> conn_ref \<Rightarrow> world" where
  "raft_conn_clear w r =
     (let c = conn_of w r;
          w = (if conn_borrowed_log c then raft_conn_return_log w r else w);
          w = upd_conn w r (\<lambda>c. c\<lparr>rc_state := RAFT_CONN_STATE_NOT_CONNECTED\<rparr>)
      in w\<lparr>closed := closed w @ [fd c]\<rparr>)"

definition conn_drop :: "world \<Rightarrow> conn_ref \<Rightarrow> bool \<Rightarrow> world" where
  "conn_drop w r inc = (if inc then raft_conn_free w r else raft_conn_clear w r)"

definition conn_check_read :: "world \<Rightarrow> conn_ref \<Rightarrow> bool \<Rightarrow> io \<Rightarrow> bool \<times> world" where
  "conn_check_read w r inc n =
     (case n of
        Moved bs \<Rightarrow>
          if bs \<noteq> [] then (True, upd_conn w r (\<lambda>c. c\<lparr>unio := unio c - of_nat (length bs)\<rparr>))
          else (False, conn_drop w r inc)
      | Again \<Rightarrow> (False, w)
      | Fail \<Rightarrow> (False, conn_drop w r inc))"

text \<open>\<open>read\<close>: at most the bytes asked for; \<open>send\<close> and \<open>sendmsg\<close>: a prefix of the data, not empty.\<close>

definition sys_read :: "os \<Rightarrow> nat \<Rightarrow> nat \<Rightarrow> io" where
  "sys_read os n cnt = (case os_io os n of Moved bs \<Rightarrow> Moved (take cnt bs) | x \<Rightarrow> x)"

definition sys_send :: "os \<Rightarrow> nat \<Rightarrow> u8 list \<Rightarrow> io" where
  "sys_send os n bytes =
     (case os_io os n of Moved bs \<Rightarrow> if bs = [] \<or> bytes = [] then Again else Moved (take (length bs) bytes) | x \<Rightarrow> x)"

definition raft_conn_read ::
  "os \<Rightarrow> world \<Rightarrow> conn_ref \<Rightarrow> bool \<Rightarrow> (u8 list \<Rightarrow> raft_conn \<Rightarrow> raft_conn) \<Rightarrow> bool \<times> world" where
  "raft_conn_read os w r inc store =
     (let n = sys_read os (calls w) (unat (unio (conn_of w r)));
          w = w\<lparr>calls := calls w + 1\<rparr>;
          w = (case n of Moved bs \<Rightarrow> upd_conn w r (store bs) | _ \<Rightarrow> w)
      in conn_check_read w r inc n)"

definition raft_conn_full_read ::
  "os \<Rightarrow> world \<Rightarrow> conn_ref \<Rightarrow> bool \<Rightarrow> (u8 list \<Rightarrow> raft_conn \<Rightarrow> raft_conn) \<Rightarrow> bool \<times> world" where
  "raft_conn_full_read os w r inc store =
     (let (ok, w) = raft_conn_read os w r inc store in (ok \<and> unio (conn_of w r) = 0, w))"

text \<open>The destinations of a read: the buffer from an offset on, the machines of the borrowed log.\<close>

definition to_buffer :: "u64 \<Rightarrow> u8 list \<Rightarrow> raft_conn \<Rightarrow> raft_conn" where
  "to_buffer off bs c = c\<lparr>buffer := overwrite (unat off) bs (buffer c)\<rparr>"

definition to_machines :: "u8 list \<Rightarrow> raft_conn \<Rightarrow> raft_conn" where
  "to_machines bs c = c\<lparr>rx := rx c @ bs\<rparr>"

definition raft_conn_full_read_to_buffer ::
  "os \<Rightarrow> world \<Rightarrow> conn_ref \<Rightarrow> bool \<Rightarrow> u64 \<Rightarrow> bool \<times> world" where
  "raft_conn_full_read_to_buffer os w r inc sz =
     (let readed = sz - unio (conn_of w r)
      in raft_conn_full_read os w r inc (to_buffer readed))"

definition conn_check_write :: "world \<Rightarrow> conn_ref \<Rightarrow> bool \<Rightarrow> io \<Rightarrow> bool \<times> world" where
  "conn_check_write w r inc n =
     (case n of
        Moved bs \<Rightarrow> (True, upd_conn w r (\<lambda>c. c\<lparr>unio := unio c - of_nat (length bs)\<rparr>))
      | Again \<Rightarrow> (False, w)
      | Fail \<Rightarrow> (False, conn_drop w r inc))"

definition note_sent :: "world \<Rightarrow> int \<Rightarrow> io \<Rightarrow> world" where
  "note_sent w f n =
     (case n of Moved bs \<Rightarrow> w\<lparr>calls := calls w + 1, sent := sent w @ [(f, bs)]\<rparr>
      | _ \<Rightarrow> w\<lparr>calls := calls w + 1\<rparr>)"

definition conn_write :: "os \<Rightarrow> world \<Rightarrow> conn_ref \<Rightarrow> bool \<Rightarrow> u8 list \<Rightarrow> bool \<times> world" where
  "conn_write os w r inc bytes =
     (let c = conn_of w r;
          n = sys_send os (calls w) (take (unat (unio c)) bytes)
      in conn_check_write (note_sent w (fd c) n) r inc n)"

definition conn_full_write :: "os \<Rightarrow> world \<Rightarrow> conn_ref \<Rightarrow> bool \<Rightarrow> u8 list \<Rightarrow> bool \<times> world" where
  "conn_full_write os w r inc bytes =
     (let (ok, w) = conn_write os w r inc bytes in (ok \<and> unio (conn_of w r) = 0, w))"

definition raft_conn_full_write_buffer ::
  "os \<Rightarrow> world \<Rightarrow> conn_ref \<Rightarrow> bool \<Rightarrow> u64 \<Rightarrow> bool \<times> world" where
  "raft_conn_full_write_buffer os w r inc sz =
     (let written = sz - unio (conn_of w r)
      in conn_full_write os w r inc (drop (unat written) (buffer (conn_of w r))))"

definition conn_write_msg :: "os \<Rightarrow> world \<Rightarrow> conn_ref \<Rightarrow> bool \<Rightarrow> u8 list list \<Rightarrow> bool \<times> world" where
  "conn_write_msg os w r inc iov =
     (let n = sys_send os (calls w) (concat iov)
      in conn_check_write (note_sent w (fd (conn_of w r)) n) r inc n)"

definition raft_conn_full_write_msg ::
  "os \<Rightarrow> world \<Rightarrow> conn_ref \<Rightarrow> bool \<Rightarrow> u8 list list \<Rightarrow> bool \<times> world" where
  "raft_conn_full_write_msg os w r inc iov =
     (let (ok, w) = conn_write_msg os w r inc iov in (ok \<and> unio (conn_of w r) = 0, w))"

definition raft_conn_write_byte_zero :: "os \<Rightarrow> world \<Rightarrow> conn_ref \<Rightarrow> bool \<Rightarrow> bool \<times> world" where
  "raft_conn_write_byte_zero os w r inc =
     (let n = sys_send os (calls w) [0];
          w = note_sent w (fd (conn_of w r)) n
      in case n of Moved _ \<Rightarrow> (True, w) | Again \<Rightarrow> (False, w) | Fail \<Rightarrow> (False, conn_drop w r inc))"

section \<open>Counting the references to logs\<close>

text \<open>
  \<open>lent\<close> is the log an entry of the store holds; \<open>refs ext Z L C\<close> says that the reference count
  of every log is the number of connections that hold it plus the number \<open>ext\<close> of holders that are
  not connections, that nothing holds a freed log, and that only a log in \<open>Z\<close> may be unreferenced.
\<close>

definition lent :: "raft_conn option \<Rightarrow> nat option" where
  "lent e = (case e of Some c \<Rightarrow> if conn_borrowed_log c then Some (rc_log c) else None | None \<Rightarrow> None)"

definition holders :: "(conn_ref \<rightharpoonup> raft_conn) \<Rightarrow> nat \<Rightarrow> conn_ref set" where
  "holders C a = {r. lent (C r) = Some a}"

definition log_counted :: "nat \<Rightarrow> bool \<Rightarrow> log option \<Rightarrow> bool" where
  "log_counted n z e =
     (case e of None \<Rightarrow> n = 0 | Some l \<Rightarrow> refcount l = int n \<and> (z \<or> 0 < n))"

definition refs :: "(nat \<Rightarrow> nat) \<Rightarrow> nat set \<Rightarrow> (nat \<rightharpoonup> log) \<Rightarrow> (conn_ref \<rightharpoonup> raft_conn) \<Rightarrow> bool" where
  "refs ext Z L C \<longleftrightarrow>
     finite (dom C) \<and> (\<forall>a. log_counted (card (holders C a) + ext a) (a \<in> Z) (L a))"

text \<open>
  One call of the operating system on a connection: the connection is kept with its state and its
  log, or, when the call moved nothing, dropped.
\<close>

definition io_step :: "world \<Rightarrow> conn_ref \<Rightarrow> bool \<Rightarrow> bool \<Rightarrow> world \<Rightarrow> bool" where
  "io_step w r inc ok w' \<longleftrightarrow>
     (\<exists>w0 c'. conns w0 = (conns w)(r \<mapsto> c') \<and> rc_state c' = rc_state (conn_of w r) \<and> rc_log c' = rc_log (conn_of w r) \<and>
        logs w0 = logs w \<and> authority w0 = authority w \<and> next_addr w0 = next_addr w \<and>
        (w' = w0 \<or> \<not> ok \<and> w' = conn_drop w0 r inc))"

lemma lent_simps [simp]: "lent None = None"
  by (simp add: lent_def)

lemma lent_eq:
  "rc_state c' = rc_state c \<Longrightarrow> rc_log c' = rc_log c \<Longrightarrow> lent (Some c') = lent (Some c)"
  by (simp add: lent_def conn_borrowed_log_def)

lemma holders_upd:
  "holders (C(r := e)) a = (if lent e = Some a then insert r (holders C a) else holders C a - {r})"
  by (auto simp: holders_def)

lemma finite_holders: "finite (dom C) \<Longrightarrow> finite (holders C a)"
  by (rule finite_subset [of _ "dom C"]) (auto simp: holders_def lent_def split: option.splits)

lemma refs_same:
  assumes "refs ext Z L C" "lent e = lent (C r)"
  shows "refs ext Z L (C(r := e))"
proof -
  have "holders (C(r := e)) a = holders C a" for a
    using assms(2) by (auto simp: holders_def)
  then show ?thesis
    using assms(1) by (auto simp: refs_def intro: finite_subset [of _ "insert r (dom C)"])
qed

lemma refs_change:
  assumes "refs ext Z L C"
    and "\<And>a. log_counted (card (holders C a) + ext a) (a \<in> Z) (L a) \<Longrightarrow>
      log_counted (card (holders (C(r := e)) a) + ext' a) (a \<in> Z') (L' a)"
  shows "refs ext' Z' L' (C(r := e))"
  using assms by (auto simp: refs_def intro: finite_subset [of _ "insert r (dom C)"])

lemma log_counted_return:
  "log_counted (Suc n) z (Some l) \<Longrightarrow> log_counted n z' (log_return l)"
  by (auto simp: log_counted_def log_return_def Let_def)

lemma log_counted_borrow:
  "log_counted n z (Some l) \<Longrightarrow> log_counted (Suc n) z' (Some (log_borrow l))"
  by (auto simp: log_counted_def log_borrow_def)

lemma log_counted_Some: "log_counted (Suc n) z e \<Longrightarrow> \<exists>l. e = Some l"
  by (auto simp: log_counted_def split: option.splits)

lemma refs_return:
  assumes r: "refs ext Z L C" and l: "lent (C r) = Some a" and e: "lent e = None"
  shows "refs ext Z (L(a := log_return (the (L a)))) (C(r := e))"
proof (rule refs_change [OF r])
  fix b assume b: "log_counted (card (holders C b) + ext b) (b \<in> Z) (L b)"
  have fin: "finite (holders C b)" using r finite_holders by (auto simp: refs_def)
  show "log_counted (card (holders (C(r := e)) b) + ext b) (b \<in> Z) ((L(a := log_return (the (L a)))) b)"
  proof (cases "b = a")
    case True
    have "r \<in> holders C a" using l by (simp add: holders_def)
    then have "card (holders C a) = Suc (card (holders C a - {r}))"
      using fin True by (metis card_Suc_Diff1)
    then show ?thesis
      using b True e log_counted_Some [of "card (holders C a - {r}) + ext a" "a \<in> Z" "L a"]
        log_counted_return [of "card (holders C a - {r}) + ext a" "a \<in> Z"]
      by (auto simp: holders_upd)
  next
    case False
    then have "r \<notin> holders C b" using l by (auto simp: holders_def)
    then show ?thesis using b False e by (simp add: holders_upd)
  qed
qed

lemma refs_borrow:
  assumes r: "refs ext Z L C" and l: "lent (C r) = None" and e: "lent e = Some a" and a: "L a = Some m"
  shows "refs ext (Z - {a}) (L(a \<mapsto> log_borrow m)) (C(r := e))"
proof (rule refs_change [OF r])
  fix b assume b: "log_counted (card (holders C b) + ext b) (b \<in> Z) (L b)"
  have fin: "finite (holders C b)" using r finite_holders by (auto simp: refs_def)
  have n: "r \<notin> holders C b" using l by (auto simp: holders_def)
  show "log_counted (card (holders (C(r := e)) b) + ext b) (b \<in> Z - {a}) ((L(a \<mapsto> log_borrow m)) b)"
  proof (cases "b = a")
    case True
    then show ?thesis
      using b n fin e a log_counted_borrow [of "card (holders C a) + ext a" "a \<in> Z" m "a \<in> Z - {a}"]
      by (simp add: holders_upd)
  next
    case False
    then show ?thesis using b n e by (simp add: holders_upd)
  qed
qed

lemma refs_at:
  assumes "refs ext Z L C" "\<And>b. b \<noteq> a \<Longrightarrow> ext' b = ext b" "\<And>b. b \<noteq> a \<Longrightarrow> L' b = L b" "Z - {a} \<subseteq> Z'"
    and "log_counted (card (holders C a) + ext a) (a \<in> Z) (L a) \<Longrightarrow>
      log_counted (card (holders C a) + ext' a) (a \<in> Z') (L' a)"
  shows "refs ext' Z' L' C"
  unfolding refs_def
proof (intro conjI allI)
  fix b
  have b: "log_counted (card (holders C b) + ext b) (b \<in> Z) (L b)" using assms(1) by (simp add: refs_def)
  show "log_counted (card (holders C b) + ext' b) (b \<in> Z') (L' b)"
  proof (cases "b = a")
    case False
    then show ?thesis using b assms(2-4) by (auto simp: log_counted_def split: option.splits)
  qed (use b assms(5) in simp)
qed (use assms(1) in \<open>simp add: refs_def\<close>)

lemma refs_ext_return:
  assumes "refs ext Z L C" "0 < ext a"
  shows "refs (ext(a := ext a - 1)) Z (L(a := log_return (the (L a)))) C"
proof (rule refs_at [OF assms(1), of a])
  assume b: "log_counted (card (holders C a) + ext a) (a \<in> Z) (L a)"
  have "card (holders C a) + ext a = Suc (card (holders C a) + (ext a - 1))" using assms(2) by simp
  then show "log_counted (card (holders C a) + (ext(a := ext a - 1)) a) (a \<in> Z) ((L(a := log_return (the (L a)))) a)"
    using b log_counted_Some [of "card (holders C a) + (ext a - 1)" "a \<in> Z" "L a"]
      log_counted_return [of "card (holders C a) + (ext a - 1)" "a \<in> Z"] by auto
qed auto

lemma refs_ext_borrow:
  assumes "refs ext Z L C" "L a = Some m"
  shows "refs (ext(a := Suc (ext a))) (Z - {a}) (L(a \<mapsto> log_borrow m)) C"
  by (rule refs_at [OF assms(1), of a]) (use assms(2) log_counted_borrow in auto)

lemma refs_new:
  assumes "refs ext Z L C" "L a = None" "refcount m = 0"
  shows "refs ext (insert a Z) (L(a \<mapsto> m)) C"
  by (rule refs_at [OF assms(1), of a]) (use assms(2,3) in \<open>auto simp: log_counted_def\<close>)

lemma refs_unused:
  assumes "refs ext Z L C" "L a = Some m" "refcount m = 0"
  shows "refs ext (Z - {a}) (L(a := None)) C"
  by (rule refs_at [OF assms(1), of a]) (use assms(2,3) in \<open>auto simp: log_counted_def\<close>)

lemma refs_content:
  assumes "refs ext Z L C" "L a = Some m" "refcount m' = refcount m"
  shows "refs ext Z (L(a \<mapsto> m')) C"
  by (rule refs_at [OF assms(1), of a]) (use assms(2,3) in \<open>auto simp: log_counted_def\<close>)

lemma refs_held:
  assumes "refs ext Z L C" "0 < ext a \<or> lent (C r) = Some a"
  obtains m where "L a = Some m"
proof -
  have fin: "finite (holders C a)" using assms(1) finite_holders by (auto simp: refs_def)
  have "0 < card (holders C a) + ext a"
    using assms(2) fin card_gt_0_iff [of "holders C a"] by (auto simp: holders_def)
  moreover have "log_counted (card (holders C a) + ext a) (a \<in> Z) (L a)"
    using assms(1) by (simp add: refs_def)
  ultimately show thesis
    using that by (auto simp: log_counted_def split: option.splits)
qed

section \<open>Connections keep the counts\<close>

lemma upd_conn_simps [simp]:
  "logs (upd_conn w r f) = logs w" "authority (upd_conn w r f) = authority w" "calls (upd_conn w r f) = calls w"
  "next_addr (upd_conn w r f) = next_addr w" "sent (upd_conn w r f) = sent w" "closed (upd_conn w r f) = closed w"
  "conns (upd_conn w r f) = (conns w)(r \<mapsto> f (conn_of w r))"
  by (simp_all add: upd_conn_def set_conn_def)

lemma conn_of_upd [simp]:
  "conn_of (upd_conn w r f) r' = (if r' = r then f (conn_of w r) else conn_of w r')"
  by (simp add: conn_of_def)

lemma log_store_simps [simp]:
  "conns (borrow_log w a) = conns w" "authority (borrow_log w a) = authority w" "next_addr (borrow_log w a) = next_addr w"
  "conns (return_log w a) = conns w" "authority (return_log w a) = authority w" "next_addr (return_log w a) = next_addr w"
  "conn_of (borrow_log w a) r = conn_of w r" "conn_of (return_log w a) r = conn_of w r"
  "sent (borrow_log w a) = sent w" "calls (borrow_log w a) = calls w"
  "sent (return_log w a) = sent w" "calls (return_log w a) = calls w" "closed (return_log w a) = closed w"
  by (simp_all add: borrow_log_def return_log_def conn_of_def)

lemma borrowed_states [simp]:
  "conn_borrowed_log c \<longleftrightarrow> rc_state c \<in> {RAFT_CONN_STATE_APPEND_LOG_OUT, RAFT_CONN_STATE_RECV_LOG_IN,
     RAFT_CONN_STATE_CLUSTER_OUT, RAFT_CONN_STATE_INIT_CLUSTER_IN, RAFT_CONN_STATE_CHANGE_CLUSTER_IN}"
  by (cases "rc_state c") (simp_all add: conn_borrowed_log_def EPOLLLOG_def EPOLLIN_def EPOLLOUT_def)

lemma io_stepI:
  assumes "conns w0 = (conns w)(r \<mapsto> c')" "rc_state c' = rc_state (conn_of w r)" "rc_log c' = rc_log (conn_of w r)"
    "logs w0 = logs w" "authority w0 = authority w" "next_addr w0 = next_addr w" "w' = w0 \<or> \<not> ok \<and> w' = conn_drop w0 r inc"
  shows "io_step w r inc ok w'"
  using assms unfolding io_step_def by blast

lemma conns_same: "conns w r = Some c \<Longrightarrow> conns w = (conns w)(r \<mapsto> conn_of w r)"
  by (simp add: conn_of_def fun_upd_idem)

lemma raft_conn_read_step:
  assumes "conns w r = Some c"
    and "\<And>bs c. rc_state (store bs c) = rc_state c" "\<And>bs c. rc_log (store bs c) = rc_log c"
    and e: "raft_conn_read os w r inc store = (ok, w')"
  shows "io_step w r inc ok w'"
proof (cases "sys_read os (calls w) (unat (unio (conn_of w r)))")
  case (Moved bs)
  let ?w = "upd_conn (w\<lparr>calls := calls w + 1\<rparr>) r (store bs)"
  show ?thesis
  proof (cases "bs = []")
    case True
    then show ?thesis
      using e Moved assms(2,3)
      by (intro io_stepI [of ?w _ _ "store bs (conn_of w r)"]) (auto simp: raft_conn_read_def conn_check_read_def conn_of_def)
  next
    case False
    then show ?thesis
      using e Moved assms(2,3)
      by (intro io_stepI [of "upd_conn ?w r (\<lambda>c. c\<lparr>unio := unio c - of_nat (length bs)\<rparr>)" _ _
            "(store bs (conn_of w r))\<lparr>unio := unio (store bs (conn_of w r)) - of_nat (length bs)\<rparr>"])
        (auto simp: raft_conn_read_def conn_check_read_def conn_of_def)
  qed
qed (use e assms(1) conns_same [OF assms(1)] in
    \<open>auto simp: raft_conn_read_def conn_check_read_def intro: io_stepI [of "w\<lparr>calls := calls w + 1\<rparr>" _ _ "conn_of w r"]\<close>)

lemma conn_check_write_step:
  assumes "conns w r = Some c" and e: "conn_check_write (note_sent w f n) r inc n = (ok, w')"
  shows "io_step w r inc ok w'"
proof (cases n)
  case (Moved bs)
  then show ?thesis
    using e by (intro io_stepI [of w' _ _ "(conn_of w r)\<lparr>unio := unio (conn_of w r) - of_nat (length bs)\<rparr>"])
      (auto simp: conn_check_write_def note_sent_def conn_of_def)
qed (use e assms(1) conns_same [OF assms(1)] in
    \<open>auto simp: conn_check_write_def note_sent_def intro: io_stepI [of "w\<lparr>calls := calls w + 1\<rparr>" _ _ "conn_of w r"]\<close>)

text \<open>A full read or write is the call and the test that nothing is left.\<close>

lemma io_step_full:
  assumes "(let (ok, w') = p in (ok \<and> unio (conn_of w' r) = 0, w')) = (ok, w')"
    and "\<And>ok w'. p = (ok, w') \<Longrightarrow> io_step w r inc ok w'"
  shows "io_step w r inc ok w'"
proof (cases p)
  case (Pair ok1 w1)
  with assms(1) have "w' = w1" "ok \<longrightarrow> ok1" by auto
  with assms(2) [OF Pair] show ?thesis by (auto simp: io_step_def)
qed

lemma raft_conn_full_read_step:
  assumes "conns w r = Some c"
    and "\<And>bs c. rc_state (store bs c) = rc_state c" "\<And>bs c. rc_log (store bs c) = rc_log c"
    and "raft_conn_full_read os w r inc store = (ok, w')"
  shows "io_step w r inc ok w'"
  by (rule io_step_full [OF assms(4) [unfolded raft_conn_full_read_def]])
    (rule raft_conn_read_step [OF assms(1-3)])

lemma to_fields [simp]:
  "rc_state (to_buffer off bs c) = rc_state c" "rc_log (to_buffer off bs c) = rc_log c"
  "rc_state (to_machines bs c) = rc_state c" "rc_log (to_machines bs c) = rc_log c"
  by (simp_all add: to_buffer_def to_machines_def)

lemma raft_conn_full_read_to_buffer_step:
  assumes "conns w r = Some c" "raft_conn_full_read_to_buffer os w r inc sz = (ok, w')"
  shows "io_step w r inc ok w'"
  by (rule raft_conn_full_read_step [OF assms(1) _ _ assms(2) [unfolded raft_conn_full_read_to_buffer_def Let_def]])
    simp_all

lemma raft_conn_full_write_buffer_step:
  assumes "conns w r = Some c" "raft_conn_full_write_buffer os w r inc sz = (ok, w')"
  shows "io_step w r inc ok w'"
proof (rule io_step_full)
  show "(let (ok, w') = conn_write os w r inc (drop (unat (sz - unio (conn_of w r))) (buffer (conn_of w r)))
    in (ok \<and> unio (conn_of w' r) = 0, w')) = (ok, w')"
    using assms(2) by (simp add: raft_conn_full_write_buffer_def conn_full_write_def Let_def)
qed (simp add: conn_write_def Let_def conn_check_write_step [OF assms(1)])

lemma raft_conn_full_write_msg_step:
  assumes "conns w r = Some c" "raft_conn_full_write_msg os w r inc iov = (ok, w')"
  shows "io_step w r inc ok w'"
  by (rule io_step_full [OF assms(2) [unfolded raft_conn_full_write_msg_def]])
    (simp add: conn_write_msg_def Let_def conn_check_write_step [OF assms(1)])

lemma raft_conn_write_byte_zero_step:
  assumes "conns w r = Some c" "raft_conn_write_byte_zero os w r inc = (ok, w')"
  shows "io_step w r inc ok w'"
proof -
  let ?n = "sys_send os (calls w) [0]"
  show ?thesis
    using assms(2) conns_same [OF assms(1)]
    by (intro io_stepI [of "note_sent w (fd (conn_of w r)) ?n" _ _ "conn_of w r"])
      (auto simp: raft_conn_write_byte_zero_def Let_def note_sent_def split: io.splits)
qed

end
