(* ===== verification/Cluster.thy ===== *)
theory Cluster
  imports Raft_Conn
begin

text \<open>
  Members of a cluster as its leader or candidate sees them, \<open>src/member.c\<close> and \<open>src/member.h\<close>,
  and the cluster with the votes it requires, \<open>src/cluster.c\<close> and \<open>src/cluster.h\<close>.

  The connection embedded in a member is in the store of connections, at the address that names the
  cluster and the index of the member. \<open>round0\<close> gives the one field that initialising a member
  leaves as \<open>malloc\<close> left it. A pointer to a member is its index; the chain of stale clusters is a
  list of addresses in the server.
\<close>

section \<open>Definitions\<close>

definition MEMBER_TYPE_OLD :: u8 where "MEMBER_TYPE_OLD = 1"
definition MEMBER_TYPE_NEW :: u8 where "MEMBER_TYPE_NEW = 2"
definition MEMBER_TYPE_ALL :: u8 where "MEMBER_TYPE_ALL = MEMBER_TYPE_OLD + MEMBER_TYPE_NEW"

definition MEMBER_IN_OLD :: "u8 \<Rightarrow> u32" where
  "MEMBER_IN_OLD typ = ucast (typ AND MEMBER_TYPE_OLD)"

definition MEMBER_IN_NEW :: "u8 \<Rightarrow> u32" where
  "MEMBER_IN_NEW typ = ucast (drop_bit 1 typ)"

record member =
  mb_id :: u32
  unstable_round :: u8
  mb_type :: u8
  mb_port :: "u8 list"
  mb_addr :: "u8 list"
  available :: bool
  responded_append_entry :: bool
  append_entry_round :: u64
  next_index :: u64
  match_index :: u64

definition member_id_cmp :: "u32 \<Rightarrow> u32 \<Rightarrow> int" where
  "member_id_cmp a b = (if a > b then 1 else 0) - (if a < b then 1 else 0)"

definition members_sort_by_id :: "member list \<Rightarrow> member list" where
  "members_sort_by_id ms = qsort (\<lambda>a b. member_id_cmp (mb_id a) (mb_id b)) ms"

definition members_search_id :: "member list \<Rightarrow> nat \<Rightarrow> u32 \<Rightarrow> nat option" where
  "members_search_id ms n i = bsearch (\<lambda>k. member_id_cmp i (mb_id (ms ! k))) [0..<n] 0 n"

definition init_member :: "u64 \<Rightarrow> machine \<Rightarrow> u8 \<Rightarrow> member" where
  "init_member round0 m typ =
     \<lparr>mb_id = machine_id m, unstable_round = 0, mb_type = typ, mb_port = sin6_port m, mb_addr = sin6_addr m,
      available = machine_available m, responded_append_entry = False, append_entry_round = round0,
      next_index = 0, match_index = 0\<rparr>"

text \<open>The members written from index \<open>k\<close> on.\<close>

fun init_members :: "(nat \<Rightarrow> u64) \<Rightarrow> nat \<Rightarrow> u8 \<Rightarrow> machine list \<Rightarrow> u32 \<Rightarrow> member list" where
  "init_members round0 k typ [] leader = []"
| "init_members round0 k typ (m # ms) leader =
     (if machine_id m \<noteq> leader then init_member (round0 k) m typ # init_members round0 (Suc k) typ ms leader
      else init_members round0 k typ ms leader)"

text \<open>The loop of \<open>init_adjust\<close> over the new machines; the first \<open>sorted\<close> members are searched.\<close>

fun adjust_members :: "(nat \<Rightarrow> u64) \<Rightarrow> nat \<Rightarrow> member list \<Rightarrow> machine list \<Rightarrow> u32 \<Rightarrow> member list" where
  "adjust_members round0 n ms [] leader = ms"
| "adjust_members round0 n ms (m # news) leader =
     (if machine_id m \<noteq> leader then
        case members_search_id ms n (machine_id m) of
          Some i \<Rightarrow> adjust_members round0 n (ms[i := (ms ! i)\<lparr>mb_type := MEMBER_TYPE_ALL\<rparr>]) news leader
        | None \<Rightarrow> adjust_members round0 n (ms @ [init_member (round0 (length ms)) m MEMBER_TYPE_NEW]) news leader
      else adjust_members round0 n ms news leader)"

definition init_adjust :: "(nat \<Rightarrow> u64) \<Rightarrow> log \<Rightarrow> u32 \<Rightarrow> member list" where
  "init_adjust round0 log leader =
     (let n = unat (old_n log);
          ms = init_members round0 0 MEMBER_TYPE_OLD (take n (l_machines log)) leader;
          ms = members_sort_by_id ms
      in adjust_members round0 (length ms) ms (take n (drop n (l_machines log))) leader)"

text \<open>\<open>init\<close>: the first \<open>k\<close> of \<open>n\<close> machines are in both configurations.\<close>

definition init_both :: "(nat \<Rightarrow> u64) \<Rightarrow> u32 \<Rightarrow> u8 \<Rightarrow> nat \<Rightarrow> nat \<Rightarrow> machine list \<Rightarrow> member list" where
  "init_both round0 leader extra_type k n machines =
     (let ms = init_members round0 0 MEMBER_TYPE_ALL (take k machines) leader
      in ms @ init_members round0 (length ms) extra_type (take (n - k) (drop k machines)) leader)"

definition members_init :: "(nat \<Rightarrow> u64) \<Rightarrow> log \<Rightarrow> u32 \<Rightarrow> member list" where
  "members_init round0 log leader =
     members_sort_by_id
       (if l_type log = LOG_TYPE_ADJUST then init_adjust round0 log leader
        else if new_n log \<ge> old_n log then
          init_both round0 leader MEMBER_TYPE_NEW (unat (old_n log)) (unat (new_n log))
            (drop (unat (old_n log)) (l_machines log))
        else init_both round0 leader MEMBER_TYPE_OLD (unat (new_n log)) (unat (old_n log)) (l_machines log))"

record cluster =
  require_old_votes :: u32
  require_new_votes :: u32
  members_n :: u32
  members :: "member list"

definition majority :: "u32 \<Rightarrow> u32" where
  "majority n = n div 2 + 1"

definition cluster_malloc :: "(nat \<Rightarrow> u64) option \<Rightarrow> log \<Rightarrow> u32 \<Rightarrow> cluster option" where
  "cluster_malloc block log leader =
     (let leader_in_old = log_machines_find_old log leader \<noteq> None;
          leader_in_new = log_machines_find_new log leader \<noteq> None;
          n = (ucast (distinct_machines_n log) :: u32);
          n = (if leader_in_old \<or> leader_in_new then n - 1 else n)
      in map_option (\<lambda>round0.
           \<lparr>require_old_votes = (if leader_in_old then majority (old_n log) - 1 else majority (old_n log)),
            require_new_votes =
              (if new_n log = 0 then 0
               else if leader_in_new then majority (new_n log) - 1 else majority (new_n log)),
            members_n = n,
            members = members_init round0 log leader\<rparr>) block)"

definition cluster_search :: "cluster \<Rightarrow> machine \<Rightarrow> member option" where
  "cluster_search cl m =
     map_option (\<lambda>i. members cl ! i) (members_search_id (members cl) (unat (members_n cl)) (machine_id m))"

definition log_malloc_change_available :: "log_alloc \<Rightarrow> cluster \<Rightarrow> log \<Rightarrow> u64 \<Rightarrow> log outcome option" where
  "log_malloc_change_available alloc cl old trm =
     (let n = unat (old_n old)
      in map_option (\<lambda>log.
           let new_machines = machines_copy (drop n (l_machines log)) (l_machines old) n;
               new_machines = map (\<lambda>m.
                 case cluster_search cl m of
                   Some member \<Rightarrow> machine_set_stability m (available member)
                 | None \<Rightarrow> machine_set_stability m True) (take n new_machines) @ drop n new_machines
           in log_complete_change_available
                (log\<lparr>l_machines := take n (l_machines log) @ new_machines\<rparr>) old trm)
         (log_malloc_unstable alloc (old_n old) (old_n old)))"

end
