(* ===== verification/Raft_Server.thy ===== *)
theory Raft_Server
  imports Cluster
begin

text \<open>
  The cluster server, \<open>src/service_raft.c\<close>: elections, replication of the log, changes of the
  cluster, the connections of users and peers, and one round of the event loop.

  The state is the C struct with the world of logs and connections. The fields of its union are
  separate fields: every change of the server's role writes those of the new role before they are
  read. A cluster is a store entry, the connections of its members are in the store of connections.
  A function that may end the process sets \<open>halted\<close>, and the event loop stops there. Reads and
  writes on a connection go through the operating system of \<open>os\<close>. Timers, listening sockets and
  \<open>epoll\<close> registrations have no state here; an accepted socket, a timer tick and a readiness event
  are the events of a round.
\<close>

section \<open>Definitions\<close>

definition CONFIG_THREAD_NR :: u32 where
  "CONFIG_THREAD_NR = 4"

datatype server_state = SERVER_STATE_LEADER | SERVER_STATE_CANDIDATE | SERVER_STATE_FOLLOWER

record server =
  net :: world
  s_id :: u32
  s_term :: u64
  timer_ticks :: u8
  s_state :: server_state
  replicate_entry_round :: u64
  commit_entry_required_old_votes :: u32
  commit_entry_required_new_votes :: u32
  entry_commited :: bool
  replicate_entry_wanted :: bool
  leader_available :: bool
  required_old_votes :: u32
  required_new_votes :: u32
  voted_for :: u32
  follower_leader :: u32
  s_log :: nat
  stale_cluster :: "nat list"
  s_cluster :: "nat option"
  clusters :: "nat \<rightharpoonup> cluster"
  dispatched :: "(u32 \<times> int) list"
  halted :: bool

definition cur_log :: "server \<Rightarrow> log" where
  "cur_log s = log_of (net s) (s_log s)"

definition cluster_at :: "server \<Rightarrow> nat \<Rightarrow> cluster" where
  "cluster_at s k = the (clusters s k)"

definition cur_cluster :: "server \<Rightarrow> cluster" where
  "cur_cluster s = cluster_at s (the (s_cluster s))"

text \<open>The members the loops of the code visit.\<close>

definition cluster_members :: "cluster \<Rightarrow> member list" where
  "cluster_members cl = take (unat (members_n cl)) (members cl)"

text \<open>\<open>container_of\<close>: the member a connection is embedded in.\<close>

fun member_of :: "server \<Rightarrow> conn_ref \<Rightarrow> member" where
  "member_of s (Out k i) = members (cluster_at s k) ! i"
| "member_of s (In p) = undefined"

fun upd_member :: "server \<Rightarrow> conn_ref \<Rightarrow> (member \<Rightarrow> member) \<Rightarrow> server" where
  "upd_member s (Out k i) f =
     (let cl = cluster_at s k
      in s\<lparr>clusters := (clusters s)(k \<mapsto> cl\<lparr>members := (members cl)[i := f (members cl ! i)]\<rparr>)\<rparr>)"
| "upd_member s (In p) f = s"

subsection \<open>Roles\<close>

definition server_borrow_log :: "server \<Rightarrow> nat \<Rightarrow> server" where
  "server_borrow_log s a = s\<lparr>net := borrow_log (net s) a, s_log := a\<rparr>"

definition server_replace_log :: "server \<Rightarrow> nat \<Rightarrow> server" where
  "server_replace_log s a = server_borrow_log (s\<lparr>net := return_log (net s) (s_log s)\<rparr>) a"

definition leader_log_commited :: "server \<Rightarrow> bool" where
  "leader_log_commited s =
     (let cl = cur_cluster s;
          commited = filter (\<lambda>m. match_index m \<ge> l_index (cur_log s)) (cluster_members cl);
          old_commited = sum_list (map (\<lambda>m. MEMBER_IN_OLD (mb_type m)) commited);
          new_commited = sum_list (map (\<lambda>m. MEMBER_IN_NEW (mb_type m)) commited)
      in old_commited \<ge> require_old_votes cl \<and> new_commited \<ge> require_new_votes cl)"

definition reset_timer :: "server \<Rightarrow> server" where
  "reset_timer s = s\<lparr>timer_ticks := 0\<rparr>"

definition reset_timer_hard :: "server \<Rightarrow> server" where
  "reset_timer_hard s = reset_timer s"

definition set_timer :: "server \<Rightarrow> u32 \<Rightarrow> server" where
  "set_timer s i = reset_timer_hard s"

definition election_timeout :: "server \<Rightarrow> bool" where
  "election_timeout s \<longleftrightarrow> timer_ticks s > 10"

definition server_replace_cluster :: "server \<Rightarrow> nat option \<Rightarrow> server" where
  "server_replace_cluster s cl =
     s\<lparr>stale_cluster := the (s_cluster s) # stale_cluster s, s_cluster := cl\<rparr>"

definition reset_follower :: "server \<Rightarrow> server" where
  "reset_follower s = s\<lparr>voted_for := 0, follower_leader := 0\<rparr>"

definition convert_to_follower :: "server \<Rightarrow> server" where
  "convert_to_follower s =
     server_replace_cluster (reset_timer (reset_follower (s\<lparr>s_state := SERVER_STATE_FOLLOWER\<rparr>))) None"

definition server_increase_term :: "server \<Rightarrow> u64 \<Rightarrow> server" where
  "server_increase_term s trm =
     (let s = s\<lparr>s_term := trm\<rparr>
      in if s_state s = SERVER_STATE_FOLLOWER then reset_follower s else convert_to_follower s)"

definition zero_log :: log where
  "zero_log = \<lparr>refcount = 0, l_index = 0, l_term = 0, l_version = 0, next_machine_version = 0, next_machine_id = 0,
     l_type = 0, old_n = 0, new_n = 0, distinct_machines_n = 0, l_machines = []\<rparr>"

definition must_server_init :: "server \<Rightarrow> server" where
  "must_server_init s =
     (let s = s\<lparr>s_term := 0, s_state := SERVER_STATE_FOLLOWER\<rparr>;
          s = reset_follower s;
          (a, w) = new_log ((net s)\<lparr>logs := Map.empty, conns := Map.empty\<rparr>) (Some zero_log);
          s = server_borrow_log (s\<lparr>net := w\<rparr>) (the a)
      in s\<lparr>net := (net s)\<lparr>authority := []\<rparr>, stale_cluster := [], s_cluster := None, clusters := Map.empty\<rparr>)"

text \<open>A new cluster at a new address, with the connections of its members.\<close>

definition new_cluster :: "os \<Rightarrow> server \<Rightarrow> log \<Rightarrow> u32 \<Rightarrow> nat option \<times> server" where
  "new_cluster os s log leader =
     (let w = net s;
          block = (if os_mem os (calls w) then Some (os_round os (calls w)) else None);
          w' = w\<lparr>calls := calls w + 1\<rparr>
      in case cluster_malloc block log leader of
           None \<Rightarrow> (None, s\<lparr>net := w'\<rparr>)
         | Some cl \<Rightarrow>
             let k = next_addr w;
                 cs = (\<lambda>r. case r of Out k' i \<Rightarrow> if k' = k \<and> i < unat (members_n cl)
                        then Some (raft_out_conn_init (os_conn os (calls w))) else conns w r | In p \<Rightarrow> conns w r)
             in (Some k, s\<lparr>net := w'\<lparr>next_addr := k + 1, conns := cs\<rparr>, clusters := (clusters s)(k \<mapsto> cl)\<rparr>))"

definition leader_change_available :: "os \<Rightarrow> server \<Rightarrow> bool \<times> server" where
  "leader_change_available os s =
     (case log_malloc_change_available (os_log os (calls (net s))) (cur_cluster s) (cur_log s) (s_term s) of
        None \<Rightarrow> (False, s\<lparr>net := snd (new_log (net s) None)\<rparr>)
      | Some (Accept log) \<Rightarrow>
          let (a, w) = new_log (net s) (Some log);
              s = server_replace_log (s\<lparr>net := w\<rparr>) (the a)
          in (True, s\<lparr>replicate_entry_wanted := True\<rparr>)
      | Some _ \<Rightarrow> (True, s\<lparr>halted := True\<rparr>))"

definition leader_replace_log :: "os \<Rightarrow> server \<Rightarrow> nat \<Rightarrow> bool \<times> server" where
  "leader_replace_log os s a =
     (case new_cluster os s (log_of (net s) a) (s_id s) of
        (None, s) \<Rightarrow> (False, s)
      | (Some k, s) \<Rightarrow>
          let s = server_replace_log s a;
              s = server_replace_cluster s (Some k)
          in (True, s\<lparr>entry_commited := True, replicate_entry_wanted := True\<rparr>))"

definition convert_to_leader :: "server \<Rightarrow> server" where
  "convert_to_leader s =
     (let s = s\<lparr>s_state := SERVER_STATE_LEADER\<rparr>;
          log = cur_log s;
          (s, leader) =
            (if l_type log AND LOG_TYPE_UNSTABLE_MASK \<noteq> 0 then
               let log = log\<lparr>l_index := l_index log + 1, l_term := s_term s\<rparr>
               in (s\<lparr>net := (net s)\<lparr>logs := (logs (net s))(s_log s \<mapsto> log)\<rparr>\<rparr>, log_machines_find_new log (s_id s))
             else (s, log_machines_find_old log (s_id s)))
      in s\<lparr>replicate_entry_round := 0, entry_commited := True, replicate_entry_wanted := True,
           leader_available := (case leader of Some m \<Rightarrow> machine_available m | None \<Rightarrow> True)\<rparr>)"

definition win_election :: "server \<Rightarrow> server" where
  "win_election s = convert_to_leader s"

subsection \<open>Votes\<close>

definition change_to_in_cmd :: "world \<Rightarrow> conn_ref \<Rightarrow> world" where
  "change_to_in_cmd w r = upd_conn w r (raft_conn_set_io RAFT_CONN_STATE_IN_CMD RAFT_CONN_BUFFER_SIZE)"

definition state_vote_out :: "os \<Rightarrow> world \<Rightarrow> conn_ref \<Rightarrow> world" where
  "state_vote_out os w r =
     (let (ok, w) = raft_conn_full_write_buffer os w r True REQUEST_VOTE_RES_SIZE
      in if ok then change_to_in_cmd w r else w)"

definition change_to_vote_out :: "os \<Rightarrow> server \<Rightarrow> conn_ref \<Rightarrow> bool \<Rightarrow> server" where
  "change_to_vote_out os s r grant =
     (let w = upd_conn (net s) r (\<lambda>c. c\<lparr>buffer := put_request_vote_res
                \<lparr>vr_term = s_term s, vr_granted = grant\<rparr> (buffer c)\<rparr>);
          w = upd_conn w r (raft_conn_set_io RAFT_CONN_STATE_VOTE_OUT REQUEST_VOTE_RES_SIZE)
      in s\<lparr>net := state_vote_out os w r\<rparr>)"

definition state_vote_in :: "os \<Rightarrow> server \<Rightarrow> conn_ref \<Rightarrow> server" where
  "state_vote_in os s r =
     (if s_state s = SERVER_STATE_LEADER \<or> (s_state s = SERVER_STATE_FOLLOWER \<and> follower_leader s \<noteq> 0) then
        change_to_vote_out os s r False
      else
        let req = get_request_vote_req (buffer (conn_of (net s) r));
            s = (if rv_term req > s_term s then server_increase_term s (rv_term req) else s)
        in if s_state s = SERVER_STATE_FOLLOWER \<and> rv_term req \<ge> s_term s \<and>
              (voted_for s = 0 \<or> voted_for s = rv_candidate_id req) \<and>
              log_at_least_up_to_date (cur_log s) (rv_log_index req) (rv_log_term req)
           then change_to_vote_out os ((reset_timer s)\<lparr>voted_for := rv_candidate_id req\<rparr>) r True
           else change_to_vote_out os s r False)"

definition state_request_vote_in :: "os \<Rightarrow> server \<Rightarrow> conn_ref \<Rightarrow> server" where
  "state_request_vote_in os s r =
     (let (ok, w) = raft_conn_full_read_to_buffer os (net s) r False REQUEST_VOTE_RES_SIZE;
          s = s\<lparr>net := w\<rparr>
      in if \<not> ok then s
         else
           let res = get_request_vote_res (buffer (conn_of w r));
               s = s\<lparr>net := upd_conn w r raft_conn_change_to_ready_for_use\<rparr>
           in if vr_term res > s_term s then server_increase_term s (vr_term res)
              else if s_state s = SERVER_STATE_CANDIDATE \<and> s_term s = vr_term res \<and> vr_granted res then
                let m = member_of s r;
                    s = s\<lparr>required_old_votes := required_old_votes s - MEMBER_IN_OLD (mb_type m),
                          required_new_votes := required_new_votes s - MEMBER_IN_NEW (mb_type m)\<rparr>
                in if sint (required_old_votes s) \<le> 0 \<and> sint (required_new_votes s) \<le> 0
                   then win_election s else s
              else s)"

definition change_to_request_vote_in :: "world \<Rightarrow> conn_ref \<Rightarrow> world" where
  "change_to_request_vote_in w r =
     upd_conn w r (raft_conn_set_io RAFT_CONN_STATE_REQUEST_VOTE_IN REQUEST_VOTE_RES_SIZE)"

definition state_request_vote_out :: "os \<Rightarrow> world \<Rightarrow> conn_ref \<Rightarrow> world" where
  "state_request_vote_out os w r =
     (let (ok, w) = raft_conn_full_write_buffer os w r False REQUEST_VOTE_REQ_SIZE
      in if ok then change_to_request_vote_in w r else w)"

definition change_to_request_vote_out :: "os \<Rightarrow> server \<Rightarrow> conn_ref \<Rightarrow> server" where
  "change_to_request_vote_out os s r =
     (let w = upd_conn (net s) r (\<lambda>c. c\<lparr>buffer := put_request_vote_req
                \<lparr>rv_candidate_id = s_id s, rv_term = s_term s, rv_log_index = l_index (cur_log s),
                 rv_log_term = l_term (cur_log s)\<rparr> (buffer c)\<rparr>);
          w = upd_conn w r (raft_conn_set_io RAFT_CONN_STATE_REQUEST_VOTE_OUT REQUEST_VOTE_REQ_SIZE)
      in s\<lparr>net := state_request_vote_out os w r\<rparr>)"

subsection \<open>Receiving the log\<close>

definition state_recv_entry_out :: "os \<Rightarrow> world \<Rightarrow> conn_ref \<Rightarrow> world" where
  "state_recv_entry_out os w r =
     (let (ok, w) = raft_conn_full_write_buffer os w r True APPEND_ENTRY_RES_SIZE
      in if ok then change_to_in_cmd w r else w)"

definition server_warmed_up :: "os \<Rightarrow> server \<Rightarrow> bool" where
  "server_warmed_up os s \<longleftrightarrow> l_type (cur_log s) \<noteq> LOG_TYPE_GROW_TRANSFORM \<or> os_warm os (calls (net s))"

definition change_to_recv_entry_out :: "os \<Rightarrow> server \<Rightarrow> conn_ref \<Rightarrow> server" where
  "change_to_recv_entry_out os s r =
     (let w = upd_conn (net s) r (\<lambda>c. c\<lparr>buffer := put_append_entry_res
                \<lparr>ae_term = s_term s, ae_applied = server_warmed_up os s\<rparr> (buffer c)\<rparr>);
          w = upd_conn w r (raft_conn_set_io RAFT_CONN_STATE_RECV_ENTRY_OUT APPEND_ENTRY_RES_SIZE)
      in s\<lparr>net := state_recv_entry_out os w r\<rparr>)"

definition change_to_recv_log_out :: "os \<Rightarrow> server \<Rightarrow> conn_ref \<Rightarrow> server" where
  "change_to_recv_log_out os s r =
     change_to_recv_entry_out os (s\<lparr>net := raft_conn_return_log (net s) r\<rparr>) r"

definition state_recv_log_in :: "os \<Rightarrow> server \<Rightarrow> conn_ref \<Rightarrow> server" where
  "state_recv_log_in os s r =
     (let (ok, w) = raft_conn_full_read os (net s) r True to_machines;
          s = s\<lparr>net := w\<rparr>
      in if \<not> ok then s
         else
           let c = conn_of w r; req = get_append_log_req (buffer c);
               n = unat (al_machines_size req div MACHINE_SIZE)
           in if al_term req < s_term s then change_to_recv_log_out os s r
              else
                let s = (if l_index (cur_log s) = 0 then set_timer s (al_follower_id req) else s);
                    s = (if al_term req > s_term s then server_increase_term s (al_term req)
                         else if s_state s \<noteq> SERVER_STATE_FOLLOWER then convert_to_follower s else s);
                    s = s\<lparr>s_id := al_follower_id req, follower_leader := al_leader_id req\<rparr>;
                    s = reset_timer s;
                    log = (log_of (net s) (rc_log c))
                      \<lparr>l_index := al_log_index req, l_term := al_log_term req, l_version := al_version req,
                       next_machine_version := al_next_machine_version req, next_machine_id := al_next_machine_id req,
                       l_type := al_type req,
                       old_n := ucast (al_machines_size req div MACHINE_SIZE) - al_new_machine_nr req,
                       new_n := al_new_machine_nr req, distinct_machines_n := al_distinct_machines_n req,
                       l_machines := machines_of_bytes n (rx c)\<rparr>;
                    s = s\<lparr>net := (net s)\<lparr>logs := (logs (net s))(rc_log c \<mapsto> log)\<rparr>\<rparr>;
                    s = server_replace_log s (rc_log c)
                in change_to_recv_log_out os s r)"

definition change_to_recv_log_in :: "os \<Rightarrow> server \<Rightarrow> conn_ref \<Rightarrow> server" where
  "change_to_recv_log_in os s r =
     (let w = net s;
          machines_size = al_machines_size (get_append_log_req (buffer (conn_of w r)))
      in case new_log w (log_malloc (os_log os (calls w)) machines_size) of
           (None, w) \<Rightarrow> s\<lparr>net := raft_conn_free w r\<rparr>
         | (Some a, w) \<Rightarrow>
             let w = raft_conn_borrow_log w r a RAFT_CONN_STATE_RECV_LOG_IN machines_size;
                 w = upd_conn w r (\<lambda>c. c\<lparr>rx := []\<rparr>)
             in state_recv_log_in os (s\<lparr>net := w\<rparr>) r)"

subsection \<open>Authority\<close>

text \<open>The loop of \<open>state_authority_in\<close> over the results of its reads: whether the connection is kept, and the sum.\<close>

fun authority_read :: "io list \<Rightarrow> u64 \<Rightarrow> bool \<times> u64" where
  "authority_read [] k = (True, k)"
| "authority_read (Moved bs # ios) k =
     (let bs = take 1024 bs; k = k + sum_list (map ucast bs)
      in if length bs < 1024 then (True, k) else authority_read ios k)"
| "authority_read (Again # ios) k = (True, k)"
| "authority_read (Fail # ios) k = (False, k)"

definition state_authority_in :: "os \<Rightarrow> server \<Rightarrow> conn_ref \<Rightarrow> bool \<times> server" where
  "state_authority_in os s r =
     (let (ok, k) = authority_read (os_drain os (calls (net s))) 0;
          w = (net s)\<lparr>calls := calls (net s) + 1\<rparr>
      in if ok then
           (True, s\<lparr>net := upd_conn w r (\<lambda>c. c\<lparr>authority_pending_nr := authority_pending_nr c + k\<rparr>),
                    replicate_entry_wanted := True\<rparr>)
         else (False, s\<lparr>net := raft_conn_free w r\<rparr>))"

definition change_to_authority_pending :: "world \<Rightarrow> conn_ref \<Rightarrow> world" where
  "change_to_authority_pending w r = upd_conn w r (\<lambda>c. c\<lparr>rc_state := RAFT_CONN_STATE_AUTHORITY_PENDING\<rparr>)"

definition state_authority_out :: "os \<Rightarrow> world \<Rightarrow> conn_ref \<Rightarrow> world" where
  "state_authority_out os w r =
     (let (ok, w) = raft_conn_full_write_buffer os w r True AUTHORITY_APPROVAL_SIZE
      in if ok then change_to_authority_pending w r else w)"

definition change_to_authority_out :: "os \<Rightarrow> server \<Rightarrow> conn_ref \<Rightarrow> server" where
  "change_to_authority_out os s r =
     (let w = upd_conn (net s) r (\<lambda>c. c\<lparr>buffer := put_authority_approval
                \<lparr>aa_version = l_version (cur_log s), aa_count = authority_succeed_nr c\<rparr> (buffer c)\<rparr>);
          w = upd_conn w r (\<lambda>c. c\<lparr>authority_succeed_nr := 0\<rparr>);
          w = upd_conn w r (raft_conn_set_io RAFT_CONN_STATE_AUTHORITY_OUT AUTHORITY_APPROVAL_SIZE)
      in s\<lparr>net := state_authority_out os w r\<rparr>)"

definition conn_authority_approved :: "os \<Rightarrow> conn_ref \<Rightarrow> server \<Rightarrow> server" where
  "conn_authority_approved os r s =
     (let s = s\<lparr>net := upd_conn (net s) r (\<lambda>c.
            c\<lparr>authority_succeed_nr := authority_succeed_nr c + authority_processing_nr c, authority_processing_nr := 0\<rparr>)\<rparr>;
          c = conn_of (net s) r
      in if rc_state c = RAFT_CONN_STATE_AUTHORITY_PENDING \<and> authority_succeed_nr c > 0
         then change_to_authority_out os s r else s)"

definition server_authority_approved :: "os \<Rightarrow> server \<Rightarrow> server" where
  "server_authority_approved os s = fold (conn_authority_approved os) (authority (net s)) s"

definition server_authority_process :: "server \<Rightarrow> server" where
  "server_authority_process s =
     s\<lparr>net := fold (\<lambda>r w. upd_conn w r (\<lambda>c.
         c\<lparr>authority_processing_nr := authority_processing_nr c + authority_pending_nr c, authority_pending_nr := 0\<rparr>))
       (authority (net s)) (net s)\<rparr>"

subsection \<open>Committing and replicating the log\<close>

text \<open>The log that follows a committed one, of the types the switch handles.\<close>

definition next_log :: "log_alloc \<Rightarrow> log \<Rightarrow> u64 \<Rightarrow> log option" where
  "next_log alloc log trm =
     (if l_type log = LOG_TYPE_GROW_TRANSFORM then log_malloc_grow_complete alloc log trm
      else log_malloc_stable alloc log)"

definition member_commited_log :: "os \<Rightarrow> server \<Rightarrow> conn_ref \<Rightarrow> bool \<times> server" where
  "member_commited_log os s r =
     (let m = member_of s r
      in if match_index m = next_index m - 1 then (True, s)
         else
           let s = upd_member s r (\<lambda>m. m\<lparr>match_index := next_index m - 1\<rparr>);
               log = cur_log s
           in if next_index m - 1 \<noteq> l_index log \<or> \<not> leader_log_commited s then (True, s)
              else if l_type log = LOG_TYPE_OLD then
                (True, if old_n log = members_n (cur_cluster s) then s\<lparr>halted := True\<rparr> else s)
              else case new_log (net s) (next_log (os_log os (calls (net s))) log (s_term s)) of
                (None, w) \<Rightarrow> (False, s\<lparr>net := w\<rparr>)
              | (Some a, w) \<Rightarrow>
                  let s = s\<lparr>net := w\<rparr>
                  in if l_type log AND LOG_TYPE_JOINT_MASK = 0 then (True, server_replace_log s a)
                     else
                       let (ok, s) = leader_replace_log os s a
                       in if ok then (True, s)
                          else (False, s\<lparr>net := (net s)\<lparr>logs := (logs (net s))(a := None)\<rparr>\<rparr>))"

definition change_to_append_log_in :: "world \<Rightarrow> conn_ref \<Rightarrow> world" where
  "change_to_append_log_in w r =
     upd_conn (raft_conn_return_log w r) r
       (raft_conn_set_io RAFT_CONN_STATE_APPEND_LOG_IN APPEND_ENTRY_RES_SIZE)"

text \<open>The slices of header and machines that are still to be written.\<close>

definition header_machines_iov :: "u64 \<Rightarrow> u64 \<Rightarrow> raft_conn \<Rightarrow> log \<Rightarrow> u8 list list" where
  "header_machines_iov header machines_size c log =
     (if unio c \<le> machines_size then
        let written = machines_size - unio c
        in [take (unat (unio c)) (drop (unat written) (machines_bytes (l_machines log)))]
      else
        let written = header + machines_size - unio c
        in [take (unat (unio c - machines_size)) (drop (unat written) (buffer c)),
            take (unat machines_size) (machines_bytes (l_machines log))])"

definition state_append_log_out :: "os \<Rightarrow> world \<Rightarrow> conn_ref \<Rightarrow> world" where
  "state_append_log_out os w r =
     (let c = conn_of w r;
          machines_size = al_machines_size (get_append_log_req (buffer c));
          iov = header_machines_iov APPEND_LOG_REQ_SIZE machines_size c (log_of w (rc_log c));
          (ok, w) = raft_conn_full_write_msg os w r False iov
      in if ok then change_to_append_log_in w r else w)"

definition change_to_append_log_out :: "os \<Rightarrow> server \<Rightarrow> conn_ref \<Rightarrow> server" where
  "change_to_append_log_out os s r =
     (let log = cur_log s;
          machines_size = MACHINE_SIZE * ucast (old_n log + new_n log);
          w = upd_conn (net s) r (\<lambda>c. c\<lparr>buffer := put_append_log_req
                \<lparr>al_type = l_type log, al_machines_size = machines_size, al_term = s_term s, al_leader_id = s_id s,
                 al_follower_id = mb_id (member_of s r), al_log_index = l_index log, al_log_term = l_term log,
                 al_version = l_version log, al_next_machine_version = next_machine_version log,
                 al_next_machine_id = next_machine_id log, al_new_machine_nr = new_n log,
                 al_distinct_machines_n = distinct_machines_n log\<rparr> (buffer c)\<rparr>);
          w = raft_conn_borrow_log w r (s_log s) RAFT_CONN_STATE_APPEND_LOG_OUT (APPEND_LOG_REQ_SIZE + machines_size);
          s = upd_member (s\<lparr>net := w\<rparr>) r (\<lambda>m. m\<lparr>next_index := l_index log\<rparr>)
      in s\<lparr>net := state_append_log_out os w r\<rparr>)"

definition state_recv_heartbeat_in :: "os \<Rightarrow> server \<Rightarrow> conn_ref \<Rightarrow> server" where
  "state_recv_heartbeat_in os s r =
     (let trm = get_heartbeat_term (buffer (conn_of (net s) r));
          s = (if trm = s_term s then reset_timer s else s)
      in change_to_recv_entry_out os s r)"

definition change_to_heartbeat_in :: "world \<Rightarrow> conn_ref \<Rightarrow> world" where
  "change_to_heartbeat_in w r =
     upd_conn w r (raft_conn_set_io RAFT_CONN_STATE_HEARTBEAT_IN APPEND_ENTRY_RES_SIZE)"

definition state_heartbeat_out :: "os \<Rightarrow> world \<Rightarrow> conn_ref \<Rightarrow> world" where
  "state_heartbeat_out os w r =
     (let (ok, w) = raft_conn_full_write_buffer os w r False HEARTBEAT_REQ_SIZE
      in if ok then change_to_heartbeat_in w r else w)"

definition change_to_heartbeat_out :: "os \<Rightarrow> server \<Rightarrow> conn_ref \<Rightarrow> server" where
  "change_to_heartbeat_out os s r =
     (let w = upd_conn (net s) r (\<lambda>c. c\<lparr>buffer := put_heartbeat_req (s_term s) (buffer c)\<rparr>);
          w = upd_conn w r (raft_conn_set_io RAFT_CONN_STATE_HEARTBEAT_OUT HEARTBEAT_REQ_SIZE)
      in s\<lparr>net := state_heartbeat_out os w r\<rparr>)"

definition change_to_append_entry_out :: "os \<Rightarrow> server \<Rightarrow> conn_ref \<Rightarrow> server" where
  "change_to_append_entry_out os s r =
     (let s = upd_member s r (\<lambda>m. m\<lparr>append_entry_round := replicate_entry_round s\<rparr>)
      in if next_index (member_of s r) \<le> l_index (cur_log s) then change_to_append_log_out os s r
         else change_to_heartbeat_out os s r)"

definition state_append_entry_in :: "os \<Rightarrow> server \<Rightarrow> conn_ref \<Rightarrow> server" where
  "state_append_entry_in os s r =
     (let (ok, w) = raft_conn_full_read_to_buffer os (net s) r False APPEND_ENTRY_RES_SIZE;
          s = s\<lparr>net := w\<rparr>
      in if \<not> ok then s
         else
           let st = rc_state (conn_of w r);
               res = get_append_entry_res (buffer (conn_of w r));
               s = s\<lparr>net := upd_conn w r raft_conn_change_to_ready_for_use\<rparr>
           in if ae_term res > s_term s then server_increase_term s (ae_term res)
              else
                let s = upd_member s r (\<lambda>m. m\<lparr>responded_append_entry := True\<rparr>);
                    s = (if st = RAFT_CONN_STATE_APPEND_LOG_IN
                         then upd_member s r (\<lambda>m. m\<lparr>next_index := next_index m + 1\<rparr>) else s);
                    (kept, s) = (if ae_applied res then member_commited_log os s r else (True, s));
                    m = member_of s r
                in if \<not> kept then convert_to_follower s
                   else if append_entry_round m = replicate_entry_round s then
                     s\<lparr>commit_entry_required_old_votes := commit_entry_required_old_votes s - MEMBER_IN_OLD (mb_type m),
                       commit_entry_required_new_votes := commit_entry_required_new_votes s - MEMBER_IN_NEW (mb_type m)\<rparr>
                   else change_to_append_entry_out os s r)"

subsection \<open>Changing the cluster\<close>

definition state_change_cluster_out :: "os \<Rightarrow> world \<Rightarrow> conn_ref \<Rightarrow> world" where
  "state_change_cluster_out os w r =
     (let (ok, w) = raft_conn_write_byte_zero os w r True
      in if ok then change_to_in_cmd w r else w)"

definition change_to_change_cluster_out :: "os \<Rightarrow> world \<Rightarrow> conn_ref \<Rightarrow> world" where
  "change_to_change_cluster_out os w r =
     (let w = raft_conn_return_log w r;
          w = upd_conn w r (\<lambda>c. c\<lparr>rc_state := RAFT_CONN_STATE_CHANGE_CLUSTER_OUT\<rparr>)
      in state_change_cluster_out os w r)"

definition change_to_init_cluster_out :: "os \<Rightarrow> world \<Rightarrow> conn_ref \<Rightarrow> world" where
  "change_to_init_cluster_out os w r = change_to_change_cluster_out os w r"

definition set_log :: "server \<Rightarrow> nat \<Rightarrow> log \<Rightarrow> server" where
  "set_log s a log = s\<lparr>net := (net s)\<lparr>logs := (logs (net s))(a \<mapsto> log)\<rparr>\<rparr>"

definition state_init_cluster_in :: "os \<Rightarrow> server \<Rightarrow> conn_ref \<Rightarrow> server" where
  "state_init_cluster_in os s r =
     (let (ok, w) = raft_conn_full_read os (net s) r True to_machines;
          s = s\<lparr>net := w\<rparr>
      in if \<not> ok then s
         else
           let c = conn_of w r; a = rc_log c; log = log_of w a;
               log = log\<lparr>l_machines := machines_of_bytes (unat (old_n log)) (rx c)\<rparr>;
               s = set_log s a log
           in if l_index (cur_log s) = 0 then
                let (accepted, log) = log_complete_init log;
                    s = set_log s a log
                in if \<not> accepted then s\<lparr>net := change_to_init_cluster_out os (net s) r\<rparr>
                   else case new_cluster os s log 1 of
                     (None, s) \<Rightarrow> s\<lparr>halted := True\<rparr>
                   | (Some k, s) \<Rightarrow>
                       let s = s\<lparr>s_cluster := Some k, s_id := 1, s_term := 1\<rparr>;
                           s = set_timer s 1;
                           s = s\<lparr>s_state := SERVER_STATE_LEADER, replicate_entry_round := 0, entry_commited := True,
                                 replicate_entry_wanted := True, leader_available := True\<rparr>;
                           s = server_replace_log s a
                       in s\<lparr>net := change_to_init_cluster_out os (net s) r\<rparr>
              else s\<lparr>net := change_to_init_cluster_out os (net s) r\<rparr>)"

text \<open>The machines of a request that the buffer already holds.\<close>

definition preread :: "raft_conn \<Rightarrow> u8 list" where
  "preread c = take (unat (RAFT_CONN_BUFFER_SIZE - CHANGE_CLUSTER_REQ_SIZE)) (drop (unat CHANGE_CLUSTER_REQ_SIZE) (buffer c))"

definition change_to_init_cluster_in :: "os \<Rightarrow> server \<Rightarrow> conn_ref \<Rightarrow> server" where
  "change_to_init_cluster_in os s r =
     (let w = net s; c = conn_of w r;
          machines_size = get_change_cluster_size (buffer c)
      in if machines_size_valid machines_size then
           case new_log w (log_malloc_init (os_log os (calls w)) machines_size) of
             (None, w) \<Rightarrow> s\<lparr>net := raft_conn_free w r\<rparr>
           | (Some a, w) \<Rightarrow>
               let w = raft_conn_borrow_log w r a RAFT_CONN_STATE_INIT_CLUSTER_IN
                         (machines_size - (RAFT_CONN_BUFFER_SIZE - CHANGE_CLUSTER_REQ_SIZE));
                   w = upd_conn w r (\<lambda>c. c\<lparr>rx := preread c\<rparr>)
               in state_init_cluster_in os (s\<lparr>net := w\<rparr>) r
         else s\<lparr>net := raft_conn_free w r\<rparr>)"

definition state_change_cluster_in :: "os \<Rightarrow> server \<Rightarrow> conn_ref \<Rightarrow> server" where
  "state_change_cluster_in os s r =
     (let (ok, w) = raft_conn_full_read os (net s) r True to_machines;
          s = s\<lparr>net := w\<rparr>
      in if \<not> ok then s
         else
           let c = conn_of w r; a = rc_log c; log = log_of w a;
               log = log\<lparr>l_machines := take (unat (old_n log)) (l_machines log) @
                           machines_of_bytes (unat (new_n log)) (rx c)\<rparr>;
               s = set_log s a log;
               s = (if s_state s = SERVER_STATE_LEADER \<and> l_type (cur_log s) = LOG_TYPE_OLD \<and>
                       old_n (cur_log s) = old_n log then
                      case log_complete_change log (cur_log s) (s_term s) of
                        Accept log \<Rightarrow> snd (leader_replace_log os (set_log s a log) a)
                      | Reject \<Rightarrow> s
                      | Undefined \<Rightarrow> s\<lparr>halted := True\<rparr>
                    else s)
           in s\<lparr>net := change_to_change_cluster_out os (net s) r\<rparr>)"

definition change_to_change_cluster_in :: "os \<Rightarrow> server \<Rightarrow> conn_ref \<Rightarrow> server" where
  "change_to_change_cluster_in os s r =
     (let w = net s; c = conn_of w r;
          machines_size = get_change_cluster_size (buffer c)
      in if machines_size_valid machines_size then
           case new_log w (log_malloc_unstable (os_log os (calls w)) (old_n (cur_log s))
                  (ucast (machines_size div MACHINE_SIZE))) of
             (None, w) \<Rightarrow> s\<lparr>net := raft_conn_free w r\<rparr>
           | (Some a, w) \<Rightarrow>
               let w = raft_conn_borrow_log w r a RAFT_CONN_STATE_CHANGE_CLUSTER_IN
                         (machines_size - (RAFT_CONN_BUFFER_SIZE - CHANGE_CLUSTER_REQ_SIZE));
                   w = upd_conn w r (\<lambda>c. c\<lparr>rx := preread c\<rparr>)
               in state_change_cluster_in os (s\<lparr>net := w\<rparr>) r
         else s\<lparr>net := raft_conn_free w r\<rparr>)"

subsection \<open>Questions of users\<close>

definition state_leader_out :: "os \<Rightarrow> world \<Rightarrow> conn_ref \<Rightarrow> world" where
  "state_leader_out os w r =
     (let (ok, w) = raft_conn_full_write_buffer os w r True LEADER_RES_SIZE
      in if ok then change_to_in_cmd w r else w)"

definition change_to_leader_out :: "os \<Rightarrow> server \<Rightarrow> conn_ref \<Rightarrow> server" where
  "change_to_leader_out os s r =
     (let leader = (case s_state s of SERVER_STATE_LEADER \<Rightarrow> s_id s
                      | SERVER_STATE_FOLLOWER \<Rightarrow> follower_leader s | SERVER_STATE_CANDIDATE \<Rightarrow> 0);
          found = (if leader > 0 then log_machines_find (cur_log s) leader else None);
          res = (case found of None \<Rightarrow> \<lparr>lr_addr = [], lr_port = [], lr_lost = True\<rparr>
                   | Some m \<Rightarrow> \<lparr>lr_addr = sin6_addr m, lr_port = sin6_port m, lr_lost = False\<rparr>);
          w = upd_conn (net s) r (\<lambda>c. c\<lparr>buffer := put_leader_res res (buffer c)\<rparr>);
          w = upd_conn w r (raft_conn_set_io RAFT_CONN_STATE_LEADER_OUT LEADER_RES_SIZE)
      in s\<lparr>net := state_leader_out os w r\<rparr>)"

definition state_cluster_out :: "os \<Rightarrow> world \<Rightarrow> conn_ref \<Rightarrow> world" where
  "state_cluster_out os w r =
     (let c = conn_of w r;
          machines_size = get_cluster_machines_size (buffer c);
          iov = header_machines_iov CLUSTER_RES_SIZE machines_size c (log_of w (rc_log c));
          (ok, w) = raft_conn_full_write_msg os w r True iov
      in if ok then change_to_in_cmd (raft_conn_return_log w r) r else w)"

definition change_to_cluster_out :: "os \<Rightarrow> server \<Rightarrow> conn_ref \<Rightarrow> server" where
  "change_to_cluster_out os s r =
     (let log = cur_log s;
          machines_size = MACHINE_SIZE * ucast (old_n log);
          w = upd_conn (net s) r (\<lambda>c. c\<lparr>buffer := put_cluster_res
                \<lparr>cr_type = l_type log, cr_machines_size = machines_size, cr_version = l_version log\<rparr> (buffer c)\<rparr>);
          w = raft_conn_borrow_log w r (s_log s) RAFT_CONN_STATE_CLUSTER_OUT (CLUSTER_RES_SIZE + machines_size)
      in s\<lparr>net := state_cluster_out os w r\<rparr>)"

definition state_connect_in :: "server \<Rightarrow> conn_ref \<Rightarrow> server" where
  "state_connect_in s r =
     (let c = conn_of (net s) r; thread_id = get_connect_thread (buffer c)
      in if thread_id \<ge> CONFIG_THREAD_NR then s\<lparr>net := raft_conn_free (net s) r\<rparr>
         else s\<lparr>dispatched := dispatched s @ [(thread_id, fd c)],
                net := (net s)\<lparr>conns := (conns (net s))(r := None)\<rparr>\<rparr>)"

definition state_in_cmd :: "os \<Rightarrow> server \<Rightarrow> conn_ref \<Rightarrow> server" where
  "state_in_cmd os s r =
     (let readed = RAFT_CONN_BUFFER_SIZE - unio (conn_of (net s) r);
          (ok, w) = raft_conn_read os (net s) r True (to_buffer readed);
          s = s\<lparr>net := w\<rparr>
      in if \<not> ok then s
         else
           let c = conn_of w r; cmd = buffer c ! 0; readed = RAFT_CONN_BUFFER_SIZE - unio c
           in if \<not> admin c \<and> cmd < RAFT_CMD_ADMIN_DIVIDER then s\<lparr>net := raft_conn_free w r\<rparr>
              else if cmd = RAFT_CMD_REQUEST_VOTE then
                (if readed = REQUEST_VOTE_REQ_SIZE then state_vote_in os s r else s)
              else if cmd = RAFT_CMD_APPEND_LOG then
                (if readed = RAFT_CONN_BUFFER_SIZE then change_to_recv_log_in os s r else s)
              else if cmd = RAFT_CMD_HEARTBEAT then
                (if readed = HEARTBEAT_REQ_SIZE then state_recv_heartbeat_in os s r else s)
              else if cmd = RAFT_CMD_INIT_CLUSTER then
                (if readed = RAFT_CONN_BUFFER_SIZE then change_to_init_cluster_in os s r else s)
              else if cmd = RAFT_CMD_CHANGE_CLUSTER then
                (if readed = RAFT_CONN_BUFFER_SIZE then change_to_change_cluster_in os s r else s)
              else if cmd = RAFT_CMD_LEADER then change_to_leader_out os s r
              else if cmd = RAFT_CMD_CLUSTER then change_to_cluster_out os s r
              else if cmd = RAFT_CMD_CONNECT then
                (if readed = CONNECT_REQ_SIZE then state_connect_in s r else s)
              else if cmd = RAFT_CMD_AUTHORITY then
                let w = w\<lparr>authority := r # authority w\<rparr>;
                    w = upd_conn w r (\<lambda>c. c\<lparr>authority_pending_nr := 0, authority_processing_nr := 0,
                          authority_succeed_nr := 0\<rparr>)
                in change_to_authority_out os (s\<lparr>net := w\<rparr>) r
              else s\<lparr>net := raft_conn_free w r\<rparr>)"

subsection \<open>Connecting to members\<close>

definition change_to_ready_for_use :: "os \<Rightarrow> server \<Rightarrow> conn_ref \<Rightarrow> server" where
  "change_to_ready_for_use os s r =
     (case s_state s of
        SERVER_STATE_LEADER \<Rightarrow>
          if \<not> responded_append_entry (member_of s r) then change_to_append_entry_out os s r else s
      | SERVER_STATE_CANDIDATE \<Rightarrow> change_to_request_vote_out os s r
      | SERVER_STATE_FOLLOWER \<Rightarrow> s)"

definition change_to_conn_established :: "os \<Rightarrow> server \<Rightarrow> conn_ref \<Rightarrow> server" where
  "change_to_conn_established os s r = change_to_ready_for_use os s r"

text \<open>\<open>getsockopt\<close>: whether the connection attempt has succeeded.\<close>

definition state_in_progress :: "os \<Rightarrow> server \<Rightarrow> conn_ref \<Rightarrow> server" where
  "state_in_progress os s r =
     (let w = (net s)\<lparr>calls := calls (net s) + 1\<rparr>
      in if fst (os_connect os (calls (net s))) = Connected then change_to_conn_established os (s\<lparr>net := w\<rparr>) r
         else s\<lparr>net := raft_conn_clear w r\<rparr>)"

definition member_connect :: "os \<Rightarrow> server \<Rightarrow> conn_ref \<Rightarrow> server" where
  "member_connect os s r =
     (let (res, f) = os_connect os (calls (net s));
          w = (net s)\<lparr>calls := calls (net s) + 1\<rparr>
      in case res of
           Socket_Failed \<Rightarrow> s\<lparr>net := w\<rparr>
         | Connected \<Rightarrow>
             change_to_conn_established os
               (s\<lparr>net := upd_conn w r (\<lambda>c. c\<lparr>fd := f, rc_state := RAFT_CONN_STATE_IN_PROGRESS\<rparr>)\<rparr>) r
         | Connecting \<Rightarrow> s\<lparr>net := upd_conn w r (\<lambda>c. c\<lparr>fd := f, rc_state := RAFT_CONN_STATE_IN_PROGRESS\<rparr>)\<rparr>
         | Refused \<Rightarrow> s\<lparr>net := (upd_conn w r (\<lambda>c. c\<lparr>fd := f\<rparr>))\<lparr>closed := closed w @ [f]\<rparr>\<rparr>)"

subsection \<open>Rounds\<close>

text \<open>The connections of the members of a cluster, in the order the loops visit them.\<close>

definition cluster_conns :: "server \<Rightarrow> nat \<Rightarrow> conn_ref list" where
  "cluster_conns s k = map (Out k) [0..<unat (members_n (cluster_at s k))]"

definition replicate_member :: "os \<Rightarrow> conn_ref \<Rightarrow> server \<Rightarrow> server" where
  "replicate_member os r s =
     (let s = upd_member s r (\<lambda>m. m\<lparr>responded_append_entry := False\<rparr>)
      in case rc_state (conn_of (net s) r) of
           RAFT_CONN_STATE_READY_FOR_USE \<Rightarrow> change_to_append_entry_out os s r
         | RAFT_CONN_STATE_NOT_CONNECTED \<Rightarrow> member_connect os s r
         | _ \<Rightarrow> s)"

definition replicate_start :: "os \<Rightarrow> server \<Rightarrow> server" where
  "replicate_start os s =
     (if \<not> replicate_entry_wanted s then s
      else
        let s = server_authority_process s;
            k = the (s_cluster s); cl = cluster_at s k;
            s = s\<lparr>replicate_entry_round := replicate_entry_round s + 1,
                  commit_entry_required_old_votes := require_old_votes cl,
                  commit_entry_required_new_votes := require_new_votes cl,
                  entry_commited := False, replicate_entry_wanted := False\<rparr>
        in fold (replicate_member os) (cluster_conns s k) s)"

definition replicate_entry :: "os \<Rightarrow> server \<Rightarrow> server" where
  "replicate_entry os s =
     (if \<not> entry_commited s then
        if sint (commit_entry_required_old_votes s) > 0 \<or> sint (commit_entry_required_new_votes s) > 0 then s
        else replicate_start os (server_authority_approved os (s\<lparr>entry_commited := True\<rparr>))
      else replicate_start os s)"

definition candidate_member :: "os \<Rightarrow> conn_ref \<Rightarrow> server \<Rightarrow> server" where
  "candidate_member os r s =
     (case rc_state (conn_of (net s) r) of
        RAFT_CONN_STATE_READY_FOR_USE \<Rightarrow> change_to_request_vote_out os s r
      | RAFT_CONN_STATE_NOT_CONNECTED \<Rightarrow> member_connect os s r
      | _ \<Rightarrow> s)"

definition candidate_start :: "os \<Rightarrow> server \<Rightarrow> server" where
  "candidate_start os s =
     (let k = the (s_cluster s); cl = cluster_at s k;
          s = s\<lparr>s_term := s_term s + 1, required_old_votes := require_old_votes cl,
                required_new_votes := require_new_votes cl\<rparr>;
          s = reset_timer_hard s
      in fold (candidate_member os) (cluster_conns s k) s)"

definition convert_to_candidate :: "os \<Rightarrow> server \<Rightarrow> server" where
  "convert_to_candidate os s =
     (if s_state s = SERVER_STATE_FOLLOWER then
        case new_cluster os s (cur_log s) (s_id s) of
          (None, s) \<Rightarrow> s
        | (Some k, s) \<Rightarrow> candidate_start os (s\<lparr>s_state := SERVER_STATE_CANDIDATE, s_cluster := Some k\<rparr>)
      else candidate_start os s)"

definition start_election :: "os \<Rightarrow> server \<Rightarrow> server" where
  "start_election os s = convert_to_candidate os s"

text \<open>The availability of a member after a tick, and whether it has changed.\<close>

definition member_tick :: "member \<Rightarrow> member \<times> bool" where
  "member_tick m =
     (if responded_append_entry m = available m then (m\<lparr>unstable_round := 0\<rparr>, False)
      else
        let m = m\<lparr>unstable_round := unstable_round m + 1\<rparr>
        in if unstable_round m \<ge> 10 then (m\<lparr>available := \<not> available m, unstable_round := 0\<rparr>, True) else (m, False))"

definition leader_timer_ticked :: "os \<Rightarrow> server \<Rightarrow> bool \<times> server" where
  "leader_timer_ticked os s =
     (let k = the (s_cluster s); cl = cluster_at s k; n = unat (members_n cl);
          ticks = map member_tick (cluster_members cl);
          available_changed = (\<not> leader_available s \<or> list_ex snd ticks);
          ms = map fst ticks;
          s = s\<lparr>clusters := (clusters s)(k \<mapsto> cl\<lparr>members := ms @ drop n (members cl)\<rparr>)\<rparr>;
          old_available = sum_list (map (\<lambda>m. MEMBER_IN_OLD (mb_type m)) (filter available ms));
          new_available = sum_list (map (\<lambda>m. MEMBER_IN_NEW (mb_type m)) (filter available ms))
      in if old_available < require_old_votes cl \<or> new_available < require_new_votes cl then (False, s)
         else
           let s = fold (\<lambda>r s. if rc_state (conn_of (net s) r) = RAFT_CONN_STATE_NOT_CONNECTED
                     then member_connect os s r else s) (cluster_conns s k) s
           in if l_type (cur_log s) AND LOG_TYPE_UNSTABLE_MASK = 0 \<and> available_changed then
                leader_change_available os (s\<lparr>leader_available := True\<rparr>)
              else (True, s))"

definition process_timer_event :: "os \<Rightarrow> server \<Rightarrow> server" where
  "process_timer_event os s =
     (let s = s\<lparr>timer_ticks := timer_ticks s + 1\<rparr>
      in if s_state s = SERVER_STATE_LEADER then
           let (ok, s) = leader_timer_ticked os s
           in if ok then s\<lparr>replicate_entry_wanted := True\<rparr> else convert_to_follower s
         else if election_timeout s then start_election os s
         else s)"

definition process :: "os \<Rightarrow> server \<Rightarrow> conn_ref \<Rightarrow> server" where
  "process os s r =
     (case rc_state (conn_of (net s) r) of
        RAFT_CONN_STATE_IN_PROGRESS \<Rightarrow> state_in_progress os s r
      | RAFT_CONN_STATE_IN_CMD \<Rightarrow> state_in_cmd os s r
      | RAFT_CONN_STATE_REQUEST_VOTE_OUT \<Rightarrow> s\<lparr>net := state_request_vote_out os (net s) r\<rparr>
      | RAFT_CONN_STATE_REQUEST_VOTE_IN \<Rightarrow> state_request_vote_in os s r
      | RAFT_CONN_STATE_VOTE_OUT \<Rightarrow> s\<lparr>net := state_vote_out os (net s) r\<rparr>
      | RAFT_CONN_STATE_APPEND_LOG_OUT \<Rightarrow> s\<lparr>net := state_append_log_out os (net s) r\<rparr>
      | RAFT_CONN_STATE_HEARTBEAT_OUT \<Rightarrow> s\<lparr>net := state_heartbeat_out os (net s) r\<rparr>
      | RAFT_CONN_STATE_APPEND_LOG_IN \<Rightarrow> state_append_entry_in os s r
      | RAFT_CONN_STATE_HEARTBEAT_IN \<Rightarrow> state_append_entry_in os s r
      | RAFT_CONN_STATE_RECV_LOG_IN \<Rightarrow> state_recv_log_in os s r
      | RAFT_CONN_STATE_RECV_ENTRY_OUT \<Rightarrow> s\<lparr>net := state_recv_entry_out os (net s) r\<rparr>
      | RAFT_CONN_STATE_INIT_CLUSTER_IN \<Rightarrow> state_init_cluster_in os s r
      | RAFT_CONN_STATE_CHANGE_CLUSTER_IN \<Rightarrow> state_change_cluster_in os s r
      | RAFT_CONN_STATE_LEADER_OUT \<Rightarrow> s\<lparr>net := state_leader_out os (net s) r\<rparr>
      | RAFT_CONN_STATE_CLUSTER_OUT \<Rightarrow> s\<lparr>net := state_cluster_out os (net s) r\<rparr>
      | RAFT_CONN_STATE_CHANGE_CLUSTER_OUT \<Rightarrow> s\<lparr>net := state_change_cluster_out os (net s) r\<rparr>
      | RAFT_CONN_STATE_AUTHORITY_OUT \<Rightarrow>
          let (ok, s) = state_authority_in os s r
          in if ok then s\<lparr>net := state_authority_out os (net s) r\<rparr> else s
      | RAFT_CONN_STATE_AUTHORITY_PENDING \<Rightarrow> snd (state_authority_in os s r)
      | _ \<Rightarrow> s)"

definition cluster_has_conn :: "server \<Rightarrow> conn_ref \<Rightarrow> bool" where
  "cluster_has_conn s r =
     (case (s_cluster s, r) of
        (Some k, Out k' i) \<Rightarrow> k' = k \<and> i < unat (members_n (cluster_at s k))
      | _ \<Rightarrow> False)"

definition cluster_free :: "nat \<Rightarrow> server \<Rightarrow> server" where
  "cluster_free k s =
     (let s = fold (\<lambda>r s. if rc_state (conn_of (net s) r) \<noteq> RAFT_CONN_STATE_NOT_CONNECTED
                then s\<lparr>net := raft_conn_clear (net s) r\<rparr> else s) (cluster_conns s k) s
      in s\<lparr>clusters := (clusters s)(k := None),
           net := (net s)\<lparr>conns := (\<lambda>r. case r of Out k' i \<Rightarrow> if k' = k then None else conns (net s) r
             | In p \<Rightarrow> conns (net s) r)\<rparr>\<rparr>)"

text \<open>The events of a round: the timer, accepted sockets, and readiness of a connection.\<close>

datatype event = Timer_Event | Accept_Event bool int | Conn_Event conn_ref bool u8

definition accept_one :: "os \<Rightarrow> server \<Rightarrow> bool \<Rightarrow> int \<Rightarrow> server" where
  "accept_one os s adm f =
     (case raft_in_conn_malloc os (net s) f adm of
        (None, w) \<Rightarrow> s\<lparr>net := w\<lparr>closed := closed w @ [f]\<rparr>\<rparr>
      | (Some r, w) \<Rightarrow>
          if os_mem os (calls w) then s\<lparr>net := w\<lparr>calls := calls w + 1\<rparr>\<rparr>
          else s\<lparr>net := raft_conn_free (w\<lparr>calls := calls w + 1\<rparr>) r\<rparr>)"

fun outgoing_ref :: "conn_ref \<Rightarrow> bool" where
  "outgoing_ref (Out k i) = True"
| "outgoing_ref (In p) = False"

definition process_event :: "os \<Rightarrow> event \<Rightarrow> server \<Rightarrow> server" where
  "process_event os e s =
     (if halted s then s
      else case e of
        Timer_Event \<Rightarrow> process_timer_event os s
      | Accept_Event adm f \<Rightarrow> accept_one os s adm f
      | Conn_Event r failed events \<Rightarrow>
          if outgoing_ref r \<and> \<not> cluster_has_conn s r then s
          else if failed then
            (if raft_conn_outgoing (conn_of (net s) r) then s\<lparr>net := raft_conn_clear (net s) r\<rparr>
             else s\<lparr>net := raft_conn_free (net s) r\<rparr>)
          else if events AND state_code (rc_state (conn_of (net s) r)) \<noteq> 0 then process os s r
          else s)"

definition end_round :: "os \<Rightarrow> server \<Rightarrow> server" where
  "end_round os s =
     (let s = (if s_state s = SERVER_STATE_LEADER then replicate_entry os s
               else s\<lparr>net := fold (\<lambda>r w. raft_conn_free w r) (authority (net s)) (net s)\<rparr>)
      in (fold cluster_free (stale_cluster s) s)\<lparr>stale_cluster := []\<rparr>)"

definition server_round :: "os \<Rightarrow> event list \<Rightarrow> server \<Rightarrow> server" where
  "server_round os events s =
     (let s = fold (process_event os) events s in if halted s then s else end_round os s)"

end
