(* ===== verification/Raft_Heap.thy ===== *)
theory Raft_Heap
  imports Raft_Server
begin

text \<open>
  The stores of the cluster server stay consistent: every log has exactly as many references as
  holders, nothing refers to a freed log, connection or cluster, and nothing is leaked.
\<close>

section \<open>Definitions\<close>

definition st_out :: "raft_conn_state \<Rightarrow> bool" where
  "st_out st \<longleftrightarrow> state_code st < state_code RAFT_CONN_OUTGOING_INCOMING_DIVIDER"

definition st_auth :: "raft_conn_state \<Rightarrow> bool" where
  "st_auth st \<longleftrightarrow> state_code st > state_code RAFT_CONN_STATE_AUTHORITY_DIVIDER"

definition st_log :: "raft_conn_state \<Rightarrow> bool" where
  "st_log st \<longleftrightarrow> state_code st AND EPOLLLOG \<noteq> 0"

text \<open>An entry of the store fits its address and the list of authority connections.\<close>

definition conn_ok :: "conn_ref list \<Rightarrow> conn_ref \<Rightarrow> raft_conn \<Rightarrow> bool" where
  "conn_ok q r c \<longleftrightarrow> (st_out (rc_state c) \<longleftrightarrow> outgoing_ref r) \<and> (st_auth (rc_state c) \<longleftrightarrow> r \<in> set q)"

text \<open>The rest of the world when the connection \<open>r\<close> is set aside.\<close>

definition around :: "(nat \<Rightarrow> nat) \<Rightarrow> nat set \<Rightarrow> conn_ref \<Rightarrow> world \<Rightarrow> bool" where
  "around ext Z r w \<longleftrightarrow>
     refs ext Z (logs w) ((conns w)(r := None)) \<and>
     (\<forall>r' c. r' \<noteq> r \<longrightarrow> conns w r' = Some c \<longrightarrow> conn_ok (authority w) r' c) \<and>
     distinct (authority w) \<and> (\<forall>r' \<in> set (authority w). r' \<noteq> r \<longrightarrow> conns w r' \<noteq> None) \<and>
     (\<forall>a. next_addr w \<le> a \<longrightarrow> logs w a = None) \<and> (\<forall>p. next_addr w \<le> p \<longrightarrow> conns w (In p) = None)"

definition world_ok :: "(nat \<Rightarrow> nat) \<Rightarrow> nat set \<Rightarrow> world \<Rightarrow> bool" where
  "world_ok ext Z w \<longleftrightarrow>
     refs ext Z (logs w) (conns w) \<and>
     (\<forall>r c. conns w r = Some c \<longrightarrow> conn_ok (authority w) r c) \<and>
     distinct (authority w) \<and> (\<forall>r \<in> set (authority w). conns w r \<noteq> None) \<and>
     (\<forall>a. next_addr w \<le> a \<longrightarrow> logs w a = None) \<and> (\<forall>p. next_addr w \<le> p \<longrightarrow> conns w (In p) = None)"

text \<open>A step of one connection leaves the others alone.\<close>

definition local_step :: "(nat \<Rightarrow> nat) \<Rightarrow> nat set \<Rightarrow> conn_ref \<Rightarrow> world \<Rightarrow> world \<Rightarrow> bool" where
  "local_step ext Z r w w' \<longleftrightarrow>
     world_ok ext Z w' \<and> (\<forall>r'. r' \<noteq> r \<longrightarrow> conns w' r' = conns w r') \<and>
     (outgoing_ref r \<longrightarrow> conns w' r \<noteq> None) \<and> next_addr w \<le> next_addr w'"

text \<open>The server holds one reference to its log.\<close>

definition own :: "nat \<Rightarrow> nat \<Rightarrow> nat" where
  "own a = (\<lambda>b. if b = a then 1 else 0)"

text \<open>
  The clusters: every member has its connection, every cluster is the current one or stale, and
  exactly a follower has no current cluster. \<open>K\<close> are clusters that are not yet in place.
\<close>

definition clusters_ok :: "nat set \<Rightarrow> server \<Rightarrow> bool" where
  "clusters_ok K s \<longleftrightarrow>
     (\<forall>k i. conns (net s) (Out k i) \<noteq> None \<longleftrightarrow> (\<exists>cl. clusters s k = Some cl \<and> i < unat (members_n cl))) \<and>
     dom (clusters s) = set (stale_cluster s) \<union> set_option (s_cluster s) \<union> K \<and>
     distinct (stale_cluster s) \<and> (\<forall>k. s_cluster s = Some k \<longrightarrow> k \<notin> set (stale_cluster s)) \<and>
     K \<inter> (set (stale_cluster s) \<union> set_option (s_cluster s)) = {} \<and>
     (\<forall>k. next_addr (net s) \<le> k \<longrightarrow> clusters s k = None) \<and>
     (s_cluster s = None \<longleftrightarrow> s_state s = SERVER_STATE_FOLLOWER)"

definition server_ok :: "server \<Rightarrow> bool" where
  "server_ok s \<longleftrightarrow> world_ok (own (s_log s)) {} (net s) \<and> clusters_ok {} s"

text \<open>
  A step keeps the server consistent, and every connection alive except perhaps \<open>r\<close> when that is
  an incoming one.
\<close>

definition srv_step :: "conn_ref \<Rightarrow> server \<Rightarrow> server \<Rightarrow> bool" where
  "srv_step r s s' \<longleftrightarrow>
     server_ok s' \<and>
     (\<forall>r'. r' \<noteq> r \<or> outgoing_ref r' \<longrightarrow> conns (net s) r' \<noteq> None \<longrightarrow> conns (net s') r' \<noteq> None)"

definition same_roles :: "server \<Rightarrow> server \<Rightarrow> bool" where
  "same_roles s s' \<longleftrightarrow>
     (\<forall>k. map_option members_n (clusters s' k) = map_option members_n (clusters s k)) \<and>
     stale_cluster s' = stale_cluster s \<and> s_cluster s' = s_cluster s \<and>
     (s_state s' = SERVER_STATE_FOLLOWER \<longleftrightarrow> s_state s = SERVER_STATE_FOLLOWER)"

text \<open>The preconditions of a handler: a live connection, which holds no log.\<close>

definition idle :: "server \<Rightarrow> conn_ref \<Rightarrow> bool" where
  "idle s r \<longleftrightarrow> conns (net s) r \<noteq> None \<and> around (own (s_log s)) {} r (net s) \<and> clusters_ok {} s \<and> r \<notin> set (authority (net s))"

section \<open>One connection\<close>

lemma st_simps [simp]:
  "st_out RAFT_CONN_STATE_NOT_CONNECTED" "st_out RAFT_CONN_STATE_IN_PROGRESS" "st_out RAFT_CONN_STATE_READY_FOR_USE"
  "st_out RAFT_CONN_STATE_REQUEST_VOTE_OUT" "st_out RAFT_CONN_STATE_REQUEST_VOTE_IN"
  "st_out RAFT_CONN_STATE_APPEND_LOG_OUT" "st_out RAFT_CONN_STATE_APPEND_LOG_IN" "st_out RAFT_CONN_STATE_HEARTBEAT_OUT"
  "st_out RAFT_CONN_STATE_HEARTBEAT_IN" "\<not> st_out RAFT_CONN_OUTGOING_INCOMING_DIVIDER" "\<not> st_out RAFT_CONN_STATE_IN_CMD"
  "\<not> st_out RAFT_CONN_STATE_CHANGE_CLUSTER_OUT" "\<not> st_out RAFT_CONN_STATE_VOTE_OUT" "\<not> st_out RAFT_CONN_STATE_RECV_ENTRY_OUT"
  "\<not> st_out RAFT_CONN_STATE_RECV_LOG_IN" "\<not> st_out RAFT_CONN_STATE_LEADER_OUT" "\<not> st_out RAFT_CONN_STATE_CLUSTER_OUT"
  "\<not> st_out RAFT_CONN_STATE_INIT_CLUSTER_IN" "\<not> st_out RAFT_CONN_STATE_CHANGE_CLUSTER_IN"
  "\<not> st_out RAFT_CONN_STATE_AUTHORITY_DIVIDER" "\<not> st_out RAFT_CONN_STATE_AUTHORITY_PENDING"
  "\<not> st_out RAFT_CONN_STATE_AUTHORITY_OUT"
  by (simp_all add: st_out_def EPOLLIN_def EPOLLOUT_def EPOLLLOG_def)

lemma st_auth_iff [simp]:
  "st_auth st \<longleftrightarrow> st = RAFT_CONN_STATE_AUTHORITY_PENDING \<or> st = RAFT_CONN_STATE_AUTHORITY_OUT"
  by (cases st) (simp_all add: st_auth_def EPOLLIN_def EPOLLOUT_def EPOLLLOG_def)

lemma auth_code [simp]: "200 < state_code st \<longleftrightarrow> st_auth st"
  by (simp add: st_auth_def del: st_auth_iff)

lemma outgoing_st [simp]: "raft_conn_outgoing c = st_out (rc_state c)"
  by (simp add: raft_conn_outgoing_def st_out_def)

declare borrowed_states [simp del]

lemma borrowed_st [simp]: "conn_borrowed_log c = st_log (rc_state c)"
  by (simp add: conn_borrowed_log_def st_log_def)

lemma st_log_iff:
  "st_log st \<longleftrightarrow> st \<in> {RAFT_CONN_STATE_APPEND_LOG_OUT, RAFT_CONN_STATE_RECV_LOG_IN,
     RAFT_CONN_STATE_CLUSTER_OUT, RAFT_CONN_STATE_INIT_CLUSTER_IN, RAFT_CONN_STATE_CHANGE_CLUSTER_IN}"
  using borrowed_states [of "undefined\<lparr>rc_state := st\<rparr>"] by simp

lemma st_log_simps [simp]:
  "st_log RAFT_CONN_STATE_APPEND_LOG_OUT" "st_log RAFT_CONN_STATE_RECV_LOG_IN" "st_log RAFT_CONN_STATE_CLUSTER_OUT"
  "st_log RAFT_CONN_STATE_INIT_CLUSTER_IN" "st_log RAFT_CONN_STATE_CHANGE_CLUSTER_IN"
  "\<not> st_log RAFT_CONN_STATE_NOT_CONNECTED" "\<not> st_log RAFT_CONN_STATE_IN_PROGRESS" "\<not> st_log RAFT_CONN_STATE_READY_FOR_USE"
  "\<not> st_log RAFT_CONN_STATE_REQUEST_VOTE_OUT" "\<not> st_log RAFT_CONN_STATE_REQUEST_VOTE_IN"
  "\<not> st_log RAFT_CONN_STATE_APPEND_LOG_IN" "\<not> st_log RAFT_CONN_STATE_HEARTBEAT_OUT" "\<not> st_log RAFT_CONN_STATE_HEARTBEAT_IN"
  "\<not> st_log RAFT_CONN_STATE_IN_CMD" "\<not> st_log RAFT_CONN_STATE_CHANGE_CLUSTER_OUT" "\<not> st_log RAFT_CONN_STATE_VOTE_OUT"
  "\<not> st_log RAFT_CONN_STATE_RECV_ENTRY_OUT" "\<not> st_log RAFT_CONN_STATE_LEADER_OUT"
  "\<not> st_log RAFT_CONN_STATE_AUTHORITY_PENDING" "\<not> st_log RAFT_CONN_STATE_AUTHORITY_OUT"
  by (simp_all add: st_log_iff)

lemma lent_Some: "lent (Some c) = (if st_log (rc_state c) then Some (rc_log c) else None)"
  by (simp add: lent_def)

lemma around_world:
  assumes "world_ok ext Z w" "conns w r = Some c" "\<not> st_log (rc_state c)"
  shows "around ext Z r w"
  using assms refs_same [of ext Z "logs w" "conns w" None r] by (auto simp: world_ok_def around_def lent_Some)

lemma world_around:
  assumes "around ext Z r w" "conns w r = Some c" "\<not> st_log (rc_state c)" "conn_ok (authority w) r c"
  shows "world_ok ext Z w"
proof -
  have "conns w = ((conns w)(r := None))(r := Some c)" using assms(2) by auto
  then have "refs ext Z (logs w) (conns w)"
    using assms(1,3) refs_same [of ext Z "logs w" "(conns w)(r := None)" "Some c" r]
    by (simp add: around_def lent_Some)
  moreover have "conn_ok (authority w) r' c'" if "conns w r' = Some c'" for r' c'
    using assms that by (cases "r' = r") (auto simp: around_def)
  moreover have "conns w r' \<noteq> None" if "r' \<in> set (authority w)" for r'
    using assms that by (cases "r' = r") (auto simp: around_def)
  ultimately show ?thesis
    using assms(1) by (auto simp: world_ok_def around_def)
qed

lemma around_upd [simp]: "conns w r = Some c \<Longrightarrow> around ext Z r (upd_conn w r f) \<longleftrightarrow> around ext Z r w"
  by (auto simp: around_def)

lemma world_ok_fields [simp]:
  "world_ok ext Z (w\<lparr>calls := n\<rparr>) = world_ok ext Z w" "world_ok ext Z (w\<lparr>sent := t\<rparr>) = world_ok ext Z w"
  "world_ok ext Z (w\<lparr>closed := d\<rparr>) = world_ok ext Z w"
  "around ext Z r (w\<lparr>calls := n\<rparr>) = around ext Z r w" "around ext Z r (w\<lparr>sent := t\<rparr>) = around ext Z r w"
  "around ext Z r (w\<lparr>closed := d\<rparr>) = around ext Z r w"
  by (simp_all add: world_ok_def around_def)

text \<open>Returning the log of a connection, or borrowing one for it.\<close>

lemma around_return:
  assumes "world_ok ext Z w" "conns w r = Some c" "st_log (rc_state c)"
  shows "around ext Z r (return_log w (rc_log c))"
proof -
  have "refs ext Z (logs (return_log w (rc_log c))) ((conns w)(r := None))"
    using refs_return [of ext Z "logs w" "conns w" r "rc_log c" None] assms
    by (simp add: world_ok_def lent_Some return_log_def log_of_def)
  moreover have "\<exists>m. logs w (rc_log c) = Some m"
    by (rule refs_held [of ext Z "logs w" "conns w" "rc_log c" r]) (use assms in \<open>auto simp: world_ok_def lent_Some\<close>)
  then have "rc_log c < next_addr w"
    using assms(1) by (auto simp: world_ok_def not_le [symmetric])
  ultimately show ?thesis
    using assms(1) by (auto simp: world_ok_def around_def return_log_def)
qed

lemma world_borrow:
  assumes "around ext Z r w" "conns w r = Some c" "logs w a = Some m"
    "\<And>c. st_log (rc_state (f c))" "\<And>c. rc_log (f c) = a" "\<And>c. conn_ok (authority w) r (f c)"
  shows "world_ok ext (Z - {a}) (borrow_log (upd_conn w r f) a)"
proof -
  have "refs ext (Z - {a}) ((logs w)(a \<mapsto> log_borrow m)) ((conns w)(r := None, r := Some (f c)))"
    by (rule refs_borrow) (use assms in \<open>simp_all add: around_def lent_Some\<close>)
  moreover have "a < next_addr w" using assms(1,3) by (auto simp: around_def not_le [symmetric])
  moreover have "conns w r' \<noteq> None" if "r' \<in> set (authority w)" for r'
    using assms(1,2) that by (cases "r' = r") (auto simp: around_def)
  ultimately show ?thesis
    using assms by (auto simp: world_ok_def around_def borrow_log_def log_of_def conn_of_def)
qed

section \<open>Dropping a connection, and calls on it\<close>

lemma ok_conn:
  "world_ok ext Z w \<Longrightarrow> conns w r = Some c \<Longrightarrow> st_out (rc_state c) \<longleftrightarrow> outgoing_ref r"
  "world_ok ext Z w \<Longrightarrow> conns w r = Some c \<Longrightarrow> st_auth (rc_state c) \<longleftrightarrow> r \<in> set (authority w)"
  by (auto simp: world_ok_def conn_ok_def)

lemma world_remove:
  assumes "around ext Z r w"
  shows "world_ok ext Z (w\<lparr>authority := remove1 r (authority w), conns := (conns w)(r := None)\<rparr>)"
  using assms by (auto simp: around_def world_ok_def conn_ok_def in_set_remove1 dest: set_mp [OF set_remove1_subset])

lemma free_ok:
  assumes w: "world_ok ext Z w" and c: "conns w r = Some c" and r: "\<not> outgoing_ref r"
  shows "local_step ext Z r w (raft_conn_free w r)"
proof -
  have auth: "st_auth (rc_state c) \<longleftrightarrow> r \<in> set (authority w)"
    using w c by (auto simp: world_ok_def conn_ok_def)
  have "world_ok ext Z (raft_conn_free w r)"
  proof (cases "st_log (rc_state c)")
    case True
    then have "r \<notin> set (authority w)" using auth by (auto simp: st_log_iff)
    then show ?thesis
      using world_remove [OF around_return [OF w c True]] c True
      by (simp add: raft_conn_free_def raft_conn_return_log_def conn_of_def Let_def remove1_idem world_ok_def)
  next
    case False
    have "authority (raft_conn_free w r) = remove1 r (authority w)"
      using False auth c by (simp add: raft_conn_free_def conn_of_def Let_def remove1_idem del: st_auth_iff)
    moreover have "conns (raft_conn_free w r) = (conns w)(r := None)" "logs (raft_conn_free w r) = logs w"
      "next_addr (raft_conn_free w r) = next_addr w"
      using False c by (simp_all add: raft_conn_free_def conn_of_def Let_def)
    ultimately show ?thesis
      using world_remove [OF around_world [OF w c False]] by (simp add: world_ok_def)
  qed
  then show ?thesis
    using r by (simp add: local_step_def raft_conn_free_def Let_def raft_conn_return_log_def)
qed

lemma clear_ok:
  assumes w: "world_ok ext Z w" and c: "conns w r = Some c" and r: "outgoing_ref r"
  shows "local_step ext Z r w (raft_conn_clear w r)"
proof -
  have n: "r \<notin> set (authority w)"
    using ok_conn [OF w c] r by (cases "rc_state c") simp_all
  define w1 where "w1 = (if st_log (rc_state c) then return_log w (rc_log c) else w)"
  have a: "around ext Z r w1" and f: "conns w1 = conns w" "authority w1 = authority w" "next_addr w1 = next_addr w"
    using around_return [OF w c] around_world [OF w c] by (simp_all add: w1_def)
  have e: "raft_conn_clear w r
      = (upd_conn w1 r (\<lambda>c. c\<lparr>rc_state := RAFT_CONN_STATE_NOT_CONNECTED\<rparr>))\<lparr>closed := closed w1 @ [fd c]\<rparr>"
    using c by (simp add: raft_conn_clear_def conn_of_def Let_def w1_def raft_conn_return_log_def)
  have "world_ok ext Z (upd_conn w1 r (\<lambda>c. c\<lparr>rc_state := RAFT_CONN_STATE_NOT_CONNECTED\<rparr>))"
    by (rule world_around [of _ _ r _ "c\<lparr>rc_state := RAFT_CONN_STATE_NOT_CONNECTED\<rparr>"])
      (use a f c r n in \<open>simp_all add: conn_ok_def conn_of_def\<close>)
  then show ?thesis
    using r f by (simp add: local_step_def e)
qed

lemma local_step_refl: "world_ok ext Z w \<Longrightarrow> conns w r \<noteq> None \<Longrightarrow> local_step ext Z r w w"
  by (simp add: local_step_def)

lemma local_step_trans: "local_step ext Z r w w' \<Longrightarrow> local_step ext' Z' r w' w'' \<Longrightarrow> local_step ext' Z' r w w''"
  by (auto simp: local_step_def)

text \<open>A call of the operating system on a connection.\<close>

lemma io_step_ok:
  assumes io: "io_step w r inc ok w'" and w: "world_ok ext Z w" and c: "conns w r = Some c" and inc: "inc \<longleftrightarrow> \<not> outgoing_ref r"
  shows "local_step ext Z r w w'"
    and "ok \<Longrightarrow> \<exists>c'. conns w' r = Some c' \<and> rc_state c' = rc_state c \<and> rc_log c' = rc_log c"
    and "ok \<Longrightarrow> logs w' = logs w" and "ok \<Longrightarrow> authority w' = authority w"
proof -
  obtain w0 c' where w0: "conns w0 = (conns w)(r \<mapsto> c')" "rc_state c' = rc_state c" "rc_log c' = rc_log c"
    "logs w0 = logs w" "authority w0 = authority w" "next_addr w0 = next_addr w"
    "w' = w0 \<or> \<not> ok \<and> w' = conn_drop w0 r inc"
    using io c by (auto simp: io_step_def conn_of_def)
  have "refs ext Z (logs w) ((conns w)(r \<mapsto> c'))"
    by (rule refs_same) (use w c w0 in \<open>auto simp: world_ok_def lent_Some\<close>)
  then have ok0: "world_ok ext Z w0"
    using w c w0 by (auto simp: world_ok_def conn_ok_def)
  have "local_step ext Z r w0 (conn_drop w0 r inc)"
    using free_ok [OF ok0, of r c'] clear_ok [OF ok0, of r c'] w0(1) inc by (auto simp: conn_drop_def)
  moreover have "local_step ext Z r w w0"
    using ok0 w0 by (auto simp: local_step_def)
  ultimately show "local_step ext Z r w w'"
    using w0(7) local_step_trans by blast
  show "ok \<Longrightarrow> \<exists>c'. conns w' r = Some c' \<and> rc_state c' = rc_state c \<and> rc_log c' = rc_log c"
    "ok \<Longrightarrow> logs w' = logs w" "ok \<Longrightarrow> authority w' = authority w"
    using w0 by auto
qed

text \<open>Changing the state of a connection that holds no log to another that holds none.\<close>

lemma set_state_ok:
  assumes a: "around ext Z r w" and c: "conns w r = Some c"
    and f: "\<not> st_log (rc_state (f c))" "conn_ok (authority w) r (f c)"
  shows "local_step ext Z r w (upd_conn w r f)"
proof -
  have "world_ok ext Z (upd_conn w r f)"
    by (rule world_around [of _ _ r]) (use assms in \<open>simp_all add: conn_of_def\<close>)
  then show ?thesis by (simp add: local_step_def)
qed

text \<open>A handler that writes and then changes the state.\<close>

lemma write_then:
  assumes w: "world_ok ext Z w" and c: "conns w r = Some c" "\<not> st_log (rc_state c)"
    and io: "io_step w r inc ok w1" and inc: "inc \<longleftrightarrow> \<not> outgoing_ref r"
    and f: "\<And>c'. rc_state c' = rc_state c \<Longrightarrow> \<not> st_log (rc_state (f c'))"
      "\<And>c'. rc_state c' = rc_state c \<Longrightarrow> st_out (rc_state (f c')) = st_out (rc_state c)"
      "\<And>c'. rc_state c' = rc_state c \<Longrightarrow> st_auth (rc_state (f c')) = st_auth (rc_state c)"
  shows "local_step ext Z r w (if ok then upd_conn w1 r f else w1)"
proof (cases ok)
  case True
  note s = io_step_ok [OF io w c(1) inc]
  from s(2) [OF True] obtain c' where c': "conns w1 r = Some c'" "rc_state c' = rc_state c" by blast
  have "world_ok ext Z w1" using s(1) by (simp add: local_step_def)
  then have "around ext Z r w1" by (rule around_world [OF _ c'(1)]) (use c' c in simp_all)
  then have "local_step ext Z r w1 (upd_conn w1 r f)"
    by (rule set_state_ok [OF _ c'(1)]) (use f [OF c'(2)] w c(1) s(4) [OF True] in \<open>auto simp: world_ok_def conn_ok_def\<close>)
  then show ?thesis using True s(1) local_step_trans by simp
qed (use io_step_ok(1) [OF io w c(1) inc] in simp)

section \<open>Handlers that write a response\<close>

lemma case_if: "(case p of (ok, w) \<Rightarrow> if ok then f w else w) = (if fst p then f (snd p) else snd p)"
  by (cases p) simp

lemma write_buffer_then:
  assumes w: "world_ok ext Z w" and c: "conns w r = Some c" "\<not> st_log (rc_state c)" and inc: "inc \<longleftrightarrow> \<not> outgoing_ref r"
    and f: "\<And>c'. rc_state c' = rc_state c \<Longrightarrow> \<not> st_log (rc_state (f c'))"
      "\<And>c'. rc_state c' = rc_state c \<Longrightarrow> st_out (rc_state (f c')) = st_out (rc_state c)"
      "\<And>c'. rc_state c' = rc_state c \<Longrightarrow> st_auth (rc_state (f c')) = st_auth (rc_state c)"
  shows "local_step ext Z r w (case raft_conn_full_write_buffer os w r inc sz of (ok, w) \<Rightarrow> if ok then upd_conn w r f else w)"
proof (cases "raft_conn_full_write_buffer os w r inc sz")
  case (Pair ok w1)
  show ?thesis
    using write_then [OF w c raft_conn_full_write_buffer_step [OF c(1) Pair] inc, where f = f] f by (simp add: Pair)
qed

lemmas set_io_simps [simp] = raft_conn_set_io_def

lemma out_states:
  assumes w: "world_ok ext Z w" and c: "conns w r = Some c"
  shows "rc_state c = RAFT_CONN_STATE_VOTE_OUT \<Longrightarrow> local_step ext Z r w (state_vote_out os w r)"
    and "rc_state c = RAFT_CONN_STATE_REQUEST_VOTE_OUT \<Longrightarrow> local_step ext Z r w (state_request_vote_out os w r)"
    and "rc_state c = RAFT_CONN_STATE_RECV_ENTRY_OUT \<Longrightarrow> local_step ext Z r w (state_recv_entry_out os w r)"
    and "rc_state c = RAFT_CONN_STATE_AUTHORITY_OUT \<Longrightarrow> local_step ext Z r w (state_authority_out os w r)"
    and "rc_state c = RAFT_CONN_STATE_HEARTBEAT_OUT \<Longrightarrow> local_step ext Z r w (state_heartbeat_out os w r)"
    and "rc_state c = RAFT_CONN_STATE_LEADER_OUT \<Longrightarrow> local_step ext Z r w (state_leader_out os w r)"
  unfolding state_vote_out_def state_request_vote_out_def state_recv_entry_out_def state_authority_out_def
    state_heartbeat_out_def state_leader_out_def change_to_in_cmd_def change_to_request_vote_in_def
    change_to_authority_pending_def change_to_heartbeat_in_def Let_def
  by (rule write_buffer_then [OF w c]; use ok_conn(1) [OF w c] in simp)+

lemma change_cluster_out_state:
  assumes w: "world_ok ext Z w" and c: "conns w r = Some c" "rc_state c = RAFT_CONN_STATE_CHANGE_CLUSTER_OUT"
  shows "local_step ext Z r w (state_change_cluster_out os w r)"
proof (cases "raft_conn_write_byte_zero os w r True")
  case (Pair ok w1)
  have "local_step ext Z r w (if ok then upd_conn w1 r (raft_conn_set_io RAFT_CONN_STATE_IN_CMD RAFT_CONN_BUFFER_SIZE) else w1)"
    by (rule write_then [OF w c(1) _ raft_conn_write_byte_zero_step [OF c(1) Pair]])
      (use c ok_conn(1) [OF w c(1)] in simp_all)
  then show ?thesis
    by (cases ok) (simp_all add: state_change_cluster_out_def change_to_in_cmd_def Pair)
qed

section \<open>The server\<close>

lemma clusters_ok_same:
  assumes "clusters_ok K s" "same_roles s s'" "next_addr (net s) \<le> next_addr (net s')"
    and "\<And>k i. conns (net s') (Out k i) = None \<longleftrightarrow> conns (net s) (Out k i) = None"
  shows "clusters_ok K s'"
proof -
  have m: "map_option members_n (clusters s' k) = map_option members_n (clusters s k)" for k
    using assms(2) by (simp add: same_roles_def)
  have n: "clusters s' k = None \<longleftrightarrow> clusters s k = None" for k
    using m [of k] by (metis option.map_disc_iff)
  have "(\<exists>cl. clusters s' k = Some cl \<and> i < unat (members_n cl)) \<longleftrightarrow>
      (\<exists>cl. clusters s k = Some cl \<and> i < unat (members_n cl))" for k i
    using m [of k] by (cases "clusters s k"; cases "clusters s' k") auto
  moreover have "dom (clusters s') = dom (clusters s)" using n unfolding dom_def by simp
  ultimately show ?thesis
    using assms n by (auto simp: clusters_ok_def same_roles_def)
qed

lemma server_okD:
  assumes "server_ok s"
  shows "world_ok (own (s_log s)) {} (net s)" "clusters_ok {} s"
  using assms by (simp_all add: server_ok_def)

lemma step_local:
  assumes "clusters_ok {} s" "local_step (own (s_log s')) {} r (net s) (net s')" "conns (net s) r \<noteq> None" "same_roles s s'"
  shows "srv_step r s s'"
proof -
  have o: "conns (net s') r' = conns (net s) r'" if "r' \<noteq> r" for r'
    using assms(2) that by (simp add: local_step_def)
  have l: "world_ok (own (s_log s')) {} (net s')" "outgoing_ref r \<longrightarrow> conns (net s') r \<noteq> None"
    "next_addr (net s) \<le> next_addr (net s')"
    using assms(2) by (simp_all add: local_step_def)
  have "conns (net s') (Out k i) = None \<longleftrightarrow> conns (net s) (Out k i) = None" for k i
    using l(2) assms(3) o [of "Out k i"] by (cases "Out k i = r") auto
  with assms(1,4) l(3) have "clusters_ok {} s'"
    by (rule clusters_ok_same)
  moreover have "conns (net s') r' \<noteq> None" if "r' \<noteq> r \<or> outgoing_ref r'" "conns (net s) r' \<noteq> None" for r'
    using l(2) o [of r'] that by (cases "r' = r") auto
  ultimately show ?thesis
    unfolding srv_step_def server_ok_def using l(1) by blast
qed

lemma srv_local:
  assumes "server_ok s" "local_step (own (s_log s')) {} r (net s) (net s')" "conns (net s) r \<noteq> None" "same_roles s s'"
  shows "srv_step r s s'"
  using step_local [OF server_okD(2) [OF assms(1)] assms(2-4)] .

lemma srv_refl: "server_ok s \<Longrightarrow> srv_step r s s"
  by (simp add: srv_step_def)

lemma srv_trans: "srv_step r s s' \<Longrightarrow> srv_step r s' s'' \<Longrightarrow> srv_step r s s''"
  by (auto simp: srv_step_def)

lemma srv_ok: "srv_step r s s' \<Longrightarrow> server_ok s'"
  by (simp add: srv_step_def)

lemma same_roles_simps [simp]:
  "same_roles s s" "same_roles (s\<lparr>net := w\<rparr>) s' = same_roles s s'"
  "same_roles s (s'\<lparr>net := w\<rparr>) = same_roles s s'" "same_roles s (s'\<lparr>s_term := t\<rparr>) = same_roles s s'"
  "same_roles s (s'\<lparr>s_id := i\<rparr>) = same_roles s s'" "same_roles s (s'\<lparr>s_log := a\<rparr>) = same_roles s s'"
  "same_roles s (s'\<lparr>timer_ticks := n\<rparr>) = same_roles s s'" "same_roles s (s'\<lparr>voted_for := v\<rparr>) = same_roles s s'"
  "same_roles s (s'\<lparr>follower_leader := v\<rparr>) = same_roles s s'" "same_roles s (s'\<lparr>required_old_votes := x\<rparr>) = same_roles s s'"
  "same_roles s (s'\<lparr>required_new_votes := x\<rparr>) = same_roles s s'" "same_roles s (s'\<lparr>halted := b\<rparr>) = same_roles s s'"
  "same_roles s (s'\<lparr>commit_entry_required_old_votes := x\<rparr>) = same_roles s s'"
  "same_roles s (s'\<lparr>commit_entry_required_new_votes := x\<rparr>) = same_roles s s'"
  "same_roles s (s'\<lparr>entry_commited := b\<rparr>) = same_roles s s'" "same_roles s (s'\<lparr>replicate_entry_wanted := b\<rparr>) = same_roles s s'"
  "same_roles s (s'\<lparr>replicate_entry_round := n'\<rparr>) = same_roles s s'" "same_roles s (s'\<lparr>leader_available := b\<rparr>) = same_roles s s'"
  "same_roles s (s'\<lparr>dispatched := d\<rparr>) = same_roles s s'"
  by (simp_all add: same_roles_def)

text \<open>Fields that the invariant does not read.\<close>

lemma server_ok_fields [simp]:
  "server_ok (s\<lparr>s_term := t\<rparr>) = server_ok s" "server_ok (s\<lparr>s_id := i\<rparr>) = server_ok s"
  "server_ok (s\<lparr>timer_ticks := n\<rparr>) = server_ok s" "server_ok (s\<lparr>voted_for := v\<rparr>) = server_ok s"
  "server_ok (s\<lparr>follower_leader := v\<rparr>) = server_ok s" "server_ok (s\<lparr>required_old_votes := x\<rparr>) = server_ok s"
  "server_ok (s\<lparr>required_new_votes := x\<rparr>) = server_ok s" "server_ok (s\<lparr>halted := b\<rparr>) = server_ok s"
  "server_ok (s\<lparr>commit_entry_required_old_votes := x\<rparr>) = server_ok s"
  "server_ok (s\<lparr>commit_entry_required_new_votes := x\<rparr>) = server_ok s"
  "server_ok (s\<lparr>entry_commited := b\<rparr>) = server_ok s" "server_ok (s\<lparr>replicate_entry_wanted := b\<rparr>) = server_ok s"
  "server_ok (s\<lparr>replicate_entry_round := n'\<rparr>) = server_ok s" "server_ok (s\<lparr>leader_available := b\<rparr>) = server_ok s"
  "server_ok (s\<lparr>dispatched := d\<rparr>) = server_ok s" "server_ok (reset_timer s) = server_ok s" "server_ok (reset_follower s) = server_ok s"
  by (simp_all add: server_ok_def clusters_ok_def reset_timer_def reset_follower_def)

lemma reset_simps [simp]:
  "net (reset_timer s) = net s" "net (reset_follower s) = net s" "s_log (reset_timer s) = s_log s"
  "s_log (reset_follower s) = s_log s" "same_roles s (reset_timer s') = same_roles s s'"
  "same_roles s (reset_follower s') = same_roles s s'" "s_state (reset_timer s) = s_state s"
  "s_state (reset_follower s) = s_state s" "s_term (reset_timer s) = s_term s"
  "net (set_timer s i) = net s" "s_log (set_timer s i) = s_log s" "server_ok (set_timer s i) = server_ok s"
  "s_term (set_timer s i) = s_term s" "s_state (set_timer s i) = s_state s"
  "same_roles s (set_timer s' i) = same_roles s s'"
  by (simp_all add: reset_timer_def reset_follower_def same_roles_def set_timer_def reset_timer_hard_def server_ok_def clusters_ok_def)

lemma convert_to_follower_ok:
  assumes "server_ok s" "s_state s \<noteq> SERVER_STATE_FOLLOWER"
  shows "server_ok (convert_to_follower s)" "net (convert_to_follower s) = net s" "s_log (convert_to_follower s) = s_log s"
    "s_state (convert_to_follower s) = SERVER_STATE_FOLLOWER"
  using assms
  by (auto simp: server_ok_def clusters_ok_def convert_to_follower_def server_replace_cluster_def reset_timer_def reset_follower_def)

lemma increase_term_ok:
  assumes "server_ok s"
  shows "server_ok (server_increase_term s t)" "net (server_increase_term s t) = net s"
    "s_log (server_increase_term s t) = s_log s" "s_state (server_increase_term s t) = SERVER_STATE_FOLLOWER"
  using assms convert_to_follower_ok [of "s\<lparr>s_term := t\<rparr>"] by (simp_all add: server_increase_term_def Let_def)

text \<open>Replacing the log of the server.\<close>

lemma replace_log_ok:
  assumes w: "world_ok (own b) Z w" and a: "a \<noteq> b \<and> logs w a = Some m \<or> lent (conns w r) = Some a"
  shows "world_ok (own a) (Z - {a}) (borrow_log (return_log w b) a)"
proof -
  let ?w = "return_log w b"
  have e: "(own b)(b := own b b - 1) = (\<lambda>_. 0)" "((\<lambda>_. 0)(a := Suc 0)) = own a" by (auto simp: own_def)
  have r: "refs (\<lambda>_. 0) Z (logs ?w) (conns ?w)"
    using refs_ext_return [of "own b" Z "logs w" "conns w" b] w unfolding e(1)
    by (simp add: world_ok_def return_log_def log_of_def own_def)
  have "\<exists>m. logs ?w a = Some m"
  proof (cases "lent (conns w r) = Some a")
    case True
    then have "0 < (0::nat) \<or> lent (conns ?w r) = Some a" by simp
    then show ?thesis using refs_held [OF r] by metis
  next
    case False
    then show ?thesis using a by (simp add: return_log_def)
  qed
  then obtain m' where m': "logs ?w a = Some m'" by blast
  have "refs (own a) (Z - {a}) ((logs ?w)(a \<mapsto> log_borrow m')) (conns ?w)"
    using refs_ext_borrow [OF r m'] unfolding e(2) by simp
  moreover have "\<exists>m. logs w b = Some m"
    by (rule refs_held [of "own b" Z "logs w" "conns w" b]) (use w in \<open>auto simp: world_ok_def own_def\<close>)
  then have "b < next_addr w" using w by (auto simp: world_ok_def not_le [symmetric])
  moreover from this have "a < next_addr w"
    using m' w by (auto simp: return_log_def world_ok_def not_le [symmetric] split: if_splits)
  ultimately show ?thesis
    using w m' by (auto simp: world_ok_def borrow_log_def log_of_def) (simp_all add: return_log_def)
qed

section \<open>Handlers of one connection\<close>

text \<open>A connection that holds no log is given a message and a state in which it writes it.\<close>

lemma respond_ok:
  assumes a: "around ext Z r w" and c: "conns w r = Some c" and g: "\<And>c. rc_state (g c) = ST"
    and st: "\<not> st_log ST" "st_out ST \<longleftrightarrow> outgoing_ref r" "st_auth ST \<longleftrightarrow> r \<in> set (authority w)"
    and out: "\<And>w c. world_ok ext Z w \<Longrightarrow> conns w r = Some c \<Longrightarrow> rc_state c = ST \<Longrightarrow> local_step ext Z r w (out w)"
  shows "local_step ext Z r w (out (upd_conn w r g))"
proof -
  have l: "local_step ext Z r w (upd_conn w r g)"
    by (rule set_state_ok [OF a c]) (use g st in \<open>simp_all add: conn_ok_def del: st_auth_iff\<close>)
  moreover have "local_step ext Z r (upd_conn w r g) (out (upd_conn w r g))"
    by (rule out [of _ "g c"]) (use l g c in \<open>simp_all add: local_step_def conn_of_def\<close>)
  ultimately show ?thesis by (rule local_step_trans)
qed

lemma upd_upd: "upd_conn (upd_conn w r f) r g = upd_conn w r (\<lambda>c. g (f c))"
  by (simp add: upd_conn_def set_conn_def conn_of_def)

lemma same_conn: "world_ok ext Z w \<Longrightarrow> conns w r = Some c \<Longrightarrow> \<not> st_auth (rc_state c) \<Longrightarrow> r \<notin> set (authority w)"
  by (auto simp: world_ok_def conn_ok_def simp del: st_auth_iff)

lemma idleI:
  assumes "server_ok s" "conns (net s) r = Some c" "\<not> st_log (rc_state c)" "\<not> st_auth (rc_state c)"
  shows "idle s r"
  using assms around_world [of "own (s_log s)" "{}" "net s" r c] same_conn [of "own (s_log s)" "{}" "net s" r c]
  by (simp add: idle_def server_ok_def del: st_auth_iff)

lemma idle_local:
  assumes "idle s r" "local_step (own (s_log s')) {} r (net s) (net s')" "same_roles s s'"
  shows "srv_step r s s'"
  by (rule step_local [OF _ assms(2) _ assms(3)]) (use assms(1) in \<open>simp_all add: idle_def\<close>)

lemma idle_net:
  "idle s r \<Longrightarrow> local_step (own (s_log s)) {} r (net s) w \<Longrightarrow> srv_step r s (s\<lparr>net := w\<rparr>)"
  by (rule idle_local) simp_all

lemma change_outs:
  assumes i: "idle s r"
  shows "\<not> outgoing_ref r \<Longrightarrow> srv_step r s (change_to_vote_out os s r b)"
    and "outgoing_ref r \<Longrightarrow> srv_step r s (change_to_request_vote_out os s r)"
    and "\<not> outgoing_ref r \<Longrightarrow> srv_step r s (change_to_recv_entry_out os s r)"
    and "outgoing_ref r \<Longrightarrow> srv_step r s (change_to_heartbeat_out os s r)"
    and "\<not> outgoing_ref r \<Longrightarrow> srv_step r s (change_to_leader_out os s r)"
proof -
  have a: "around (own (s_log s)) {} r (net s)" and n: "r \<notin> set (authority (net s))" using i by (simp_all add: idle_def)
  obtain c where c: "conns (net s) r = Some c" using i by (auto simp: idle_def)
  note respond = respond_ok [OF a c] and outs = out_states [of "own (s_log s)" "{}" _ r]
  show "\<not> outgoing_ref r \<Longrightarrow> srv_step r s (change_to_vote_out os s r b)"
    unfolding change_to_vote_out_def Let_def upd_upd
    by (rule idle_net [OF i], rule respond [where out = "\<lambda>w. state_vote_out os w r" and ST = RAFT_CONN_STATE_VOTE_OUT])
      (use n outs(1) in simp_all)
  show "outgoing_ref r \<Longrightarrow> srv_step r s (change_to_request_vote_out os s r)"
    unfolding change_to_request_vote_out_def Let_def upd_upd
    by (rule idle_net [OF i], rule respond [where out = "\<lambda>w. state_request_vote_out os w r" and ST = RAFT_CONN_STATE_REQUEST_VOTE_OUT])
      (use n outs(2) in simp_all)
  show "\<not> outgoing_ref r \<Longrightarrow> srv_step r s (change_to_recv_entry_out os s r)"
    unfolding change_to_recv_entry_out_def Let_def upd_upd
    by (rule idle_net [OF i], rule respond [where out = "\<lambda>w. state_recv_entry_out os w r" and ST = RAFT_CONN_STATE_RECV_ENTRY_OUT])
      (use n outs(3) in simp_all)
  show "outgoing_ref r \<Longrightarrow> srv_step r s (change_to_heartbeat_out os s r)"
    unfolding change_to_heartbeat_out_def Let_def upd_upd
    by (rule idle_net [OF i], rule respond [where out = "\<lambda>w. state_heartbeat_out os w r" and ST = RAFT_CONN_STATE_HEARTBEAT_OUT])
      (use n outs(5) in simp_all)
  show "\<not> outgoing_ref r \<Longrightarrow> srv_step r s (change_to_leader_out os s r)"
    unfolding change_to_leader_out_def Let_def upd_upd
    by (rule idle_net [OF i], rule respond [where out = "\<lambda>w. state_leader_out os w r" and ST = RAFT_CONN_STATE_LEADER_OUT])
      (use n outs(6) in simp_all)
qed

lemma write_then_return:
  assumes w: "world_ok ext Z w" and c: "conns w r = Some c" "st_log (rc_state c)"
    and io: "io_step w r inc ok w1" and inc: "inc \<longleftrightarrow> \<not> outgoing_ref r"
    and f: "\<And>c. \<not> st_log (rc_state (f c))" "\<And>c. st_out (rc_state (f c)) \<longleftrightarrow> outgoing_ref r" "\<And>c. \<not> st_auth (rc_state (f c))"
  shows "local_step ext Z r w (if ok then upd_conn (raft_conn_return_log w1 r) r f else w1)"
proof (cases ok)
  case True
  note s = io_step_ok [OF io w c(1) inc]
  from s(2) [OF True] obtain c' where c': "conns w1 r = Some c'" "rc_state c' = rc_state c" by blast
  have ok1: "world_ok ext Z w1" using s(1) by (simp add: local_step_def)
  have n: "r \<notin> set (authority w1)"
    by (rule same_conn [OF ok1 c'(1)]) (use c' c in \<open>auto simp: st_log_iff\<close>)
  have "local_step ext Z r (return_log w1 (rc_log c')) (upd_conn (return_log w1 (rc_log c')) r f)"
    by (rule set_state_ok [OF around_return [OF ok1 c'(1)]])
      (use c' c f n in \<open>auto simp: conn_ok_def simp del: st_auth_iff\<close>)
  then have "local_step ext Z r w1 (upd_conn (raft_conn_return_log w1 r) r f)"
    using c' by (simp add: local_step_def raft_conn_return_log_def conn_of_def)
  then show ?thesis using True s(1) local_step_trans by simp
qed (use io_step_ok(1) [OF io w c(1) inc] in simp)

lemma write_log_states:
  assumes w: "world_ok ext Z w" and c: "conns w r = Some c"
  shows "rc_state c = RAFT_CONN_STATE_APPEND_LOG_OUT \<Longrightarrow> local_step ext Z r w (state_append_log_out os w r)"
    and "rc_state c = RAFT_CONN_STATE_CLUSTER_OUT \<Longrightarrow> local_step ext Z r w (state_cluster_out os w r)"
proof -
  have *: "local_step ext Z r w (case raft_conn_full_write_msg os w r inc iov of
      (ok, w) \<Rightarrow> if ok then upd_conn (raft_conn_return_log w r) r f else w)"
    if "st_log (rc_state c)" "inc \<longleftrightarrow> \<not> outgoing_ref r"
      "\<And>c. \<not> st_log (rc_state (f c))" "\<And>c. st_out (rc_state (f c)) \<longleftrightarrow> outgoing_ref r" "\<And>c. \<not> st_auth (rc_state (f c))"
    for inc iov f
  proof (cases "raft_conn_full_write_msg os w r inc iov")
    case (Pair ok w1)
    show ?thesis
      using write_then_return [OF w c that(1) raft_conn_full_write_msg_step [OF c Pair] that(2-5)] by (simp add: Pair)
  qed
  show "rc_state c = RAFT_CONN_STATE_APPEND_LOG_OUT \<Longrightarrow> local_step ext Z r w (state_append_log_out os w r)"
    unfolding state_append_log_out_def change_to_append_log_in_def Let_def
    by (rule *) (use ok_conn(1) [OF w c] in simp_all)
  show "rc_state c = RAFT_CONN_STATE_CLUSTER_OUT \<Longrightarrow> local_step ext Z r w (state_cluster_out os w r)"
    unfolding state_cluster_out_def change_to_in_cmd_def Let_def
    by (rule *) (use ok_conn(1) [OF w c] in simp_all)
qed

lemma own_log:
  assumes "refs (own a) Z L C"
  obtains m where "L a = Some m"
  by (rule refs_held [OF assms, of a]) (auto simp: own_def)

text \<open>The server's own log given to an idle connection.\<close>

lemma lend_ok:
  assumes i: "idle s r" and st: "st_log ST" "st_out ST \<longleftrightarrow> outgoing_ref r" "\<not> st_auth ST"
    and out: "\<And>w c. world_ok (own (s_log s)) {} w \<Longrightarrow> conns w r = Some c \<Longrightarrow> rc_state c = ST \<Longrightarrow>
      local_step (own (s_log s)) {} r w (out w)"
  shows "local_step (own (s_log s)) {} r (net s) (out (raft_conn_borrow_log (upd_conn (net s) r f) r (s_log s) ST sz))"
proof -
  let ?g = "\<lambda>c. (raft_conn_set_io ST sz (f c))\<lparr>rc_log := s_log s\<rparr>"
  let ?w = "borrow_log (upd_conn (net s) r ?g) (s_log s)"
  have e: "raft_conn_borrow_log (upd_conn (net s) r f) r (s_log s) ST sz = ?w"
    by (simp add: raft_conn_borrow_log_def Let_def upd_upd)
  have a: "around (own (s_log s)) {} r (net s)" and n: "r \<notin> set (authority (net s))" using i by (simp_all add: idle_def)
  obtain c where c: "conns (net s) r = Some c" using i by (auto simp: idle_def)
  obtain m where m: "logs (net s) (s_log s) = Some m"
    using a by (auto simp: around_def elim: own_log)
  have w: "world_ok (own (s_log s)) {} ?w"
    using world_borrow [OF a c m, of ?g] st n by (simp add: conn_ok_def del: st_auth_iff)
  have "local_step (own (s_log s)) {} r (net s) ?w"
    using w by (simp add: local_step_def)
  moreover have "local_step (own (s_log s)) {} r ?w (out ?w)"
    by (rule out [OF w, of "?g c"]) (use c in \<open>simp_all add: conn_of_def\<close>)
  ultimately show ?thesis unfolding e by (rule local_step_trans)
qed

lemma upd_member_same:
  assumes "conns (net s) r \<noteq> None" "clusters_ok K s"
  shows "net (upd_member s r f) = net s" "s_log (upd_member s r f) = s_log s" "same_roles s (upd_member s r f)"
    "s_state (upd_member s r f) = s_state s" "s_cluster (upd_member s r f) = s_cluster s"
    "clusters_ok K (upd_member s r f)" "s_term (upd_member s r f) = s_term s"
proof -
  show n: "net (upd_member s r f) = net s" and "s_log (upd_member s r f) = s_log s" "s_state (upd_member s r f) = s_state s"
    "s_cluster (upd_member s r f) = s_cluster s" "s_term (upd_member s r f) = s_term s"
    by (cases r; simp add: Let_def)+
  show r: "same_roles s (upd_member s r f)"
    using assms by (cases r) (auto simp: same_roles_def clusters_ok_def cluster_at_def Let_def)
  show "clusters_ok K (upd_member s r f)"
    by (rule clusters_ok_same [OF assms(2) r]) (simp_all add: n)
qed

lemma idle_upd_member:
  assumes "idle s r"
  shows "idle (upd_member s r f) r" "srv_step r (upd_member s r f) s' \<Longrightarrow> srv_step r s s'"
  using assms upd_member_same [of s r "{}" f] by (auto simp: idle_def srv_step_def)

lemma change_to_append_log_out_ok:
  assumes i: "idle s r" and r: "outgoing_ref r"
  shows "srv_step r s (change_to_append_log_out os s r)"
proof -
  obtain w w' f where w: "local_step (own (s_log s)) {} r (net s) w'"
    and e: "change_to_append_log_out os s r = (upd_member (s\<lparr>net := w\<rparr>) r f)\<lparr>net := w'\<rparr>" and c: "conns w r \<noteq> None"
    and o: "\<And>r'. r' \<noteq> r \<Longrightarrow> conns w r' = conns (net s) r'" and a: "next_addr w = next_addr (net s)"
  proof
    let ?log = "cur_log s"
    let ?sz = "MACHINE_SIZE * ucast (old_n ?log + new_n ?log)"
    let ?g = "\<lambda>c. c\<lparr>buffer := put_append_log_req
                \<lparr>al_type = l_type ?log, al_machines_size = ?sz, al_term = s_term s, al_leader_id = s_id s,
                 al_follower_id = mb_id (member_of s r), al_log_index = l_index ?log, al_log_term = l_term ?log,
                 al_version = l_version ?log, al_next_machine_version = next_machine_version ?log,
                 al_next_machine_id = next_machine_id ?log, al_new_machine_nr = new_n ?log,
                 al_distinct_machines_n = distinct_machines_n ?log\<rparr> (buffer c)\<rparr>"
    let ?w = "raft_conn_borrow_log (upd_conn (net s) r ?g) r (s_log s) RAFT_CONN_STATE_APPEND_LOG_OUT (APPEND_LOG_REQ_SIZE + ?sz)"
    show "local_step (own (s_log s)) {} r (net s) (state_append_log_out os ?w r)"
      by (rule lend_ok [OF i, where out = "\<lambda>w. state_append_log_out os w r"]) (use r write_log_states(1) in simp_all)
    show "change_to_append_log_out os s r = (upd_member (s\<lparr>net := ?w\<rparr>) r (\<lambda>m. m\<lparr>next_index := l_index ?log\<rparr>))
        \<lparr>net := state_append_log_out os ?w r\<rparr>"
      by (simp add: change_to_append_log_out_def Let_def)
  qed (simp_all add: raft_conn_borrow_log_def Let_def)
  have "clusters_ok {} (s\<lparr>net := w\<rparr>)"
  proof (rule clusters_ok_same [of _ s])
    show "clusters_ok {} s" using i by (simp add: idle_def)
    show "conns (net (s\<lparr>net := w\<rparr>)) (Out k j) = None \<longleftrightarrow> conns (net s) (Out k j) = None" for k j
      using o [of "Out k j"] c i by (cases "Out k j = r") (auto simp: idle_def)
  qed (simp_all add: a)
  note m = upd_member_same [OF _ this, of r f]
  show ?thesis
    by (rule idle_local [OF i]) (use w c m in \<open>auto simp: e same_roles_def\<close>)
qed

lemma change_to_append_entry_out_ok:
  assumes i: "idle s r" and r: "outgoing_ref r"
  shows "srv_step r s (change_to_append_entry_out os s r)"
proof -
  let ?s = "upd_member s r (\<lambda>m. m\<lparr>append_entry_round := replicate_entry_round s\<rparr>)"
  have "srv_step r ?s (if next_index (member_of ?s r) \<le> l_index (cur_log ?s) then change_to_append_log_out os ?s r
      else change_to_heartbeat_out os ?s r)"
    using change_to_append_log_out_ok [OF idle_upd_member(1) [OF i] r] change_outs(4) [OF idle_upd_member(1) [OF i] r] by simp
  then show ?thesis
    unfolding change_to_append_entry_out_def Let_def by (rule idle_upd_member(2) [OF i])
qed

section \<open>Roles\<close>

text \<open>A server that differs in fields the stores do not depend on.\<close>

lemma idle_move:
  assumes "idle s r" "server_ok s" "server_ok s'" "net s' = net s" "s_log s' = s_log s"
  shows "idle s' r" "srv_step r s' s'' \<Longrightarrow> srv_step r s s''"
  using assms by (auto simp: idle_def server_ok_def srv_step_def)

lemma state_vote_in_ok:
  assumes s: "server_ok s" and c: "conns (net s) r = Some c" "rc_state c = RAFT_CONN_STATE_IN_CMD" and r: "\<not> outgoing_ref r"
  shows "srv_step r s (state_vote_in os s r)"
proof -
  have i: "idle s r" by (rule idleI [OF s c(1)]) (use c in simp_all)
  let ?req = "get_request_vote_req (buffer (conn_of (net s) r))"
  let ?s = "if rv_term ?req > s_term s then server_increase_term s (rv_term ?req) else s"
  have s': "server_ok ?s" "net ?s = net s" "s_log ?s = s_log s"
    using s increase_term_ok [OF s] by simp_all
  have s'': "server_ok ((reset_timer ?s)\<lparr>voted_for := v\<rparr>)" for v using s'(1) by simp
  note m = idle_move [OF i s s'] and m' = idle_move [OF i s s'', simplified, OF s'(2,3)]
  show ?thesis
    using m(2) [OF change_outs(1) [OF m(1) r]] m'(2) [OF change_outs(1) [OF m'(1) r]] change_outs(1) [OF i r]
    unfolding state_vote_in_def Let_def by auto
qed

lemma convert_to_leader_ok:
  assumes s: "server_ok s" and "s_state s \<noteq> SERVER_STATE_FOLLOWER"
  shows "server_ok (convert_to_leader s)" "conns (net (convert_to_leader s)) = conns (net s)"
proof -
  have w: "world_ok (own (s_log s)) {} (net s)" using s by (simp add: server_ok_def)
  obtain m where m: "logs (net s) (s_log s) = Some m"
    using w by (auto simp: world_ok_def elim: own_log)
  let ?m = "m\<lparr>l_index := l_index m + 1, l_term := s_term s\<rparr>"
  have w': "world_ok (own (s_log s)) {} ((net s)\<lparr>logs := (logs (net s))(s_log s \<mapsto> ?m)\<rparr>)"
    using w m refs_content [of "own (s_log s)" "{}" "logs (net s)" "conns (net s)" "s_log s" m ?m]
    by (auto simp: world_ok_def)
  have cl: "clusters_ok {} s" using s by (simp add: server_ok_def)
  show "server_ok (convert_to_leader s)" "conns (net (convert_to_leader s)) = conns (net s)"
    using w w' cl assms(2) m
    by (auto simp: convert_to_leader_def cur_log_def log_of_def Let_def server_ok_def clusters_ok_def)
qed

lemma read_buffer_ok:
  assumes s: "server_ok s" and c: "conns (net s) r = Some c"
    and e: "raft_conn_full_read_to_buffer os (net s) r inc sz = (ok, w)" and inc: "inc \<longleftrightarrow> \<not> outgoing_ref r"
  shows "srv_step r s (s\<lparr>net := w\<rparr>)"
    and "ok \<Longrightarrow> \<exists>c'. conns w r = Some c' \<and> rc_state c' = rc_state c"
  using io_step_ok [OF raft_conn_full_read_to_buffer_step [OF c e] server_okD(1) [OF s] c inc] s c
  by (auto intro!: srv_local)

text \<open>An outgoing connection that has read its response is ready for use.\<close>

lemma ready_ok:
  assumes s: "server_ok s" and c: "conns (net s) r = Some c" "\<not> st_log (rc_state c)" "\<not> st_auth (rc_state c)" and r: "outgoing_ref r"
  shows "srv_step r s (s\<lparr>net := upd_conn (net s) r raft_conn_change_to_ready_for_use\<rparr>)"
    "idle (s\<lparr>net := upd_conn (net s) r raft_conn_change_to_ready_for_use\<rparr>) r"
proof -
  have "local_step (own (s_log s)) {} r (net s) (upd_conn (net s) r raft_conn_change_to_ready_for_use)"
    by (rule set_state_ok [OF around_world [OF server_okD(1) [OF s] c(1,2)] c(1)])
      (use r same_conn [OF server_okD(1) [OF s] c(1,3)] in
        \<open>simp_all add: conn_ok_def raft_conn_change_to_ready_for_use_def\<close>)
  then show *: "srv_step r s (s\<lparr>net := upd_conn (net s) r raft_conn_change_to_ready_for_use\<rparr>)"
    using s c by (intro srv_local) auto
  show "idle (s\<lparr>net := upd_conn (net s) r raft_conn_change_to_ready_for_use\<rparr>) r"
    by (rule idleI [OF srv_ok [OF *], of _ "raft_conn_change_to_ready_for_use c"])
      (use c in \<open>simp_all add: conn_of_def raft_conn_change_to_ready_for_use_def\<close>)
qed

lemma state_request_vote_in_ok:
  assumes s: "server_ok s" and c: "conns (net s) r = Some c" "rc_state c = RAFT_CONN_STATE_REQUEST_VOTE_IN" and r: "outgoing_ref r"
  shows "srv_step r s (state_request_vote_in os s r)"
proof (cases "raft_conn_full_read_to_buffer os (net s) r False REQUEST_VOTE_RES_SIZE")
  case (Pair ok w)
  have "False \<longleftrightarrow> \<not> outgoing_ref r" using r by simp
  note read = read_buffer_ok [OF s c(1) Pair this]
  show ?thesis
  proof (cases ok)
    case False
    then show ?thesis using read(1) by (simp add: state_request_vote_in_def Pair)
  next
    case True
    let ?s = "s\<lparr>net := upd_conn w r raft_conn_change_to_ready_for_use\<rparr>" and ?res = "get_request_vote_res (buffer (conn_of w r))"
    from read(2) [OF True] obtain c' where c': "conns w r = Some c'" "rc_state c' = rc_state c" by blast
    have ok1: "srv_step r s ?s"
      using ready_ok(1) [OF srv_ok [OF read(1)], of r c'] c c' r srv_trans [OF read(1)] by simp
    have trm: "srv_step r ?s (server_increase_term ?s t)" for t
      using increase_term_ok [OF srv_ok [OF ok1]] by (simp add: srv_step_def)
    have v: "srv_step r ?s (?s\<lparr>required_old_votes := x, required_new_votes := y\<rparr>)" for x y
      using srv_ok [OF ok1] by (simp add: srv_step_def)
    have win: "srv_step r ?s (win_election (?s\<lparr>required_old_votes := x, required_new_votes := y\<rparr>))"
      if "s_state s = SERVER_STATE_CANDIDATE" for x y
      using convert_to_leader_ok [of "?s\<lparr>required_old_votes := x, required_new_votes := y\<rparr>"] srv_ok [OF v] that
      by (simp add: srv_step_def win_election_def)
    show ?thesis
      using True srv_trans [OF ok1 trm] srv_trans [OF ok1 v] srv_trans [OF ok1 win] ok1
      by (simp add: state_request_vote_in_def Pair Let_def)
  qed
qed

section \<open>Receiving a log\<close>

lemma read_machines_ok:
  assumes s: "server_ok s" and c: "conns (net s) r = Some c" and e: "raft_conn_full_read os (net s) r True to_machines = (ok, w)"
    and r: "\<not> outgoing_ref r"
  shows "srv_step r s (s\<lparr>net := w\<rparr>)"
    and "ok \<Longrightarrow> \<exists>c'. conns w r = Some c' \<and> rc_state c' = rc_state c \<and> rc_log c' = rc_log c"
    and "ok \<Longrightarrow> logs w = logs (net s)"
proof -
  have "io_step (net s) r True ok w"
    by (rule raft_conn_full_read_step [OF c _ _ e]) simp_all
  note io = io_step_ok [OF this server_okD(1) [OF s] c]
  show "srv_step r s (s\<lparr>net := w\<rparr>)"
    using io(1) r s c by (intro srv_local) simp_all
  show "ok \<Longrightarrow> \<exists>c'. conns w r = Some c' \<and> rc_state c' = rc_state c \<and> rc_log c' = rc_log c"
    "ok \<Longrightarrow> logs w = logs (net s)"
    using io(2,3) r by simp_all
qed

lemma returned_idle:
  assumes s: "server_ok s" and c: "conns (net s) r = Some c" "st_log (rc_state c)"
  shows "idle (s\<lparr>net := raft_conn_return_log (net s) r\<rparr>) r"
    and "srv_step r (s\<lparr>net := raft_conn_return_log (net s) r\<rparr>) s' \<Longrightarrow> srv_step r s s'"
proof -
  let ?s = "s\<lparr>net := raft_conn_return_log (net s) r\<rparr>"
  have n: "r \<notin> set (authority (net s))"
    by (rule same_conn [OF server_okD(1) [OF s] c(1)]) (use c in \<open>auto simp: st_log_iff\<close>)
  have "clusters_ok {} ?s"
    by (rule clusters_ok_same [OF server_okD(2) [OF s]]) (simp_all add: raft_conn_return_log_def)
  then show "idle ?s r"
    using around_return [OF server_okD(1) [OF s] c] c n by (simp add: idle_def raft_conn_return_log_def conn_of_def)
  show "srv_step r ?s s' \<Longrightarrow> srv_step r s s'"
    by (simp add: srv_step_def raft_conn_return_log_def)
qed

lemma change_to_recv_log_out_ok:
  assumes "server_ok s" "conns (net s) r = Some c" "st_log (rc_state c)" "\<not> outgoing_ref r"
  shows "srv_step r s (change_to_recv_log_out os s r)"
  unfolding change_to_recv_log_out_def
  using returned_idle [OF assms(1-3)] change_outs(3) assms(4) by blast

lemma log_content_ok:
  assumes s: "server_ok s" and m: "refcount m = refcount (log_of (net s) a)" and a: "logs (net s) a \<noteq> None"
  shows "server_ok (s\<lparr>net := (net s)\<lparr>logs := (logs (net s))(a \<mapsto> m)\<rparr>\<rparr>)"
proof -
  obtain m0 where m0: "logs (net s) a = Some m0" using a by blast
  have "refs (own (s_log s)) {} ((logs (net s))(a \<mapsto> m)) (conns (net s))"
    using refs_content [of "own (s_log s)" "{}" "logs (net s)" "conns (net s)" a m0 m] s m m0
    by (simp add: server_ok_def world_ok_def log_of_def)
  moreover have "clusters_ok {} (s\<lparr>net := (net s)\<lparr>logs := (logs (net s))(a \<mapsto> m)\<rparr>\<rparr>)"
    by (rule clusters_ok_same [OF server_okD(2) [OF s]]) simp_all
  ultimately show ?thesis
    using s m0 by (auto simp: server_ok_def world_ok_def)
qed

lemma held_log:
  assumes "server_ok s" "conns (net s) r = Some c" "st_log (rc_state c)"
  shows "logs (net s) (rc_log c) \<noteq> None"
  by (rule refs_held [of "own (s_log s)" "{}" "logs (net s)" "conns (net s)" "rc_log c" r])
    (use assms in \<open>auto simp: server_ok_def world_ok_def lent_Some\<close>)

text \<open>The server takes the log that a connection holds.\<close>

lemma server_replace_log_ok:
  assumes s: "server_ok s" and c: "conns (net s) r = Some c" "st_log (rc_state c)"
  shows "server_ok (server_replace_log s (rc_log c))" "conns (net (server_replace_log s (rc_log c))) = conns (net s)"
proof -
  have "world_ok (own (rc_log c)) ({} - {rc_log c}) (borrow_log (return_log (net s) (s_log s)) (rc_log c))"
    by (rule replace_log_ok [OF server_okD(1) [OF s], where r = r]) (use c in \<open>simp add: lent_Some\<close>)
  moreover have "clusters_ok {} (server_replace_log s (rc_log c))"
    by (rule clusters_ok_same [OF server_okD(2) [OF s]]) (simp_all add: server_replace_log_def server_borrow_log_def)
  ultimately show "server_ok (server_replace_log s (rc_log c))"
    by (simp add: server_ok_def server_replace_log_def server_borrow_log_def)
  show "conns (net (server_replace_log s (rc_log c))) = conns (net s)"
    by (simp add: server_replace_log_def server_borrow_log_def)
qed

lemma state_recv_log_in_ok:
  assumes s: "server_ok s" and c: "conns (net s) r = Some c" "rc_state c = RAFT_CONN_STATE_RECV_LOG_IN" and r: "\<not> outgoing_ref r"
  shows "srv_step r s (state_recv_log_in os s r)"
proof (cases "raft_conn_full_read os (net s) r True to_machines")
  case (Pair ok w)
  note read = read_machines_ok [OF s c(1) Pair r]
  show ?thesis
  proof (cases ok)
    case False
    then show ?thesis using read(1) by (simp add: state_recv_log_in_def Pair)
  next
    case True
    let ?s = "s\<lparr>net := w\<rparr>" and ?req = "get_append_log_req (buffer (conn_of w r))"
    from read(2) [OF True] obtain c' where c': "conns w r = Some c'" "st_log (rc_state c')"
      using c by auto
    have s0: "server_ok ?s" using srv_ok [OF read(1)] .
    define s1 where "s1 = (if l_index (cur_log ?s) = 0 then set_timer ?s (al_follower_id ?req) else ?s)"
    define s2 where "s2 = (if al_term ?req > s_term s1 then server_increase_term s1 (al_term ?req)
        else if s_state s1 \<noteq> SERVER_STATE_FOLLOWER then convert_to_follower s1 else s1)"
    define s3 where "s3 = reset_timer (s2\<lparr>s_id := al_follower_id ?req, follower_leader := al_leader_id ?req\<rparr>)"
    have s1: "server_ok s1" "net s1 = w" using s0 by (simp_all add: s1_def)
    have "server_ok s2" "net s2 = w"
      using s1 increase_term_ok [OF s1(1)] convert_to_follower_ok [OF s1(1)] by (simp_all add: s2_def)
    then have s3: "server_ok s3" "net s3 = w" by (simp_all add: s3_def)
    have reject: "srv_step r ?s (change_to_recv_log_out os ?s r)"
      by (rule change_to_recv_log_out_ok [OF s0]) (use c' r in simp_all)
    have accept: "srv_step r ?s (change_to_recv_log_out os
        (server_replace_log (s3\<lparr>net := (net s3)\<lparr>logs := (logs (net s3))(rc_log c' \<mapsto> m)\<rparr>\<rparr>) (rc_log c')) r)"
      if m: "refcount m = refcount (log_of w (rc_log c'))" for m
    proof -
      let ?s4 = "s3\<lparr>net := (net s3)\<lparr>logs := (logs (net s3))(rc_log c' \<mapsto> m)\<rparr>\<rparr>"
      have s4: "server_ok ?s4"
        by (rule log_content_ok [OF s3(1)]) (use m held_log [OF s3(1), of r c'] s3(2) c' in simp_all)
      have c4: "conns (net ?s4) r = Some c'" using c' s3(2) by simp
      note s5 = server_replace_log_ok [OF s4 c4 c'(2)]
      have "srv_step r (server_replace_log ?s4 (rc_log c')) (change_to_recv_log_out os (server_replace_log ?s4 (rc_log c')) r)"
        by (rule change_to_recv_log_out_ok [OF s5(1)]) (use c4 c' r in \<open>simp_all add: s5(2)\<close>)
      then show ?thesis
        using s3(2) s5(2) by (simp add: srv_step_def)
    qed
    have "state_recv_log_in os s r = (if al_term ?req < s_term ?s then change_to_recv_log_out os ?s r
      else change_to_recv_log_out os (server_replace_log (s3\<lparr>net := (net s3)\<lparr>logs := (logs (net s3))(rc_log c' \<mapsto>
        (log_of (net s3) (rc_log c'))\<lparr>l_index := al_log_index ?req, l_term := al_log_term ?req, l_version := al_version ?req,
           next_machine_version := al_next_machine_version ?req, next_machine_id := al_next_machine_id ?req,
           l_type := al_type ?req, old_n := ucast (al_machines_size ?req div MACHINE_SIZE) - al_new_machine_nr ?req,
           new_n := al_new_machine_nr ?req, distinct_machines_n := al_distinct_machines_n ?req,
           l_machines := machines_of_bytes (unat (al_machines_size ?req div MACHINE_SIZE)) (rx c')\<rparr>)\<rparr>\<rparr>) (rc_log c')) r)"
      using True c'(1) unfolding state_recv_log_in_def Pair Let_def s3_def s2_def s1_def by (simp add: conn_of_def)
    then show ?thesis
      using srv_trans [OF read(1) reject] srv_trans [OF read(1) accept] s3(2) by simp
  qed
qed

text \<open>A new log for an idle connection.\<close>

lemma take_log_ok:
  assumes i: "idle s r" and m: "refcount m = 0" and st: "st_log ST" "st_out ST \<longleftrightarrow> outgoing_ref r" "\<not> st_auth ST"
    and g: "\<And>c. rc_state (g c) = rc_state c" "\<And>c. rc_log (g c) = rc_log c"
    and w: "new_log (net s) (Some m) = (Some a, w)"
  shows "srv_step r s (s\<lparr>net := upd_conn (raft_conn_borrow_log w r a ST sz) r g\<rparr>)"
    and "\<exists>c. conns (upd_conn (raft_conn_borrow_log w r a ST sz) r g) r = Some c \<and> rc_state c = ST"
    and "cur_log (s\<lparr>net := upd_conn (raft_conn_borrow_log w r a ST sz) r g\<rparr>) = cur_log s"
proof -
  let ?f = "\<lambda>c. g ((raft_conn_set_io ST sz c)\<lparr>rc_log := a\<rparr>)"
  let ?w = "borrow_log (upd_conn w r ?f) a"
  have e: "upd_conn (raft_conn_borrow_log w r a ST sz) r g = ?w"
    by (simp add: raft_conn_borrow_log_def Let_def upd_conn_def set_conn_def conn_of_def borrow_log_def log_of_def)
  have ar: "around (own (s_log s)) {} r (net s)" and n: "r \<notin> set (authority (net s))" using i by (simp_all add: idle_def)
  obtain c where c: "conns (net s) r = Some c" using i by (auto simp: idle_def)
  have w': "a = next_addr (net s)" "w = (net s)\<lparr>calls := calls (net s) + 1, next_addr := next_addr (net s) + 1,
      logs := (logs (net s))(next_addr (net s) \<mapsto> m)\<rparr>"
    using w by (auto simp: new_log_def)
  have new: "logs (net s) a = None" using ar by (simp add: around_def w')
  obtain m0 where "logs (net s) (s_log s) = Some m0" using ar by (auto simp: around_def elim: own_log)
  with new have "s_log s \<noteq> a" by auto
  then show "cur_log (s\<lparr>net := upd_conn (raft_conn_borrow_log w r a ST sz) r g\<rparr>) = cur_log s"
    unfolding e by (simp add: cur_log_def log_of_def borrow_log_def w')
  from new ar m have "around (own (s_log s)) {a} r w"
    using refs_new [of "own (s_log s)" "{}" "logs (net s)" "(conns (net s))(r := None)" a m]
    by (auto simp: around_def w')
  then have "world_ok (own (s_log s)) ({a} - {a}) ?w"
    by (rule world_borrow [where f = ?f and c = c and m = m]) (use c st n g w' in \<open>simp_all add: conn_ok_def del: st_auth_iff\<close>)
  then have "local_step (own (s_log s)) {} r (net s) ?w"
    by (simp add: local_step_def w'(2))
  then show "srv_step r s (s\<lparr>net := upd_conn (raft_conn_borrow_log w r a ST sz) r g\<rparr>)"
    unfolding e by (rule idle_net [OF i])
  show "\<exists>c. conns (upd_conn (raft_conn_borrow_log w r a ST sz) r g) r = Some c \<and> rc_state c = ST"
    unfolding e using g by simp
qed

lemma free_idle:
  assumes "server_ok s" "conns (net s) r = Some c" "\<not> outgoing_ref r"
  shows "srv_step r s (s\<lparr>net := raft_conn_free (net s) r\<rparr>)"
  using free_ok [OF server_okD(1) [OF assms(1)] assms(2,3)] assms by (intro srv_local) simp_all

lemma new_log_None [simp]: "new_log w None = (None, w\<lparr>calls := calls w + 1\<rparr>)"
  by (simp add: new_log_def)

lemma calls_ok [simp]: "server_ok (s\<lparr>net := (net s)\<lparr>calls := n\<rparr>\<rparr>) = server_ok s"
  by (simp add: server_ok_def clusters_ok_def)

lemma new_log_Some_iff: "new_log w (Some m) = (x, w') \<Longrightarrow> \<exists>a. x = Some a"
  by (auto simp: new_log_def)

text \<open>A request whose machines are read into a new log, or whose connection is freed.\<close>

lemma recv_new_log_ok:
  assumes s: "server_ok s" and c: "conns (net s) r = Some c" "\<not> st_log (rc_state c)" "\<not> st_auth (rc_state c)" and r: "\<not> outgoing_ref r"
    and m: "\<And>m. block = Some m \<Longrightarrow> refcount m = 0" and st: "st_log ST" "\<not> st_out ST" "\<not> st_auth ST"
    and g: "\<And>c. rc_state (g c) = rc_state c" "\<And>c. rc_log (g c) = rc_log c"
    and h: "\<And>s' c. server_ok s' \<Longrightarrow> conns (net s') r = Some c \<Longrightarrow> rc_state c = ST \<Longrightarrow> cur_log s' = cur_log s \<Longrightarrow>
      s_state s' = s_state s \<Longrightarrow> srv_step r s' (h s')"
  shows "srv_step r s (case new_log (net s) block of
      (None, w) \<Rightarrow> s\<lparr>net := raft_conn_free w r\<rparr>
    | (Some a, w) \<Rightarrow> h (s\<lparr>net := upd_conn (raft_conn_borrow_log w r a ST sz) r g\<rparr>))"
proof (cases block)
  case None
  have "srv_step r (s\<lparr>net := (net s)\<lparr>calls := calls (net s) + 1\<rparr>\<rparr>)
      (s\<lparr>net := raft_conn_free ((net s)\<lparr>calls := calls (net s) + 1\<rparr>) r\<rparr>)"
    using free_idle [of "s\<lparr>net := (net s)\<lparr>calls := calls (net s) + 1\<rparr>\<rparr>" r c] s c r by simp
  then show ?thesis by (simp add: None srv_step_def)
next
  case (Some m0)
  obtain a w where w: "new_log (net s) (Some m0) = (Some a, w)"
    by (cases "new_log (net s) (Some m0)") (auto dest: new_log_Some_iff)
  have i: "idle s r" by (rule idleI [OF s c(1-3)])
  note t = take_log_ok [OF i m [OF Some] st(1) _ st(3) g w, of sz]
  have o: "st_out ST \<longleftrightarrow> outgoing_ref r" using st(2) r by simp
  from t(2) [OF o] obtain c' where "conns (upd_conn (raft_conn_borrow_log w r a ST sz) r g) r = Some c'" "rc_state c' = ST"
    by blast
  then have "srv_step r (s\<lparr>net := upd_conn (raft_conn_borrow_log w r a ST sz) r g\<rparr>)
      (h (s\<lparr>net := upd_conn (raft_conn_borrow_log w r a ST sz) r g\<rparr>))"
    using h [OF srv_ok [OF t(1) [OF o]], of c'] t(3) [OF o] by simp
  with t(1) [OF o] show ?thesis
    unfolding Some w by (simp add: srv_trans)
qed

lemma log_malloc_refcount:
  "log_malloc alloc sz = Some m \<Longrightarrow> refcount m = 0"
  "log_malloc_init alloc sz = Some m \<Longrightarrow> refcount m = 0"
  "log_malloc_unstable alloc on nn = Some m \<Longrightarrow> refcount m = 0"
  "log_malloc_stable alloc old = Some m \<Longrightarrow> refcount m = 0"
  by (auto simp: log_malloc_def log_malloc_init_def log_malloc_unstable_def log_malloc_stable_def)

lemma change_to_recv_log_in_ok:
  assumes s: "server_ok s" and c: "conns (net s) r = Some c" "rc_state c = RAFT_CONN_STATE_IN_CMD" and r: "\<not> outgoing_ref r"
  shows "srv_step r s (change_to_recv_log_in os s r)"
  unfolding change_to_recv_log_in_def Let_def
  by (rule recv_new_log_ok [OF s c(1), where h = "\<lambda>s. state_recv_log_in os s r"])
    (use c r state_recv_log_in_ok log_malloc_refcount(1) in auto)

end
