(* ===== verification/Raft_Memory.thy ===== *)
theory Raft_Memory
  imports Raft_Heap
begin

text \<open>
  The stores of the server over whole rounds: changes of the cluster, elections, replication,
  and the event loop.
\<close>

section \<open>Definitions\<close>

text \<open>The invariant with logs that nothing refers to yet.\<close>

definition server_okZ :: "nat set \<Rightarrow> server \<Rightarrow> bool" where
  "server_okZ Z s \<longleftrightarrow> world_ok (own (s_log s)) Z (net s) \<and> clusters_ok {} s"

text \<open>A step that leaves every connection alone.\<close>

definition keeps :: "server \<Rightarrow> server \<Rightarrow> bool" where
  "keeps s s' \<longleftrightarrow>
     server_ok s' \<and> (\<forall>r. conns (net s) r \<noteq> None \<longrightarrow> conns (net s') r = conns (net s) r) \<and>
     s_state s' = s_state s"

text \<open>
  What \<open>epoll_wait\<close> delivers in one round: at most one event for each incoming connection, and
  only for connections that are open when the round starts.
\<close>

fun event_conn :: "event \<Rightarrow> nat list" where
  "event_conn (Conn_Event (In p) failed events) = [p]"
| "event_conn _ = []"

definition deliverable :: "event list \<Rightarrow> server \<Rightarrow> bool" where
  "deliverable events s \<longleftrightarrow>
     distinct (concat (map event_conn events)) \<and>
     (\<forall>p \<in> set (concat (map event_conn events)). conns (net s) (In p) \<noteq> None)"

text \<open>
  At every event of a round a server whose log is still empty is a follower. The timer of such a
  server is not yet armed and its peers send it no empty log, so it starts no election.
\<close>

fun initialised :: "os \<Rightarrow> event list \<Rightarrow> server \<Rightarrow> bool" where
  "initialised os [] s = True"
| "initialised os (e # es) s =
     ((l_index (cur_log s) = 0 \<longrightarrow> s_state s = SERVER_STATE_FOLLOWER) \<and> initialised os es (process_event os e s))"

inductive running :: "server \<Rightarrow> bool" where
  start: "running (must_server_init s)"
| round: "running s \<Longrightarrow> \<not> halted s \<Longrightarrow> deliverable events s \<Longrightarrow> initialised os events s \<Longrightarrow>
    running (server_round os events s)"

text \<open>A start state, an operating system that grants everything, and the server after one accepted connection.\<close>

definition example_conn :: raft_conn where
  "example_conn = \<lparr>rc_log = 0, unio = 0, fd = 0, admin = False, rc_state = RAFT_CONN_STATE_NOT_CONNECTED,
     buffer = replicate 80 0, rx = [], authority_pending_nr = 0, authority_processing_nr = 0, authority_succeed_nr = 0\<rparr>"

definition example_os :: os where
  "example_os = \<lparr>os_io = (\<lambda>_. Again), os_drain = (\<lambda>_. []), os_mem = (\<lambda>_. True), os_log = (\<lambda>_. (\<lambda>_. None)),
     os_conn = (\<lambda>_. example_conn), os_connect = (\<lambda>_. (Refused, 0)), os_round = (\<lambda>_ _. 0), os_warm = (\<lambda>_. True)\<rparr>"

definition example_start :: server where
  "example_start = \<lparr>net = \<lparr>logs = Map.empty, conns = Map.empty, authority = [], calls = 0, next_addr = 0, sent = [], closed = []\<rparr>,
     s_id = 0, s_term = 0, timer_ticks = 0, s_state = SERVER_STATE_FOLLOWER, replicate_entry_round = 0,
     commit_entry_required_old_votes = 0, commit_entry_required_new_votes = 0, entry_commited = False,
     replicate_entry_wanted = False, leader_available = False, required_old_votes = 0, required_new_votes = 0,
     voted_for = 0, follower_leader = 0, s_log = 0, stale_cluster = [], s_cluster = None, clusters = Map.empty,
     dispatched = [], halted = False\<rparr>"

definition example_server :: server where
  "example_server = server_round example_os [Accept_Event True 5] (must_server_init example_start)"

section \<open>Completing a log keeps its reference count\<close>

lemma ring_upgrade_refcount: "refcount (fst (snd (ring_upgrade ch av log olds news u))) = refcount log"
  by (induction ch av log olds news u rule: ring_upgrade.induct)
    (simp_all add: log_machine_reset_version_def Let_def split_beta)

lemma log_machine_init_refcount: "refcount (fst (log_machine_init log m)) = refcount log"
  by (simp add: log_machine_init_def log_machine_set_id_def log_machine_reset_version_def)

lemma init_machines_refcount: "refcount (fst (init_machines log ms)) = refcount log"
  by (induction ms arbitrary: log) (simp_all add: split_beta log_machine_init_refcount)

lemma adjust_match_refcount: "refcount (fst (adjust_match S log olds news k n)) = refcount log"
proof (induction olds arbitrary: log news k n)
  case (Cons old olds)
  then show ?case
    by (cases news) (simp_all add: Let_def split_beta log_machine_init_refcount split: option.split)
qed simp

lemma reset_versions_refcount: "refcount (fst (reset_versions log ms k)) = refcount log"
proof (induction ms arbitrary: log k)
  case Nil
  then show ?case by (cases k) simp_all
next
  case (Cons m ms)
  then show ?case by (cases k) (simp_all add: split_beta log_machine_reset_version_def)
qed

lemmas refcounts = ring_upgrade_refcount init_machines_refcount adjust_match_refcount reset_versions_refcount

lemma unstable_refcount [simp]: "refcount (log_complete_unstable log old trm) = refcount log"
  by (simp add: log_complete_unstable_def)

lemma log_complete_init_refcount: "refcount (snd (log_complete_init log)) = refcount log"
  by (simp add: log_complete_init_def Let_def split_beta refcounts)

lemma log_complete_change_refcount:
  assumes "log_complete_change log old trm = Accept log'"
  shows "refcount log' = refcount log"
  using assms
  by (auto simp: log_complete_change_def log_complete_adjust_def log_complete_shrink_def log_complete_grow_def Let_def
      split_beta refcounts split: if_splits option.splits)

lemma log_complete_change_available_refcount:
  assumes "log_complete_change_available log old trm = Accept log'"
  shows "refcount log' = refcount log"
  using assms by (auto simp: log_complete_change_available_def Let_def split_beta refcounts split: option.splits)

lemma log_malloc_change_available_refcount:
  "log_malloc_change_available alloc cl old trm = Some (Accept m) \<Longrightarrow> refcount m = 0"
  by (auto simp: log_malloc_change_available_def Let_def
      dest!: log_complete_change_available_refcount dest: log_malloc_refcount(3))

lemma next_log_refcount: "next_log alloc log trm = Some m \<Longrightarrow> refcount m = 0"
  by (auto simp: next_log_def log_malloc_grow_complete_def Let_def split_beta refcounts split: if_splits
      dest: log_malloc_refcount(3,4))

section \<open>New logs and new clusters\<close>

lemma server_okZ_empty: "server_okZ {} s \<longleftrightarrow> server_ok s"
  by (simp add: server_okZ_def server_ok_def)

lemma new_log_ok:
  assumes s: "server_ok s" and m: "refcount m = 0" and w: "new_log (net s) (Some m) = (Some a, w)"
  shows "server_okZ {a} (s\<lparr>net := w\<rparr>)" "conns w = conns (net s)" "logs w a = Some m" "a \<noteq> s_log s"
proof -
  have w': "a = next_addr (net s)" "w = (net s)\<lparr>calls := calls (net s) + 1, next_addr := next_addr (net s) + 1,
      logs := (logs (net s))(next_addr (net s) \<mapsto> m)\<rparr>"
    using w by (auto simp: new_log_def)
  note ok = server_okD(1) [OF s]
  have n: "logs (net s) a = None" using ok by (simp add: world_ok_def w')
  then have "refs (own (s_log s)) {a} ((logs (net s))(a \<mapsto> m)) (conns (net s))"
    using refs_new [of "own (s_log s)" "{}" "logs (net s)" "conns (net s)" a m] ok m by (simp add: world_ok_def)
  moreover have "clusters_ok {} (s\<lparr>net := w\<rparr>)"
    by (rule clusters_ok_same [OF server_okD(2) [OF s]]) (simp_all add: w'(2))
  ultimately show "server_okZ {a} (s\<lparr>net := w\<rparr>)"
    using ok by (auto simp: server_okZ_def world_ok_def w')
  show "conns w = conns (net s)" "logs w a = Some m" by (simp_all add: w')
  obtain m' where "logs (net s) (s_log s) = Some m'" using ok by (auto simp: world_ok_def elim: own_log)
  with n show "a \<noteq> s_log s" by auto
qed

text \<open>Connections of members that are not yet connected.\<close>

lemma new_conns_ok:
  assumes w: "world_ok ext Z w" and st: "rc_state c0 = RAFT_CONN_STATE_NOT_CONNECTED" and fin: "finite (dom C)" and n: "next_addr w \<le> n"
    and C: "\<And>r. C r = conns w r \<or> C r = Some c0 \<and> conns w r = None \<and> outgoing_ref r"
    and v: "conns v = C" "logs v = logs w" "authority v = authority w" "next_addr v = n"
  shows "world_ok ext Z v"
proof -
  have "lent (C r) = lent (conns w r)" for r
    using C [of r] st by (auto simp: lent_Some)
  then have "refs ext Z (logs w) C"
    using w fin by (simp add: world_ok_def refs_def holders_def)
  moreover have "conn_ok (authority w) r d" if d: "C r = Some d" for r d
  proof (cases "conns w r")
    case None
    then have "d = c0" "r \<notin> set (authority w)" "outgoing_ref r"
      using C [of r] d w by (auto simp: world_ok_def)
    then show ?thesis using st by (simp add: conn_ok_def)
  next
    case (Some d')
    then show ?thesis using C [of r] d w by (simp add: world_ok_def)
  qed
  moreover have "C r \<noteq> None" if "r \<in> set (authority w)" for r
    using that w C [of r] by (auto simp: world_ok_def)
  moreover have "C (In p) = None" if "n \<le> p" for p
  proof -
    have "conns w (In p) = None" using w n that by (simp add: world_ok_def)
    then show ?thesis using C [of "In p"] by simp
  qed
  moreover have "distinct (authority w)" "\<And>a. n \<le> a \<Longrightarrow> logs w a = None"
    using w n by (simp_all add: world_ok_def)
  ultimately show ?thesis unfolding world_ok_def v by blast
qed

lemma finite_outs: "finite {r. \<exists>i. r = Out k i \<and> i < n}"
  by (rule finite_subset [of _ "Out k ` {..<n}"]) auto

text \<open>The new cluster has its connections, and is not yet in place.\<close>

lemma new_cluster_ok:
  assumes s: "server_okZ Z s" and e: "new_cluster os s log l = (x, s')"
  shows "x = None \<Longrightarrow> server_okZ Z s' \<and> net s' = (net s)\<lparr>calls := calls (net s) + 1\<rparr>"
    and "x = Some k \<Longrightarrow> world_ok (own (s_log s)) Z (net s') \<and> clusters_ok {k} s'"
    and "\<And>p. conns (net s') (In p) = conns (net s) (In p)" "logs (net s') = logs (net s)" "s_log s' = s_log s"
    and "s_state s' = s_state s" "s_cluster s' = s_cluster s" "stale_cluster s' = stale_cluster s" "s_id s' = s_id s"
    and "s_term s' = s_term s" "\<And>r. conns (net s) r \<noteq> None \<Longrightarrow> conns (net s') r = conns (net s) r"
    and "authority (net s') = authority (net s)"
proof -
  note w = s [unfolded server_okZ_def, THEN conjunct1] and cl = s [unfolded server_okZ_def, THEN conjunct2]
  let ?k = "next_addr (net s)" and ?b = "if os_mem os (calls (net s)) then Some (os_round os (calls (net s))) else None"
  have fresh: "clusters s ?k = None" using cl by (simp add: clusters_ok_def)
  have "conns (net s) (Out ?k i) = None" for i
  proof -
    have "conns (net s) (Out ?k i) \<noteq> None \<longleftrightarrow> (\<exists>cl. clusters s ?k = Some cl \<and> i < unat (members_n cl))"
      using cl by (simp add: clusters_ok_def)
    with fresh show ?thesis by simp
  qed
  note fresh = fresh this
  have "clusters_ok {} (s\<lparr>net := (net s)\<lparr>calls := n\<rparr>\<rparr>)" for n
    by (rule clusters_ok_same [OF cl]) simp_all
  then show "x = None \<Longrightarrow> server_okZ Z s' \<and> net s' = (net s)\<lparr>calls := calls (net s) + 1\<rparr>"
    using e w by (auto simp: new_cluster_def Let_def server_okZ_def split: option.splits)
  show "conns (net s') (In p) = conns (net s) (In p)" "logs (net s') = logs (net s)" "s_log s' = s_log s"
    "s_state s' = s_state s" "s_cluster s' = s_cluster s" "stale_cluster s' = stale_cluster s" "s_id s' = s_id s"
    "s_term s' = s_term s" "authority (net s') = authority (net s)" for p
    using e by (auto simp: new_cluster_def Let_def split: option.splits)
  show "conns (net s) r \<noteq> None \<Longrightarrow> conns (net s') r = conns (net s) r" for r
    using e fresh(2) by (auto simp: new_cluster_def Let_def split: option.splits conn_ref.splits)
  assume x: "x = Some k"
  define c0 where "c0 = raft_out_conn_init (os_conn os (calls (net s)))"
  obtain c where c: "cluster_malloc ?b log l = Some c" "k = ?k"
    and s': "conns (net s') = (\<lambda>r. case r of Out k' i \<Rightarrow> if k' = k \<and> i < unat (members_n c) then Some c0 else conns (net s) r
      | In p \<Rightarrow> conns (net s) r)" "clusters s' = (clusters s)(k \<mapsto> c)" "next_addr (net s') = k + 1"
    "logs (net s') = logs (net s)" "authority (net s') = authority (net s)" "stale_cluster s' = stale_cluster s"
    "s_cluster s' = s_cluster s" "s_state s' = s_state s"
    using e x unfolding c0_def by (auto simp: new_cluster_def Let_def split: option.splits)
  have st: "rc_state c0 = RAFT_CONN_STATE_NOT_CONNECTED" by (simp add: c0_def raft_out_conn_init_def)
  have other: "conns (net s') r = conns (net s) r \<or> conns (net s') r = Some c0 \<and> conns (net s) r = None \<and> outgoing_ref r" for r
    using fresh(2) c(2) by (cases r) (simp_all add: s'(1))
  have fin: "finite (dom (conns (net s')))"
  proof (rule finite_subset)
    show "dom (conns (net s')) \<subseteq> dom (conns (net s)) \<union> {r. \<exists>i. r = Out k i \<and> i < unat (members_n c)}"
    proof
      fix r assume "r \<in> dom (conns (net s'))"
      then show "r \<in> dom (conns (net s)) \<union> {r. \<exists>i. r = Out k i \<and> i < unat (members_n c)}"
        by (cases r) (auto simp: s'(1) split: if_splits)
    qed
    show "finite (dom (conns (net s)) \<union> {r. \<exists>i. r = Out k i \<and> i < unat (members_n c)})"
      using w finite_outs by (auto simp: world_ok_def refs_def)
  qed
  have "world_ok (own (s_log s)) Z (net s')"
    by (rule new_conns_ok [OF w st fin _ other]) (use c(2) s' in simp_all)
  moreover have "clusters_ok {k} s'"
  proof -
    have "conns (net s') (Out k' i) \<noteq> None \<longleftrightarrow> (\<exists>cl. clusters s' k' = Some cl \<and> i < unat (members_n cl))" for k' i
    proof (cases "k' = k")
      case True
      then show ?thesis using fresh(2) [of i] c(2) by (simp add: s')
    next
      case False
      then have "conns (net s') (Out k' i) = conns (net s) (Out k' i)" "clusters s' k' = clusters s k'"
        by (simp_all add: s')
      then show ?thesis using cl by (simp add: clusters_ok_def)
    qed
    moreover have "k \<notin> set (stale_cluster s) \<union> set_option (s_cluster s)"
      using cl fresh(1) c(2) unfolding clusters_ok_def by blast
    ultimately show ?thesis
      using cl c(2) unfolding clusters_ok_def s'(2,3,6-8) by auto
  qed
  ultimately show "world_ok (own (s_log s)) Z (net s') \<and> clusters_ok {k} s'" by blast
qed

text \<open>Putting the new cluster in place of the current one, or where there was none.\<close>

lemma place_cluster:
  assumes "clusters_ok {k} s"
  shows "s_cluster s = Some k' \<Longrightarrow> clusters_ok {} (server_replace_cluster s (Some k))"
    and "s_cluster s = None \<Longrightarrow> st \<noteq> SERVER_STATE_FOLLOWER \<Longrightarrow> clusters_ok {} (s\<lparr>s_state := st, s_cluster := Some k\<rparr>)"
  using assms by (auto simp: clusters_ok_def server_replace_cluster_def)

lemma replace_log_net [simp]:
  "conns (net (server_replace_log s a)) = conns (net s)" "s_state (server_replace_log s a) = s_state s"
  "s_cluster (server_replace_log s a) = s_cluster s" "s_log (server_replace_log s a) = a"
  "net (server_replace_log s a) = borrow_log (return_log (net s) (s_log s)) a" "same_roles s (server_replace_log s a)"
  "clusters (server_replace_log s a) = clusters s"
  by (simp_all add: server_replace_log_def server_borrow_log_def same_roles_def)

lemma replace_clusters_ok: "clusters_ok K s \<Longrightarrow> clusters_ok K (server_replace_log s a)"
  by (rule clusters_ok_same) simp_all

lemma leader_replace_log_ok:
  assumes s: "server_okZ Z s" and st: "s_state s \<noteq> SERVER_STATE_FOLLOWER"
    and a: "a \<noteq> s_log s \<and> logs (net s) a = Some m \<or> lent (conns (net s) r) = Some a"
    and e: "leader_replace_log os s a = (b, s')"
  shows "b \<Longrightarrow> server_okZ (Z - {a}) s'"
    and "\<not> b \<Longrightarrow> server_okZ Z s' \<and> net s' = (net s)\<lparr>calls := calls (net s) + 1\<rparr> \<and> s_log s' = s_log s"
    and "conns (net s) r' \<noteq> None \<Longrightarrow> conns (net s') r' = conns (net s) r'" "s_state s' = s_state s"
proof -
  obtain x s1 where e1: "new_cluster os s (log_of (net s) a) (s_id s) = (x, s1)" by force
  note n = new_cluster_ok [OF s e1]
  obtain k0 where k0: "s_cluster s = Some k0" using s st by (auto simp: server_okZ_def clusters_ok_def)
  show "\<not> b \<Longrightarrow> server_okZ Z s' \<and> net s' = (net s)\<lparr>calls := calls (net s) + 1\<rparr> \<and> s_log s' = s_log s"
    using e n(1,5) by (cases x) (auto simp: leader_replace_log_def e1 Let_def)
  show "conns (net s) r' \<noteq> None \<Longrightarrow> conns (net s') r' = conns (net s) r'" "s_state s' = s_state s"
    using e n(6) n(11) [of r'] by (cases x; auto simp: leader_replace_log_def e1 Let_def server_replace_cluster_def)+
  assume b
  then obtain k where k: "x = Some k" and s': "s' = (server_replace_cluster (server_replace_log s1 a) (Some k))
      \<lparr>entry_commited := True, replicate_entry_wanted := True\<rparr>"
    using e by (cases x) (auto simp: leader_replace_log_def e1 Let_def)
  have "lent (conns (net s1) r) = Some a" if "lent (conns (net s) r) = Some a"
    using that n(11) [of r] by (cases "conns (net s) r") auto
  then have "a \<noteq> s_log s1 \<and> logs (net s1) a = Some m \<or> lent (conns (net s1) r) = Some a"
    using a n(4,5) by auto
  moreover have "world_ok (own (s_log s1)) Z (net s1)" "clusters_ok {k} s1" using n(2,5) k by auto
  ultimately have "world_ok (own a) (Z - {a}) (net s')" "clusters_ok {k} (server_replace_log s1 a)"
    using replace_log_ok [of "s_log s1" Z "net s1" a m r] replace_clusters_ok
    by (auto simp: s' server_replace_cluster_def)
  moreover from this(2) have "clusters_ok {} (server_replace_cluster (server_replace_log s1 a) (Some k))"
    by (rule place_cluster(1)) (use k0 n(7) in simp)
  then have "clusters_ok {} s'" by (simp add: s' clusters_ok_def)
  ultimately show "server_okZ (Z - {a}) s'"
    by (simp add: server_okZ_def s' server_replace_cluster_def)
qed

text \<open>The server's own new log in place of its log.\<close>

lemma replace_new_ok:
  assumes s: "server_okZ Z s" and a: "a \<noteq> s_log s" "logs (net s) a = Some m"
  shows "server_okZ (Z - {a}) (server_replace_log s a)"
  using replace_log_ok [of "s_log s" Z "net s" a m] replace_clusters_ok [of "{}" s a] assms
  by (auto simp: server_okZ_def)

lemma server_okZ_net: "server_okZ Z (s\<lparr>halted := h\<rparr>) = server_okZ Z s"
  by (simp add: server_okZ_def clusters_ok_def)

lemma drop_log_ok:
  assumes s: "server_okZ {a} s" and a: "logs (net s) a = Some m" "refcount m = 0"
  shows "server_ok (s\<lparr>net := (net s)\<lparr>logs := (logs (net s))(a := None)\<rparr>\<rparr>)"
proof -
  have w: "world_ok (own (s_log s)) {a} (net s)" using s by (simp add: server_okZ_def)
  have "refs (own (s_log s)) ({a} - {a}) ((logs (net s))(a := None)) (conns (net s))"
    by (rule refs_unused) (use w a in \<open>simp_all add: world_ok_def\<close>)
  moreover have "clusters_ok {} (s\<lparr>net := (net s)\<lparr>logs := (logs (net s))(a := None)\<rparr>\<rparr>)"
    by (rule clusters_ok_same [of _ s]) (use s in \<open>simp_all add: server_okZ_def\<close>)
  ultimately show ?thesis using w by (auto simp: server_ok_def world_ok_def)
qed

section \<open>Committing\<close>

lemma keeps_refl: "server_ok s \<Longrightarrow> keeps s s"
  by (simp add: keeps_def)

lemma keeps_trans: "keeps s s' \<Longrightarrow> keeps s' s'' \<Longrightarrow> keeps s s''"
  by (auto simp: keeps_def)

lemma keeps_srv: "keeps s s' \<Longrightarrow> srv_step r s s'"
  by (auto simp: keeps_def srv_step_def)

lemma keeps_member:
  assumes "server_ok s" "conns (net s) r \<noteq> None"
  shows "keeps s (upd_member s r f)"
  using upd_member_same [OF assms(2) server_okD(2) [OF assms(1)]] assms(1)
  by (simp add: keeps_def server_ok_def)

text \<open>A new log that replaces the server's, with or without a new cluster, or is freed.\<close>

lemma new_then_replace:
  assumes s: "server_ok s" and m: "refcount m = 0" and e: "new_log (net s) (Some m) = (Some a, w)"
  shows "keeps s (server_replace_log (s\<lparr>net := w\<rparr>) a)"
proof -
  note n = new_log_ok [OF s m e]
  have "server_okZ ({a} - {a}) (server_replace_log (s\<lparr>net := w\<rparr>) a)"
    by (rule replace_new_ok [OF n(1)]) (use n in simp_all)
  then show ?thesis using n by (simp add: keeps_def server_okZ_empty)
qed

lemma new_then_cluster:
  assumes s: "server_ok s" and m: "refcount m = 0" and e: "new_log (net s) (Some m) = (Some a, w)"
    and st: "s_state s \<noteq> SERVER_STATE_FOLLOWER" and l: "leader_replace_log os (s\<lparr>net := w\<rparr>) a = (ok, s')"
  shows "keeps s (if ok then s' else s'\<lparr>net := (net s')\<lparr>logs := (logs (net s'))(a := None)\<rparr>\<rparr>)"
proof -
  note n = new_log_ok [OF s m e]
  have "a \<noteq> s_log (s\<lparr>net := w\<rparr>) \<and> logs (net (s\<lparr>net := w\<rparr>)) a = Some m \<or> lent (conns (net (s\<lparr>net := w\<rparr>)) r) = Some a" for r
    using n by simp
  note r = leader_replace_log_ok [OF n(1) _ this l]
  have k: "conns (net s') r = conns (net s) r" if "conns (net s) r \<noteq> None" for r
    using r(3) [of r] n(2) st that by simp
  have s': "s_state s' = s_state s" using r(4) st by simp
  show ?thesis
  proof (cases ok)
    case True
    then show ?thesis using r(1) st k s' by (simp add: keeps_def server_okZ_empty)
  next
    case False
    then have "server_okZ {a} s'" "logs (net s') a = Some m" using r(2) st n(3) by simp_all
    then show ?thesis using False drop_log_ok [of a s' m] m k s' by (simp add: keeps_def)
  qed
qed

lemma member_commited_log_ok:
  assumes s: "server_ok s" and r: "conns (net s) r \<noteq> None" and st: "s_state s \<noteq> SERVER_STATE_FOLLOWER"
  shows "keeps s (snd (member_commited_log os s r))"
proof -
  define s1 where "s1 = upd_member s r (\<lambda>m. m\<lparr>match_index := next_index m - 1\<rparr>)"
  have k: "keeps s s1" unfolding s1_def by (rule keeps_member [OF s r])
  then have s1: "server_ok s1" "s_state s1 \<noteq> SERVER_STATE_FOLLOWER" using st by (simp_all add: keeps_def)
  have h: "keeps s1 (s1\<lparr>halted := True\<rparr>)" using s1 by (simp add: keeps_def)
  obtain x w where x: "new_log (net s1) (next_log (os_log os (calls (net s1))) (cur_log s1) (s_term s1)) = (x, w)" by force
  have "keeps s1 (snd (case (x, w) of
                (None, w) \<Rightarrow> (False, s1\<lparr>net := w\<rparr>)
              | (Some a, w) \<Rightarrow>
                  if l_type (cur_log s1) AND LOG_TYPE_JOINT_MASK = 0 then (True, server_replace_log (s1\<lparr>net := w\<rparr>) a)
                     else
                       let (ok, s) = leader_replace_log os (s1\<lparr>net := w\<rparr>) a
                       in if ok then (True, s)
                          else (False, s\<lparr>net := (net s)\<lparr>logs := (logs (net s))(a := None)\<rparr>\<rparr>)))"
  proof (cases "next_log (os_log os (calls (net s1))) (cur_log s1) (s_term s1)")
    case None
    then show ?thesis using x s1 by (auto simp: keeps_def)
  next
    case (Some m)
    then obtain a where a: "new_log (net s1) (Some m) = (Some a, w)" "x = Some a" using x new_log_Some_iff by fastforce
    obtain ok s' where l: "leader_replace_log os (s1\<lparr>net := w\<rparr>) a = (ok, s')" by force
    show ?thesis
      using new_then_replace [OF s1(1) next_log_refcount [OF Some] a(1)]
        new_then_cluster [OF s1(1) next_log_refcount [OF Some] a(1) s1(2) l] a(2)
      by (auto simp: l split: if_splits)
  qed
  then show ?thesis
    using k keeps_trans [OF k] h keeps_refl [OF s] x
    unfolding member_commited_log_def Let_def s1_def [symmetric] by simp
qed

lemma leader_change_available_ok:
  assumes s: "server_ok s"
  shows "keeps s (snd (leader_change_available os s))"
proof (cases "log_malloc_change_available (os_log os (calls (net s))) (cur_cluster s) (cur_log s) (s_term s)")
  case None
  then show ?thesis using s by (simp add: leader_change_available_def keeps_def)
next
  case (Some o')
  show ?thesis
  proof (cases o')
    case (Accept m)
    obtain a w where a: "new_log (net s) (Some m) = (Some a, w)"
      by (cases "new_log (net s) (Some m)") (auto dest: new_log_Some_iff)
    have "keeps s (server_replace_log (s\<lparr>net := w\<rparr>) a)"
      by (rule new_then_replace [OF s _ a]) (use Some Accept in \<open>auto intro: log_malloc_change_available_refcount\<close>)
    then show ?thesis by (simp add: leader_change_available_def Some Accept a Let_def keeps_def)
  qed (use Some s in \<open>simp_all add: leader_change_available_def keeps_def\<close>)
qed

lemma keeps_idle:
  assumes k: "keeps s s'" and r: "conns (net s) r = Some c" "\<not> st_log (rc_state c)" "\<not> st_auth (rc_state c)"
  shows "idle s' r"
  by (rule idleI [of s' r c]) (use k r in \<open>simp_all add: keeps_def\<close>)

lemma state_append_entry_in_ok:
  assumes s: "server_ok s" and c: "conns (net s) r = Some c"
    and st: "rc_state c = RAFT_CONN_STATE_APPEND_LOG_IN \<or> rc_state c = RAFT_CONN_STATE_HEARTBEAT_IN"
    and r: "outgoing_ref r" and f: "s_state s \<noteq> SERVER_STATE_FOLLOWER"
  shows "srv_step r s (state_append_entry_in os s r)"
proof (cases "raft_conn_full_read_to_buffer os (net s) r False APPEND_ENTRY_RES_SIZE")
  case (Pair ok w)
  have "False \<longleftrightarrow> \<not> outgoing_ref r" using r by simp
  note read = read_buffer_ok [OF s c Pair this]
  show ?thesis
  proof (cases ok)
    case False
    then show ?thesis using read(1) by (simp add: state_append_entry_in_def Pair)
  next
    case True
    from read(2) [OF True] obtain c1 where c1: "conns w r = Some c1" "rc_state c1 = rc_state c" by blast
    let ?res = "get_append_entry_res (buffer (conn_of w r))"
    define s2 where "s2 = s\<lparr>net := w, net := upd_conn w r raft_conn_change_to_ready_for_use\<rparr>"
    have "srv_step r (s\<lparr>net := w\<rparr>) s2"
      using ready_ok(1) [OF srv_ok [OF read(1)], of r c1] c1 st r by (auto simp: s2_def)
    with read(1) have s2: "srv_step r s s2" by (rule srv_trans)
    have c2: "conns (net s2) r = Some (raft_conn_change_to_ready_for_use c1)" and f2: "s_state s2 \<noteq> SERVER_STATE_FOLLOWER"
      using c1 f by (simp_all add: s2_def conn_of_def)
    define s3 where "s3 = upd_member s2 r (\<lambda>m. m\<lparr>responded_append_entry := True\<rparr>)"
    define s4 where "s4 = (if rc_state (conn_of w r) = RAFT_CONN_STATE_APPEND_LOG_IN
        then upd_member s3 r (\<lambda>m. m\<lparr>next_index := next_index m + 1\<rparr>) else s3)"
    have k3: "keeps s2 s3" unfolding s3_def by (rule keeps_member [OF srv_ok [OF s2]]) (simp add: c2)
    have "keeps s3 s4"
      unfolding s4_def using keeps_member [of s3 r] keeps_refl [of s3] k3 c2 by (simp add: keeps_def)
    with k3 have k4: "keeps s2 s4" by (rule keeps_trans)
    obtain kept s5 where e5: "(if ae_applied ?res then member_commited_log os s4 r else (True, s4)) = (kept, s5)" by force
    have "keeps s4 s5"
      using member_commited_log_ok [of s4 r os] keeps_refl [of s4] k4 c2 f2 e5
      by (auto simp: keeps_def split: if_splits)
    with k4 have k5: "keeps s2 s5" by (rule keeps_trans)
    note i = keeps_idle [OF k5 c2]
    have "srv_step r s5 (convert_to_follower s5)" "srv_step r s5 (change_to_append_entry_out os s5 r)"
      "srv_step r s5 (s5\<lparr>commit_entry_required_old_votes := x, commit_entry_required_new_votes := y\<rparr>)" for x y
      using convert_to_follower_ok [of s5] k5 f2 change_to_append_entry_out_ok [OF i r]
      by (simp_all add: keeps_def srv_step_def raft_conn_change_to_ready_for_use_def)
    note rest = this [THEN srv_trans [OF srv_trans [OF s2 keeps_srv [OF k5]]]]
    have trm: "srv_step r s (server_increase_term s2 t)" for t
      using increase_term_ok [OF srv_ok [OF s2]] s2 by (simp add: srv_step_def)
    show ?thesis
      unfolding state_append_entry_in_def Pair Let_def prod.case s2_def [symmetric] s3_def [symmetric] s4_def [symmetric] e5
      using True trm rest by simp
  qed
qed

section \<open>Changing the cluster\<close>

lemma change_to_change_cluster_out_ok:
  assumes s: "server_ok s" and c: "conns (net s) r = Some c" "st_log (rc_state c)" and r: "\<not> outgoing_ref r"
  shows "srv_step r s (s\<lparr>net := change_to_change_cluster_out os (net s) r\<rparr>)"
proof -
  let ?s = "s\<lparr>net := raft_conn_return_log (net s) r\<rparr>"
  note i = returned_idle [OF s c]
  have a: "around (own (s_log s)) {} r (net ?s)" and n: "r \<notin> set (authority (net ?s))" using i(1) by (simp_all add: idle_def)
  obtain c' where c': "conns (net ?s) r = Some c'" using i(1) by (auto simp: idle_def)
  have "local_step (own (s_log s)) {} r (net ?s) (change_to_change_cluster_out os (net s) r)"
    unfolding change_to_change_cluster_out_def Let_def
    using respond_ok [OF a c', where out = "\<lambda>w. state_change_cluster_out os w r" and ST = RAFT_CONN_STATE_CHANGE_CLUSTER_OUT
        and g = "\<lambda>c. c\<lparr>rc_state := RAFT_CONN_STATE_CHANGE_CLUSTER_OUT\<rparr>"] r n change_cluster_out_state by simp
  then show ?thesis using i(2) idle_net [OF i(1)] by simp
qed

lemma set_log_ok:
  assumes "server_ok s" "refcount m = refcount (log_of (net s) a)" "logs (net s) a \<noteq> None"
  shows "keeps s (set_log s a m)"
  using log_content_ok [OF assms] by (simp add: keeps_def set_log_def)

lemma set_log_simps [simp]:
  "conns (net (set_log s a m)) = conns (net s)" "s_state (set_log s a m) = s_state s" "s_term (set_log s a m) = s_term s"
  "logs (net (set_log s a m)) = (logs (net s))(a \<mapsto> m)" "s_cluster (set_log s a m) = s_cluster s"
  "s_log (set_log s a m) = s_log s" "log_of (net (set_log s a m)) b = (if b = a then m else log_of (net s) b)"
  "set_log (set_log s a m) a m' = set_log s a m'"
  by (simp_all add: set_log_def log_of_def)

text \<open>The first cluster of a server, which takes the log of the connection.\<close>

lemma first_cluster_ok:
  assumes s: "server_ok s" and c: "conns (net s) r = Some c" "st_log (rc_state c)" and st: "s_state s = SERVER_STATE_FOLLOWER"
    and e: "new_cluster os s log l = (Some k, s1)"
    and s2: "net s2 = net s1" "s_log s2 = s_log s1" "clusters s2 = clusters s1" "stale_cluster s2 = stale_cluster s1"
      "s_cluster s2 = Some k" "s_state s2 = SERVER_STATE_LEADER"
  shows "server_ok (server_replace_log s2 (rc_log c))"
    "\<And>r'. conns (net s) r' \<noteq> None \<Longrightarrow> conns (net (server_replace_log s2 (rc_log c))) r' = conns (net s) r'"
proof -
  have z: "server_okZ {} s" using s by (simp add: server_okZ_empty)
  note n = new_cluster_ok [OF z e]
  have "s_cluster s1 = None" using s st n(7) by (simp add: server_ok_def clusters_ok_def)
  then have "clusters_ok {} (s1\<lparr>s_state := SERVER_STATE_LEADER, s_cluster := Some k\<rparr>)"
    using place_cluster(2) [of k s1] n(2) by simp
  then have "clusters_ok {} s2" by (simp add: clusters_ok_def s2)
  then have ok2: "server_ok s2" using n(2,5) by (simp add: server_ok_def s2)
  have c2: "conns (net s2) r = Some c" using n(11) [of r] c by (simp add: s2)
  show "server_ok (server_replace_log s2 (rc_log c))" by (rule server_replace_log_ok(1) [OF ok2 c2 c(2)])
  show "conns (net (server_replace_log s2 (rc_log c))) r' = conns (net s) r'" if "conns (net s) r' \<noteq> None" for r'
    using n(11) [OF that] by (simp add: s2)
qed

lemma change_out_from:
  assumes w: "srv_step r s (s\<lparr>net := w\<rparr>)" and c: "conns w r = Some c" "st_log (rc_state c)" and r: "\<not> outgoing_ref r"
    and s': "server_ok s'" "\<And>r'. conns w r' \<noteq> None \<Longrightarrow> conns (net s') r' = conns w r'"
  shows "srv_step r s (s'\<lparr>net := change_to_change_cluster_out os (net s') r\<rparr>)"
proof -
  have "srv_step r s' (s'\<lparr>net := change_to_change_cluster_out os (net s') r\<rparr>)"
    by (rule change_to_change_cluster_out_ok [of s' r c]) (use s' c r in simp_all)
  moreover have "srv_step r (s\<lparr>net := w\<rparr>) s'" using s' by (simp add: srv_step_def)
  ultimately show ?thesis using w srv_trans by blast
qed

lemma state_init_cluster_in_ok:
  assumes s: "server_ok s" and c: "conns (net s) r = Some c" "rc_state c = RAFT_CONN_STATE_INIT_CLUSTER_IN" and r: "\<not> outgoing_ref r"
    and init: "l_index (cur_log s) = 0 \<Longrightarrow> s_state s = SERVER_STATE_FOLLOWER"
  shows "srv_step r s (state_init_cluster_in os s r)"
proof (cases "raft_conn_full_read os (net s) r True to_machines")
  case (Pair ok w)
  note read = read_machines_ok [OF s c(1) Pair r]
  show ?thesis
  proof (cases ok)
    case False
    then show ?thesis using read(1) by (simp add: state_init_cluster_in_def Pair)
  next
    case True
    from read(2) [OF True] obtain c' where c': "conns w r = Some c'" "st_log (rc_state c')" using c by auto
    let ?s = "s\<lparr>net := w\<rparr>" and ?a = "rc_log (conn_of w r)"
    have ca: "conn_of w r = c'" using c' by (simp add: conn_of_def)
    define log0 where "log0 = (log_of w ?a)\<lparr>l_machines := machines_of_bytes (unat (old_n (log_of w ?a))) (rx (conn_of w r))\<rparr>"
    obtain acc log1 where l1: "log_complete_init log0 = (acc, log1)" by force
    have ref: "refcount log0 = refcount (log_of w ?a)" "refcount log1 = refcount (log_of w ?a)"
      using log_complete_init_refcount [of log0] l1 by (simp_all add: log0_def)
    have held: "logs (net ?s) ?a \<noteq> None" using held_log [OF srv_ok [OF read(1)], of r c'] c' by (simp add: ca)
    have k: "server_ok (set_log ?s ?a log0)" "server_ok (set_log ?s ?a log1)"
      using set_log_ok [OF srv_ok [OF read(1)] _ held] ref by (simp_all add: keeps_def)
    note out = change_out_from [OF read(1) c' r, of _ os]
    have idx: "l_index (cur_log (set_log ?s ?a log0)) = l_index (cur_log s)"
      using read(3) [OF True] by (auto simp: cur_log_def log0_def) (simp add: log_of_def)+
    obtain x s1 where n: "new_cluster os (set_log ?s ?a log1) log1 1 = (x, s1)" by force
    have z: "server_okZ {} (set_log ?s ?a log1)" using k(2) by (simp add: server_okZ_empty)
    have none: "srv_step r s (s1\<lparr>halted := True\<rparr>)" if "x = None"
      using new_cluster_ok(1) [OF z n that] srv_trans [OF read(1), of "s1\<lparr>halted := True\<rparr>"]
      by (simp add: srv_step_def server_okZ_empty)
    have first: "srv_step r s (s3\<lparr>net := change_to_change_cluster_out os (net s3) r\<rparr>)"
      if "x = Some k" "l_index (cur_log s) = 0" "s3 = server_replace_log s2 ?a" "net s2 = net s1" "s_log s2 = s_log s1"
        "clusters s2 = clusters s1" "stale_cluster s2 = stale_cluster s1" "s_cluster s2 = Some k" "s_state s2 = SERVER_STATE_LEADER"
      for s2 s3 k
      using first_cluster_ok [OF k(2), of r c' os log1 1 k s1 s2] n c' init that by (intro out) (simp_all add: ca)
    show ?thesis
      unfolding state_init_cluster_in_def Pair Let_def prod.case log0_def [symmetric] l1 set_log_simps(8) n idx
      using True out k none first
      by (cases x) (auto simp: change_to_init_cluster_out_def set_timer_def reset_timer_hard_def reset_timer_def)
  qed
qed

lemma lent_replace_ok:
  assumes s: "server_ok s" and c: "conns (net s) r = Some c" "st_log (rc_state c)" and st: "s_state s \<noteq> SERVER_STATE_FOLLOWER"
  shows "server_ok (snd (leader_replace_log os s (rc_log c)))"
    and "conns (net s) r' \<noteq> None \<Longrightarrow> conns (net (snd (leader_replace_log os s (rc_log c)))) r' = conns (net s) r'"
proof -
  obtain b s' where e: "leader_replace_log os s (rc_log c) = (b, s')" by force
  have a: "rc_log c \<noteq> s_log s \<and> logs (net s) (rc_log c) = Some m \<or> lent (conns (net s) r) = Some (rc_log c)" for m
    using c by (simp add: lent_Some)
  have z: "server_okZ {} s" using s by (simp add: server_okZ_empty)
  note l = leader_replace_log_ok [OF z st a e]
  show "server_ok (snd (leader_replace_log os s (rc_log c)))"
    using l(1,2) by (cases b) (simp_all add: e server_okZ_empty)
  show "conns (net s) r' \<noteq> None \<Longrightarrow> conns (net (snd (leader_replace_log os s (rc_log c)))) r' = conns (net s) r'"
    using l(3) by (simp add: e)
qed

lemma state_change_cluster_in_ok:
  assumes s: "server_ok s" and c: "conns (net s) r = Some c" "rc_state c = RAFT_CONN_STATE_CHANGE_CLUSTER_IN" and r: "\<not> outgoing_ref r"
  shows "srv_step r s (state_change_cluster_in os s r)"
proof (cases "raft_conn_full_read os (net s) r True to_machines")
  case (Pair ok w)
  note read = read_machines_ok [OF s c(1) Pair r]
  show ?thesis
  proof (cases ok)
    case False
    then show ?thesis using read(1) by (simp add: state_change_cluster_in_def Pair)
  next
    case True
    from read(2) [OF True] obtain c' where c': "conns w r = Some c'" "st_log (rc_state c')" using c by auto
    let ?s = "s\<lparr>net := w\<rparr>" and ?a = "rc_log (conn_of w r)"
    have ca: "conn_of w r = c'" using c' by (simp add: conn_of_def)
    define log0 where "log0 = (log_of w ?a)\<lparr>l_machines := take (unat (old_n (log_of w ?a))) (l_machines (log_of w ?a)) @
        machines_of_bytes (unat (new_n (log_of w ?a))) (rx (conn_of w r))\<rparr>"
    have held: "logs (net ?s) ?a \<noteq> None" using held_log [OF srv_ok [OF read(1)], of r c'] c' by (simp add: ca)
    have k: "server_ok (set_log ?s ?a m)" if "refcount m = refcount (log_of w ?a)" for m
      using set_log_ok [OF srv_ok [OF read(1)] _ held] that by (simp add: keeps_def)
    have k0: "server_ok (set_log ?s ?a log0)" by (rule k) (simp add: log0_def)
    note out = change_out_from [OF read(1) c' r, of _ os]
    have accept: "srv_step r s (s'\<lparr>net := change_to_change_cluster_out os (net s') r\<rparr>)"
      if "s' = snd (leader_replace_log os (set_log ?s ?a log1) ?a)" "s_state s = SERVER_STATE_LEADER"
        "log_complete_change log0 old t = Accept log1" for s' log1 old t
    proof -
      have "server_ok (set_log ?s ?a log1)"
        by (rule k) (use log_complete_change_refcount [OF that(3)] in \<open>simp add: log0_def\<close>)
      note l = lent_replace_ok [OF this, where r = r and c = c' and os = os]
      show ?thesis using l c' that(2) by (intro out) (simp_all add: that(1) ca)
    qed
    show ?thesis
      unfolding state_change_cluster_in_def Pair Let_def prod.case log0_def [symmetric]
      using True out k0 accept out [of "(set_log ?s ?a log0)\<lparr>halted := True\<rparr>"] by (auto split: outcome.split)
  qed
qed

lemma change_to_new_log_ok:
  assumes s: "server_ok s" and c: "conns (net s) r = Some c" "rc_state c = RAFT_CONN_STATE_IN_CMD" and r: "\<not> outgoing_ref r"
  shows "srv_step r s (change_to_change_cluster_in os s r)"
    and "(l_index (cur_log s) = 0 \<Longrightarrow> s_state s = SERVER_STATE_FOLLOWER) \<Longrightarrow> srv_step r s (change_to_init_cluster_in os s r)"
proof -
  have f: "srv_step r s (s\<lparr>net := raft_conn_free (net s) r\<rparr>)" by (rule free_idle [OF s c(1) r])
  have "srv_step r s (case new_log (net s) (log_malloc_unstable (os_log os (calls (net s))) (old_n (cur_log s)) n) of
      (None, w) \<Rightarrow> s\<lparr>net := raft_conn_free w r\<rparr>
    | (Some a, w) \<Rightarrow> state_change_cluster_in os (s\<lparr>net := upd_conn (raft_conn_borrow_log w r a RAFT_CONN_STATE_CHANGE_CLUSTER_IN sz) r
        (\<lambda>c. c\<lparr>rx := preread c\<rparr>)\<rparr>) r)" for n sz
    by (rule recv_new_log_ok [OF s c(1), where h = "\<lambda>s. state_change_cluster_in os s r"])
      (use c r state_change_cluster_in_ok log_malloc_refcount(3) in auto)
  with f show "srv_step r s (change_to_change_cluster_in os s r)"
    unfolding change_to_change_cluster_in_def Let_def by simp
  assume init: "l_index (cur_log s) = 0 \<Longrightarrow> s_state s = SERVER_STATE_FOLLOWER"
  have h: "srv_step r s' (state_init_cluster_in os s' r)" if "server_ok s'" "conns (net s') r = Some c'"
    "rc_state c' = RAFT_CONN_STATE_INIT_CLUSTER_IN" "cur_log s' = cur_log s" "s_state s' = s_state s" for s' c'
    by (rule state_init_cluster_in_ok [OF that(1-3) r]) (use that init in simp)
  have "srv_step r s (case new_log (net s) (log_malloc_init (os_log os (calls (net s))) n) of
      (None, w) \<Rightarrow> s\<lparr>net := raft_conn_free w r\<rparr>
    | (Some a, w) \<Rightarrow> state_init_cluster_in os (s\<lparr>net := upd_conn (raft_conn_borrow_log w r a RAFT_CONN_STATE_INIT_CLUSTER_IN sz) r
        (\<lambda>c. c\<lparr>rx := preread c\<rparr>)\<rparr>) r)" for n sz
    by (rule recv_new_log_ok [OF s c(1), where h = "\<lambda>s. state_init_cluster_in os s r"])
      (use c r h log_malloc_refcount(2) in auto)
  with f show "srv_step r s (change_to_init_cluster_in os s r)"
    unfolding change_to_init_cluster_in_def Let_def by simp
qed

lemma change_to_cluster_out_ok:
  assumes i: "idle s r" and r: "\<not> outgoing_ref r"
  shows "srv_step r s (change_to_cluster_out os s r)"
  unfolding change_to_cluster_out_def Let_def
  by (rule idle_net [OF i], rule lend_ok [OF i, where out = "\<lambda>w. state_cluster_out os w r"])
    (use r write_log_states(2) in simp_all)

section \<open>Commands\<close>

lemma state_connect_in_ok:
  assumes s: "server_ok s" and c: "conns (net s) r = Some c" "rc_state c = RAFT_CONN_STATE_IN_CMD" and r: "\<not> outgoing_ref r"
  shows "srv_step r s (state_connect_in s r)"
proof -
  have i: "idle s r" by (rule idleI [OF s c(1)]) (use c in simp_all)
  have a: "around (own (s_log s)) {} r (net s)" and n: "r \<notin> set (authority (net s))" using i by (simp_all add: idle_def)
  have "(net s)\<lparr>conns := (conns (net s))(r := None)\<rparr>
      = (net s)\<lparr>authority := remove1 r (authority (net s)), conns := (conns (net s))(r := None)\<rparr>"
    using n by (simp add: remove1_idem)
  then have "local_step (own (s_log s)) {} r (net s) ((net s)\<lparr>conns := (conns (net s))(r := None)\<rparr>)"
    using world_remove [OF a] r by (simp add: local_step_def)
  then have "srv_step r s (s\<lparr>net := (net s)\<lparr>conns := (conns (net s))(r := None)\<rparr>\<rparr>)" by (rule idle_net [OF i])
  then have "srv_step r s (s\<lparr>dispatched := d, net := (net s)\<lparr>conns := (conns (net s))(r := None)\<rparr>\<rparr>)" for d
    by (simp add: srv_step_def server_ok_def clusters_ok_def)
  then show ?thesis
    using free_idle [OF s c(1) r] by (simp add: state_connect_in_def Let_def)
qed

text \<open>An authority connection is given the approvals it has.\<close>

lemma change_to_authority_out_ok:
  assumes a: "around (own (s_log s)) {} r (net s)" and c: "conns (net s) r \<noteq> None" and n: "r \<in> set (authority (net s))"
    and cl: "clusters_ok {} s" and r: "\<not> outgoing_ref r"
  shows "srv_step r s (change_to_authority_out os s r)"
proof -
  obtain c0 where c0: "conns (net s) r = Some c0" using c by blast
  let ?w = "net (change_to_authority_out os s r)"
  have "local_step (own (s_log s)) {} r (net s) ?w"
    unfolding change_to_authority_out_def Let_def upd_upd select_convs surjective
    using respond_ok [OF a c0, where out = "\<lambda>w. state_authority_out os w r" and ST = RAFT_CONN_STATE_AUTHORITY_OUT] r n
      out_states(4) [of "own (s_log s)" "{}" _ r] by simp
  then have "srv_step r s (s\<lparr>net := ?w\<rparr>)" by (intro step_local [OF cl _ c]) simp_all
  moreover have "s\<lparr>net := ?w\<rparr> = change_to_authority_out os s r" by (simp add: change_to_authority_out_def Let_def)
  ultimately show ?thesis by (simp only:)
qed

lemma upd_counters_ok:
  assumes w: "world_ok ext Z w" and c: "conns w r = Some c"
    and f: "\<And>c. rc_state (f c) = rc_state c" "\<And>c. rc_log (f c) = rc_log c"
  shows "local_step ext Z r w (upd_conn w r f)"
proof -
  have "io_step w r True True (upd_conn w r f)"
    by (rule io_stepI [of _ _ _ "f (conn_of w r)"]) (simp_all add: f)
  then have "io_step w r (\<not> outgoing_ref r) True (upd_conn w r f)" by (simp add: io_step_def)
  from io_step_ok(1) [OF this w c] show ?thesis by simp
qed

lemma state_authority_in_ok:
  assumes s: "server_ok s" and c: "conns (net s) r = Some c" and r: "\<not> outgoing_ref r"
  shows "srv_step r s (snd (state_authority_in os s r))"
    and "fst (state_authority_in os s r) \<Longrightarrow> \<exists>c'. conns (net (snd (state_authority_in os s r))) r = Some c' \<and> rc_state c' = rc_state c"
proof -
  let ?w = "(net s)\<lparr>calls := calls (net s) + 1\<rparr>"
  have w: "world_ok (own (s_log s)) {} ?w" using server_okD(1) [OF s] by simp
  have "local_step (own (s_log s)) {} r ?w (upd_conn ?w r (\<lambda>c. c\<lparr>authority_pending_nr := authority_pending_nr c + k\<rparr>))" for k
    by (rule upd_counters_ok [OF w, of r c]) (simp_all add: c)
  then have "srv_step r (s\<lparr>net := ?w\<rparr>) (s\<lparr>net := upd_conn ?w r (\<lambda>c. c\<lparr>authority_pending_nr := authority_pending_nr c + k\<rparr>),
      replicate_entry_wanted := True\<rparr>)" for k
    using s c by (intro srv_local) simp_all
  moreover have "srv_step r (s\<lparr>net := ?w\<rparr>) (s\<lparr>net := raft_conn_free ?w r\<rparr>)"
    using free_idle [of "s\<lparr>net := ?w\<rparr>" r c] s c r by simp
  ultimately have "srv_step r (s\<lparr>net := ?w\<rparr>) (snd (state_authority_in os s r))"
    by (simp add: state_authority_in_def Let_def split_beta)
  then show "srv_step r s (snd (state_authority_in os s r))"
    by (simp add: srv_step_def)
  show "fst (state_authority_in os s r) \<Longrightarrow> \<exists>c'. conns (net (snd (state_authority_in os s r))) r = Some c' \<and> rc_state c' = rc_state c"
    using c by (auto simp: state_authority_in_def Let_def split_beta conn_of_def)
qed

lemma authority_cmd_ok:
  assumes s: "server_ok s" and c: "conns (net s) r = Some c" "rc_state c = RAFT_CONN_STATE_IN_CMD" and r: "\<not> outgoing_ref r"
    and f: "\<And>c. rc_state (f c) = rc_state c" "\<And>c. rc_log (f c) = rc_log c"
  shows "srv_step r s (change_to_authority_out os (s\<lparr>net := upd_conn ((net s)\<lparr>authority := r # authority (net s)\<rparr>) r f\<rparr>) r)"
proof -
  let ?s = "s\<lparr>net := upd_conn ((net s)\<lparr>authority := r # authority (net s)\<rparr>) r f\<rparr>"
  have i: "idle s r" by (rule idleI [OF s c(1)]) (use c in simp_all)
  then have a: "around (own (s_log s)) {} r (net s)" and n: "r \<notin> set (authority (net s))" by (simp_all add: idle_def)
  have ar: "around (own (s_log s)) {} r (net ?s)"
    using a n c by (auto simp: around_def conn_ok_def)
  have cl: "clusters_ok {} ?s"
    by (rule clusters_ok_same [OF server_okD(2) [OF s]]) (use r in auto)
  have "srv_step r ?s (change_to_authority_out os ?s r)"
    by (rule change_to_authority_out_ok) (use ar cl r in simp_all)
  then show ?thesis using r by (simp add: srv_step_def)
qed

lemma state_in_cmd_ok:
  assumes s: "server_ok s" and c: "conns (net s) r = Some c" "rc_state c = RAFT_CONN_STATE_IN_CMD" and r: "\<not> outgoing_ref r"
    and init: "l_index (cur_log s) = 0 \<Longrightarrow> s_state s = SERVER_STATE_FOLLOWER"
  shows "srv_step r s (state_in_cmd os s r)"
proof -
  let ?readed = "RAFT_CONN_BUFFER_SIZE - unio (conn_of (net s) r)"
  obtain ok w where e: "raft_conn_read os (net s) r True (to_buffer ?readed) = (ok, w)" by force
  have "io_step (net s) r True ok w"
    by (rule raft_conn_read_step [OF c(1) _ _ e]) simp_all
  note io = io_step_ok [OF this server_okD(1) [OF s] c(1)]
  have w: "srv_step r s (s\<lparr>net := w\<rparr>)" using io(1) r s c by (intro srv_local) simp_all
  show ?thesis
  proof (cases ok)
    case False
    then show ?thesis using w by (simp add: state_in_cmd_def e Let_def)
  next
    case True
    let ?s = "s\<lparr>net := w\<rparr>"
    from io(2) True r obtain c' where c': "conns w r = Some c'" "rc_state c' = RAFT_CONN_STATE_IN_CMD" using c by auto
    have s': "server_ok ?s" using srv_ok [OF w] .
    have init': "l_index (cur_log ?s) = 0 \<Longrightarrow> s_state ?s = SERVER_STATE_FOLLOWER"
      using init io(3) True r by (simp add: cur_log_def log_of_def)
    have c'': "conns (net ?s) r = Some c'" using c' by simp
    have i: "idle ?s r" by (rule idleI [OF s' c'']) (use c' in simp_all)
    have hb: "srv_step r ?s (state_recv_heartbeat_in os ?s r)"
    proof -
      have "server_ok (reset_timer ?s)" using s' by simp
      note m = idle_move [OF i s' this]
      show ?thesis
        using change_outs(3) [OF i r] m(2) [OF _ _ change_outs(3) [OF m(1) r]]
        by (auto simp: state_recv_heartbeat_in_def Let_def)
    qed
    note steps = hb state_vote_in_ok [OF s' c'' c'(2) r, of os] change_to_recv_log_in_ok [OF s' c'' c'(2) r, of os]
      change_to_new_log_ok(1) [OF s' c'' c'(2) r, of os] change_to_new_log_ok(2) [OF s' c'' c'(2) r init', of os]
      change_outs(5) [OF i r, of os] change_to_cluster_out_ok [OF i r, of os] state_connect_in_ok [OF s' c'' c'(2) r]
      free_idle [OF s' c'' r] srv_refl [OF s', of r]
      authority_cmd_ok [OF s' c'' c'(2) r, of "\<lambda>c. c\<lparr>authority_pending_nr := 0, authority_processing_nr := 0, authority_succeed_nr := 0\<rparr>" os]
    note steps' = steps [THEN srv_trans [OF w]]
    show ?thesis
      unfolding state_in_cmd_def e Let_def prod.case using True steps' by simp
  qed
qed

section \<open>Connecting to members\<close>

lemma change_to_ready_for_use_ok:
  assumes s: "server_ok s" and i: "idle s r" and r: "outgoing_ref r"
  shows "srv_step r s (change_to_conn_established os s r)"
  using change_outs(2) [OF i r] change_to_append_entry_out_ok [OF i r] srv_refl [OF s]
  by (simp add: change_to_conn_established_def change_to_ready_for_use_def split: server_state.split)

lemma state_in_progress_ok:
  assumes s: "server_ok s" and c: "conns (net s) r = Some c" "rc_state c = RAFT_CONN_STATE_IN_PROGRESS" and r: "outgoing_ref r"
  shows "srv_step r s (state_in_progress os s r)"
proof -
  let ?s = "s\<lparr>net := (net s)\<lparr>calls := calls (net s) + 1\<rparr>\<rparr>"
  have s': "server_ok ?s" using s by simp
  have i: "idle ?s r" by (rule idleI [OF s', of r c]) (use c in simp_all)
  have "local_step (own (s_log ?s)) {} r (net ?s) (raft_conn_clear (net ?s) r)"
    by (rule clear_ok [OF server_okD(1) [OF s'], of r c]) (use c r in simp_all)
  from idle_net [OF i this] change_to_ready_for_use_ok [OF s' i r]
  have "srv_step r ?s (state_in_progress os s r)" by (simp add: state_in_progress_def Let_def)
  then show ?thesis by (simp add: srv_step_def)
qed

lemma member_connect_ok:
  assumes s: "server_ok s" and c: "conns (net s) r = Some c" "rc_state c = RAFT_CONN_STATE_NOT_CONNECTED" and r: "outgoing_ref r"
  shows "srv_step r s (member_connect os s r)"
proof -
  let ?s = "s\<lparr>net := (net s)\<lparr>calls := calls (net s) + 1\<rparr>\<rparr>"
  have s': "server_ok ?s" and c': "conns (net ?s) r = Some c" using s c by simp_all
  have i: "idle ?s r" by (rule idleI [OF s' c']) (use c in simp_all)
  then have a: "around (own (s_log ?s)) {} r (net ?s)" and n: "r \<notin> set (authority (net ?s))" by (auto simp only: idle_def)
  have "local_step (own (s_log ?s)) {} r (net ?s) (upd_conn (net ?s) r (\<lambda>c. c\<lparr>fd := f, rc_state := RAFT_CONN_STATE_IN_PROGRESS\<rparr>))" for f
    by (rule set_state_ok [OF a c']) (use r n in \<open>simp_all add: conn_ok_def\<close>)
  from idle_net [OF i this]
  have p: "srv_step r ?s (s\<lparr>net := upd_conn (net ?s) r (\<lambda>c. c\<lparr>fd := f, rc_state := RAFT_CONN_STATE_IN_PROGRESS\<rparr>)\<rparr>)" for f by simp
  have i2: "idle (s\<lparr>net := upd_conn (net ?s) r (\<lambda>c. c\<lparr>fd := f, rc_state := RAFT_CONN_STATE_IN_PROGRESS\<rparr>)\<rparr>) r" for f
    by (rule idleI [OF srv_ok [OF p [of f]], of r "c\<lparr>fd := f, rc_state := RAFT_CONN_STATE_IN_PROGRESS\<rparr>"])
      (use c in \<open>simp_all add: conn_of_def\<close>)
  note est = srv_trans [OF p change_to_ready_for_use_ok [OF srv_ok [OF p] i2 r]]
  have "local_step (own (s_log ?s)) {} r (net ?s) ((upd_conn (net ?s) r (\<lambda>c. c\<lparr>fd := f\<rparr>))\<lparr>closed := d\<rparr>)" for f d
    using upd_counters_ok [OF server_okD(1) [OF s'] c', of "\<lambda>c. c\<lparr>fd := f\<rparr>"] by (simp add: local_step_def)
  from idle_net [OF i this] p est srv_refl [OF s', of r]
  have "srv_step r ?s (member_connect os s r)"
    by (simp add: member_connect_def Let_def split_beta split: connect.split)
  then show ?thesis by (simp add: srv_step_def)
qed

lemma member_simps [simp]:
  "s_state (upd_member s r f) = s_state s" "s_cluster (upd_member s r f) = s_cluster s"
  "stale_cluster (upd_member s r f) = stale_cluster s" "net (upd_member s r f) = net s"
  "halted (upd_member s r f) = halted s"
  by (cases r; simp add: Let_def)+

lemma member_connect_state [simp]:
  "s_state (change_to_append_entry_out os s r) = s_state s" "s_state (member_connect os s r) = s_state s"
  "s_cluster (change_to_append_entry_out os s r) = s_cluster s" "s_cluster (member_connect os s r) = s_cluster s"
  by (simp_all add: member_connect_def change_to_conn_established_def change_to_ready_for_use_def change_to_append_entry_out_def
      change_to_append_log_out_def change_to_heartbeat_out_def change_to_request_vote_out_def Let_def split_beta
      split: connect.split server_state.split)

text \<open>A pass over connections, each of which is handled alone.\<close>

lemma srv_fold:
  assumes f: "\<And>r s. r \<in> set rs \<Longrightarrow> server_ok s \<Longrightarrow> conns (net s) r \<noteq> None \<Longrightarrow> srv_step r s (f r s)"
    and "server_ok s" "\<And>r. r \<in> set rs \<Longrightarrow> conns (net s) r \<noteq> None" "distinct rs"
  shows "server_ok (fold f rs s) \<and> (\<forall>r. r \<notin> set rs \<or> outgoing_ref r \<longrightarrow> conns (net s) r \<noteq> None \<longrightarrow> conns (net (fold f rs s)) r \<noteq> None)"
  using assms
proof (induction rs arbitrary: s)
  case (Cons r rs)
  have st: "srv_step r s (f r s)" using Cons.prems by simp
  have al: "conns (net (f r s)) r' \<noteq> None" if "r' \<noteq> r \<or> outgoing_ref r'" "conns (net s) r' \<noteq> None" for r'
    using st that by (simp add: srv_step_def)
  have "server_ok (fold f rs (f r s)) \<and>
      (\<forall>r'. r' \<notin> set rs \<or> outgoing_ref r' \<longrightarrow> conns (net (f r s)) r' \<noteq> None \<longrightarrow> conns (net (fold f rs (f r s))) r' \<noteq> None)"
  proof (rule Cons.IH)
    show "conns (net (f r s)) r' \<noteq> None" if "r' \<in> set rs" for r'
      using al [of r'] Cons.prems(3,4) that by auto
  qed (use Cons.prems srv_ok [OF st] in auto)
  then show ?case using al unfolding fold.simps comp_apply by (metis list.set_intros(1,2))
qed simp

section \<open>Rounds\<close>

lemma replicate_member_ok:
  assumes s: "server_ok s" and c: "conns (net s) r \<noteq> None" and r: "outgoing_ref r"
  shows "srv_step r s (replicate_member os r s)"
proof -
  obtain c0 where c0: "conns (net s) r = Some c0" using c by blast
  let ?s = "upd_member s r (\<lambda>m. m\<lparr>responded_append_entry := False\<rparr>)"
  have k: "keeps s ?s" by (rule keeps_member [OF s c])
  then have s': "server_ok ?s" by (simp add: keeps_def)
  have "srv_step r ?s (change_to_append_entry_out os ?s r)" if "rc_state c0 = RAFT_CONN_STATE_READY_FOR_USE"
    by (rule change_to_append_entry_out_ok [OF idleI [OF s', of r c0] r]) (use c0 that in simp_all)
  moreover have "srv_step r ?s (member_connect os ?s r)" if "rc_state c0 = RAFT_CONN_STATE_NOT_CONNECTED"
    by (rule member_connect_ok [OF s', of r c0]) (use c0 r that in simp_all)
  ultimately have "srv_step r ?s (replicate_member os r s)"
    using srv_refl [OF s'] c0 by (simp add: replicate_member_def Let_def conn_of_def split: raft_conn_state.split)
  then show ?thesis by (rule srv_trans [OF keeps_srv [OF k]])
qed

lemma candidate_member_ok:
  assumes s: "server_ok s" and c: "conns (net s) r \<noteq> None" and r: "outgoing_ref r"
  shows "srv_step r s (candidate_member os r s)"
proof -
  obtain c0 where c0: "conns (net s) r = Some c0" using c by blast
  have "srv_step r s (change_to_request_vote_out os s r)" if "rc_state c0 = RAFT_CONN_STATE_READY_FOR_USE"
    by (rule change_outs(2) [OF idleI [OF s, of r c0] r]) (use c0 that in simp_all)
  then show ?thesis
    using srv_refl [OF s] c0 member_connect_ok [OF s c0 _ r]
    by (simp add: candidate_member_def conn_of_def split: raft_conn_state.split)
qed

lemma cluster_conns_alive:
  assumes "clusters_ok K s" "clusters s k \<noteq> None"
  shows "r \<in> set (cluster_conns s k) \<Longrightarrow> conns (net s) r \<noteq> None" "distinct (cluster_conns s k)"
    "r \<in> set (cluster_conns s k) \<Longrightarrow> outgoing_ref r"
proof -
  obtain cl where cl: "clusters s k = Some cl" using assms(2) by blast
  show "distinct (cluster_conns s k)" by (simp add: cluster_conns_def distinct_map inj_on_def)
  show "r \<in> set (cluster_conns s k) \<Longrightarrow> outgoing_ref r" by (auto simp: cluster_conns_def)
  assume "r \<in> set (cluster_conns s k)"
  then obtain i where "r = Out k i" "i < unat (members_n cl)"
    using cl by (auto simp: cluster_conns_def cluster_at_def)
  then show "conns (net s) r \<noteq> None" using assms(1) cl by (simp add: clusters_ok_def)
qed

lemma current_cluster:
  assumes "server_ok s" "s_state s \<noteq> SERVER_STATE_FOLLOWER"
  shows "clusters s (the (s_cluster s)) \<noteq> None"
proof -
  have cl: "clusters_ok {} s" using assms(1) by (rule server_okD)
  then obtain k where k: "s_cluster s = Some k" using assms(2) by (auto simp: clusters_ok_def)
  have "dom (clusters s) = set (stale_cluster s) \<union> set_option (s_cluster s) \<union> {}" using cl unfolding clusters_ok_def by blast
  then have "k \<in> dom (clusters s)" using k by auto
  then show ?thesis using k by auto
qed

text \<open>What a pass that frees no connection gives.\<close>

lemma members_fold:
  assumes f: "\<And>r s. server_ok s \<Longrightarrow> conns (net s) r \<noteq> None \<Longrightarrow> outgoing_ref r \<Longrightarrow> srv_step r s (f r s)"
    and s: "server_ok s" "clusters s k \<noteq> None"
  shows "server_ok (fold f (cluster_conns s k) s)"
    "conns (net s) r \<noteq> None \<Longrightarrow> conns (net (fold f (cluster_conns s k) s)) r \<noteq> None"
proof -
  note c = cluster_conns_alive [OF server_okD(2) [OF s(1)] s(2)]
  have "server_ok (fold f (cluster_conns s k) s) \<and> (\<forall>r. r \<notin> set (cluster_conns s k) \<or> outgoing_ref r \<longrightarrow>
      conns (net s) r \<noteq> None \<longrightarrow> conns (net (fold f (cluster_conns s k) s)) r \<noteq> None)"
    by (rule srv_fold) (use f s c in auto)
  then show "server_ok (fold f (cluster_conns s k) s)"
    "conns (net s) r \<noteq> None \<Longrightarrow> conns (net (fold f (cluster_conns s k) s)) r \<noteq> None"
    using c(3) by blast+
qed

text \<open>Authority: the requests of every authority connection, in its counters.\<close>

lemma auth_incoming:
  assumes "server_ok s" "r \<in> set (authority (net s))"
  shows "conns (net s) r \<noteq> None" "\<not> outgoing_ref r" "distinct (authority (net s))"
proof -
  have w: "world_ok (own (s_log s)) {} (net s)" by (rule server_okD(1) [OF assms(1)])
  show "conns (net s) r \<noteq> None" "distinct (authority (net s))" using w assms(2) by (auto simp: world_ok_def)
  then obtain c where c: "conns (net s) r = Some c" by blast
  then have "st_auth (rc_state c)" "st_out (rc_state c) \<longleftrightarrow> outgoing_ref r" using ok_conn [OF w c] assms(2) by simp_all
  then show "\<not> outgoing_ref r" by auto
qed

lemma counters_step:
  assumes s: "server_ok s" and c: "conns (net s) r \<noteq> None"
    and f: "\<And>c. rc_state (f c) = rc_state c" "\<And>c. rc_log (f c) = rc_log c"
  shows "srv_step r s (s\<lparr>net := upd_conn (net s) r f\<rparr>)"
proof -
  obtain c0 where "conns (net s) r = Some c0" using c by blast
  from upd_counters_ok [OF server_okD(1) [OF s] this, of f] f show ?thesis
    using s c by (intro srv_local) simp_all
qed

lemma fold_net: "fold (\<lambda>r s. s\<lparr>net := g r (net s)\<rparr>) rs s = s\<lparr>net := fold g rs (net s)\<rparr>"
  by (induction rs arbitrary: s) simp_all

lemma server_authority_process_ok:
  assumes s: "server_ok s"
  shows "server_ok (server_authority_process s)"
    "conns (net s) r \<noteq> None \<Longrightarrow> conns (net (server_authority_process s)) r \<noteq> None"
proof -
  let ?g = "\<lambda>r w. upd_conn w r (\<lambda>c. c\<lparr>authority_processing_nr := authority_processing_nr c + authority_pending_nr c, authority_pending_nr := 0\<rparr>)"
  let ?f = "\<lambda>r s. s\<lparr>net := ?g r (net s)\<rparr>"
  have e: "server_authority_process s = fold ?f (authority (net s)) s"
    by (simp add: server_authority_process_def fold_net [of ?g])
  have "server_ok (fold ?f (authority (net s)) s) \<and> (\<forall>r. r \<notin> set (authority (net s)) \<or> outgoing_ref r \<longrightarrow>
      conns (net s) r \<noteq> None \<longrightarrow> conns (net (fold ?f (authority (net s)) s)) r \<noteq> None)"
    by (rule srv_fold) (use s auth_incoming [OF s] server_okD(1) [OF s] in \<open>auto intro: counters_step simp: world_ok_def\<close>)
  then show "server_ok (server_authority_process s)" unfolding e by blast
  have "conns w r \<noteq> None \<Longrightarrow> conns (fold ?g rs w) r \<noteq> None" for rs w
    by (induction rs arbitrary: w) auto
  then show "conns (net s) r \<noteq> None \<Longrightarrow> conns (net (server_authority_process s)) r \<noteq> None"
    by (simp add: server_authority_process_def)
qed

lemma conn_authority_approved_ok:
  assumes s: "server_ok s" and c: "conns (net s) r \<noteq> None"
  shows "srv_step r s (conn_authority_approved os r s)"
proof -
  obtain c0 where c0: "conns (net s) r = Some c0" using c by blast
  let ?f = "\<lambda>c. c\<lparr>authority_succeed_nr := authority_succeed_nr c + authority_processing_nr c, authority_processing_nr := 0\<rparr>"
  let ?s = "s\<lparr>net := upd_conn (net s) r ?f\<rparr>"
  have st: "srv_step r s ?s" by (rule counters_step [OF s c]) simp_all
  have c1: "conns (net ?s) r = Some (?f c0)" using c0 by (simp add: conn_of_def)
  have "srv_step r ?s (change_to_authority_out os ?s r)" if p: "rc_state c0 = RAFT_CONN_STATE_AUTHORITY_PENDING"
  proof (rule change_to_authority_out_ok)
    note w = server_okD(1) [OF srv_ok [OF st]]
    show "around (own (s_log ?s)) {} r (net ?s)" by (rule around_world [OF w c1]) (simp add: p)
    show "r \<in> set (authority (net ?s))" "\<not> outgoing_ref r" using ok_conn [OF w c1] p by simp_all
    show "clusters_ok {} ?s" by (rule server_okD(2) [OF srv_ok [OF st]])
  qed (simp add: c1)
  then show ?thesis
    using st srv_trans [OF st] c0 by (simp add: conn_authority_approved_def Let_def conn_of_def)
qed

lemma server_authority_approved_ok:
  assumes s: "server_ok s"
  shows "server_ok (server_authority_approved os s)"
    "r \<notin> set (authority (net s)) \<Longrightarrow> conns (net s) r \<noteq> None \<Longrightarrow> conns (net (server_authority_approved os s)) r \<noteq> None"
  using srv_fold [of "authority (net s)" "conn_authority_approved os" s] s conn_authority_approved_ok auth_incoming [OF s]
    server_okD(1) [OF s]
  by (auto simp: server_authority_approved_def world_ok_def)

lemma replicate_start_ok:
  assumes s: "server_ok s" and st: "s_state s \<noteq> SERVER_STATE_FOLLOWER"
  shows "server_ok (replicate_start os s)"
    "conns (net s) r \<noteq> None \<Longrightarrow> conns (net (replicate_start os s)) r \<noteq> None"
proof -
  define s1 where "s1 = server_authority_process s"
  let ?k = "the (s_cluster s1)" and ?cl = "cluster_at s1 (the (s_cluster s1))"
  define s2 where "s2 = s1\<lparr>replicate_entry_round := replicate_entry_round s1 + 1,
    commit_entry_required_old_votes := require_old_votes ?cl, commit_entry_required_new_votes := require_new_votes ?cl,
    entry_commited := False, replicate_entry_wanted := False\<rparr>"
  have s1: "server_ok s1" "s_state s1 = s_state s"
    using server_authority_process_ok(1) [OF s] by (simp_all add: s1_def) (simp add: server_authority_process_def)
  then have s2: "server_ok s2" "clusters s2 ?k \<noteq> None"
    using current_cluster [OF s1(1)] st by (simp_all add: s2_def)
  note f = members_fold [where f = "replicate_member os", OF replicate_member_ok s2]
  have e: "replicate_start os s = (if \<not> replicate_entry_wanted s then s else fold (replicate_member os) (cluster_conns s2 ?k) s2)"
    by (simp add: replicate_start_def Let_def s1_def s2_def)
  show "server_ok (replicate_start os s)" using f(1) s by (simp add: e)
  show "conns (net s) r \<noteq> None \<Longrightarrow> conns (net (replicate_start os s)) r \<noteq> None"
    using f(2) [of r] server_authority_process_ok(2) [OF s, of r] by (simp add: e s2_def s1_def)
qed

lemma approved_state [simp]: "s_state (server_authority_approved os s) = s_state s"
proof -
  have "s_state (conn_authority_approved os r s) = s_state s" for r s
    by (simp add: conn_authority_approved_def change_to_authority_out_def Let_def)
  then have "s_state (fold (conn_authority_approved os) rs s) = s_state s" for rs
    by (induction rs arbitrary: s) simp_all
  then show ?thesis by (simp add: server_authority_approved_def)
qed

lemma replicate_entry_ok:
  assumes s: "server_ok s" and st: "s_state s \<noteq> SERVER_STATE_FOLLOWER"
  shows "server_ok (replicate_entry os s)"
  using replicate_start_ok(1) [of "server_authority_approved os (s\<lparr>entry_commited := True\<rparr>)" os]
    server_authority_approved_ok(1) [of "s\<lparr>entry_commited := True\<rparr>" os] replicate_start_ok(1) [OF s st] s st
  by (simp add: replicate_entry_def)

lemma candidate_start_ok:
  assumes s: "server_ok s" and st: "s_state s \<noteq> SERVER_STATE_FOLLOWER"
  shows "server_ok (candidate_start os s)"
    "conns (net s) r \<noteq> None \<Longrightarrow> conns (net (candidate_start os s)) r \<noteq> None"
proof -
  let ?k = "the (s_cluster s)" and ?cl = "cluster_at s (the (s_cluster s))"
  define s1 where "s1 = reset_timer_hard (s\<lparr>s_term := s_term s + 1, required_old_votes := require_old_votes ?cl,
    required_new_votes := require_new_votes ?cl\<rparr>)"
  have s1: "server_ok s1" "clusters s1 ?k \<noteq> None" "net s1 = net s"
    using s current_cluster [OF s st] by (simp_all add: s1_def reset_timer_hard_def) (simp add: reset_timer_def)
  note f = members_fold [where f = "candidate_member os", OF candidate_member_ok s1(1,2)]
  have e: "candidate_start os s = fold (candidate_member os) (cluster_conns s1 ?k) s1"
    by (simp add: candidate_start_def Let_def s1_def)
  show "server_ok (candidate_start os s)"
    "conns (net s) r \<noteq> None \<Longrightarrow> conns (net (candidate_start os s)) r \<noteq> None"
    using f(1) f(2) [of r] s1(3) by (simp_all add: e)
qed

lemma convert_to_candidate_ok:
  assumes s: "server_ok s"
  shows "server_ok (convert_to_candidate os s)"
    "conns (net s) r \<noteq> None \<Longrightarrow> conns (net (convert_to_candidate os s)) r \<noteq> None"
proof -
  obtain x s1 where n: "new_cluster os s (cur_log s) (s_id s) = (x, s1)" by force
  have z: "server_okZ {} s" using s by (simp add: server_okZ_empty)
  note c = new_cluster_ok [OF z n]
  have f: "server_ok (s1\<lparr>s_state := SERVER_STATE_CANDIDATE, s_cluster := Some k\<rparr>)"
    if "x = Some k" "s_state s = SERVER_STATE_FOLLOWER" for k
  proof -
    have "s_cluster s1 = None" using s that(2) c(7) by (simp add: server_ok_def clusters_ok_def)
    then have "clusters_ok {} (s1\<lparr>s_state := SERVER_STATE_CANDIDATE, s_cluster := Some k\<rparr>)"
      using place_cluster(2) [of k s1] c(2) that(1) by simp
    then show ?thesis using c(2,5) that(1) by (simp add: server_ok_def)
  qed
  have "conns (net s1) r \<noteq> None" if "conns (net s) r \<noteq> None" using c(11) [OF that] that by simp
  moreover have "server_ok s1" if "x = None" using c(1) that by (simp add: server_okZ_empty)
  ultimately show "server_ok (convert_to_candidate os s)"
    "conns (net s) r \<noteq> None \<Longrightarrow> conns (net (convert_to_candidate os s)) r \<noteq> None"
    using candidate_start_ok(1) [OF s, of os] candidate_start_ok(1) [OF f, of _ os] candidate_start_ok(2) [OF s, of r os]
      candidate_start_ok(2) [OF f, of _ r os] n
    by (cases x; simp add: convert_to_candidate_def)+
qed

lemma leader_timer_ticked_ok:
  assumes s: "server_ok s" and st: "s_state s \<noteq> SERVER_STATE_FOLLOWER"
  shows "server_ok (snd (leader_timer_ticked os s))" "s_state (snd (leader_timer_ticked os s)) = s_state s"
    "conns (net s) r \<noteq> None \<Longrightarrow> conns (net (snd (leader_timer_ticked os s))) r \<noteq> None"
proof -
  let ?k = "the (s_cluster s)" and ?cl = "cluster_at s (the (s_cluster s))"
  define f where "f = (\<lambda>r s. if rc_state (conn_of (net s) r) = RAFT_CONN_STATE_NOT_CONNECTED then member_connect os s r else s)"
  define s1 where "s1 = s\<lparr>clusters := (clusters s)(?k \<mapsto> ?cl\<lparr>members := map fst (map member_tick (cluster_members ?cl)) @
    drop (unat (members_n ?cl)) (members ?cl)\<rparr>)\<rparr>"
  define s2 where "s2 = fold f (cluster_conns s1 ?k) s1"
  have "same_roles s s1" using current_cluster [OF s st] by (auto simp: same_roles_def s1_def cluster_at_def)
  then have "clusters_ok {} s1" by (rule clusters_ok_same [OF server_okD(2) [OF s]]) (simp_all add: s1_def)
  then have s1: "server_ok s1" "clusters s1 ?k \<noteq> None" "net s1 = net s" "s_state s1 = s_state s"
    using s by (simp_all add: server_ok_def s1_def)
  have f: "srv_step r s (f r s)" if "server_ok s" "conns (net s) r \<noteq> None" "outgoing_ref r" for r s
    using that member_connect_ok [OF that(1) _ _ that(3)] srv_refl [OF that(1)] by (auto simp: f_def conn_of_def)
  note m = members_fold [where f = f, OF f s1(1,2), folded s2_def]
  have "s_state (fold f rs s) = s_state s" for rs s
    by (induction rs arbitrary: s) (simp_all add: f_def)
  then have s2: "server_ok s2" "s_state s2 = s_state s" "conns (net s) r \<noteq> None \<Longrightarrow> conns (net s2) r \<noteq> None" for r
    using m s1 by (simp_all add: s2_def)
  have "keeps (s2\<lparr>leader_available := True\<rparr>) (snd (leader_change_available os (s2\<lparr>leader_available := True\<rparr>)))"
    by (rule leader_change_available_ok) (use s2 in simp)
  then show "server_ok (snd (leader_timer_ticked os s))" "s_state (snd (leader_timer_ticked os s)) = s_state s"
    "conns (net s) r \<noteq> None \<Longrightarrow> conns (net (snd (leader_timer_ticked os s))) r \<noteq> None"
    unfolding leader_timer_ticked_def Let_def s1_def [symmetric] f_def [symmetric] s2_def [symmetric]
    using s1 s2 by (simp_all add: keeps_def)
qed

lemma process_timer_event_ok:
  assumes s: "server_ok s"
  shows "server_ok (process_timer_event os s)"
    "conns (net s) r \<noteq> None \<Longrightarrow> conns (net (process_timer_event os s)) r \<noteq> None"
proof -
  let ?s = "s\<lparr>timer_ticks := timer_ticks s + 1\<rparr>"
  have s': "server_ok ?s" using s by simp
  note t = leader_timer_ticked_ok(1,2) [OF s', of os] leader_timer_ticked_ok(3) [OF s', of r os]
  note f = convert_to_follower_ok [of "snd (leader_timer_ticked os ?s)"]
  note c = convert_to_candidate_ok(1) [OF s', of os] convert_to_candidate_ok(2) [OF s', of r os]
  show "server_ok (process_timer_event os s)"
    "conns (net s) r \<noteq> None \<Longrightarrow> conns (net (process_timer_event os s)) r \<noteq> None"
    unfolding process_timer_event_def Let_def start_election_def
    using t f c s by (simp_all add: split_beta)
qed

section \<open>Events\<close>

lemma local_net_ok:
  assumes "server_ok s" "conns (net s) r = Some c" "local_step (own (s_log s)) {} r (net s) w"
  shows "srv_step r s (s\<lparr>net := w\<rparr>)"
  using assms by (intro srv_local) simp_all

lemma process_authority_ok:
  assumes s: "server_ok s" and c: "conns (net s) r = Some c" "rc_state c = RAFT_CONN_STATE_AUTHORITY_OUT" and r: "\<not> outgoing_ref r"
  shows "srv_step r s (case state_authority_in os s r of (ok, s) \<Rightarrow> if ok then s\<lparr>net := state_authority_out os (net s) r\<rparr> else s)"
proof -
  obtain ok s1 where e: "state_authority_in os s r = (ok, s1)" by force
  note a = state_authority_in_ok [OF s c(1) r, of os, unfolded e, simplified]
  have "srv_step r s1 (s1\<lparr>net := state_authority_out os (net s1) r\<rparr>)" if k: ok
  proof -
    obtain c' where c': "conns (net s1) r = Some c'" "rc_state c' = RAFT_CONN_STATE_AUTHORITY_OUT" using a(2) [OF k] c(2) by auto
    note ok1 = srv_ok [OF a(1)]
    show ?thesis by (rule local_net_ok [OF ok1 c'(1) out_states(4) [OF server_okD(1) [OF ok1] c']])
  qed
  then show ?thesis using a(1) srv_trans [OF a(1)] by (simp add: e)
qed

lemma process_ok:
  assumes s: "server_ok s" and c: "conns (net s) r = Some c"
    and out: "outgoing_ref r \<Longrightarrow> s_state s \<noteq> SERVER_STATE_FOLLOWER"
    and init: "l_index (cur_log s) = 0 \<Longrightarrow> s_state s = SERVER_STATE_FOLLOWER"
  shows "srv_step r s (process os s r)"
proof -
  note w = server_okD(1) [OF s]
  have r: "st_out (rc_state c) \<longleftrightarrow> outgoing_ref r" by (rule ok_conn(1) [OF w c])
  note n = local_net_ok [OF s c]
  show ?thesis
    using r n [OF out_states(1) [OF w c]] n [OF out_states(2) [OF w c]] n [OF out_states(3) [OF w c]]
      n [OF out_states(5) [OF w c]] n [OF out_states(6) [OF w c]] n [OF write_log_states(1) [OF w c]]
      n [OF write_log_states(2) [OF w c]] n [OF change_cluster_out_state [OF w c]]
      state_in_progress_ok [OF s c] state_in_cmd_ok [OF s c _ _ init] state_request_vote_in_ok [OF s c]
      state_append_entry_in_ok [OF s c _ _ out] state_recv_log_in_ok [OF s c] state_init_cluster_in_ok [OF s c _ _ init]
      state_change_cluster_in_ok [OF s c] process_authority_ok [OF s c] state_authority_in_ok(1) [OF s c] srv_refl [OF s, of r]
    by (cases "rc_state c") (simp_all add: process_def conn_of_def c Let_def)
qed

lemma accept_one_ok:
  assumes s: "server_ok s"
  shows "server_ok (accept_one os s adm f)"
    "conns (net s) r \<noteq> None \<Longrightarrow> conns (net (accept_one os s adm f)) r \<noteq> None"
proof -
  let ?p = "In (next_addr (net s))"
  define c where "c = raft_conn_set_io RAFT_CONN_STATE_IN_CMD RAFT_CONN_BUFFER_SIZE ((os_conn os (calls (net s)))\<lparr>fd := f, admin := adm\<rparr>)"
  define w where "w = (net s)\<lparr>next_addr := next_addr (net s) + 1, conns := (conns (net s))(?p \<mapsto> c), calls := calls (net s) + 1 + 1\<rparr>"
  have ok: "world_ok (own (s_log s)) {} (net s)" by (rule server_okD(1) [OF s])
  have new: "conns (net s) ?p = None" using ok by (simp add: world_ok_def)
  have "world_ok (own (s_log s)) {} w"
  proof (rule world_around [of _ _ ?p _ c])
    have "(conns (net s))(?p := None) = conns (net s)" using new by auto
    then show "around (own (s_log s)) {} ?p w" using ok by (auto simp: around_def world_ok_def w_def)
    show "conns w ?p = Some c" by (simp add: w_def)
    show "\<not> st_log (rc_state c)" by (simp add: c_def)
    have "?p \<notin> set (authority (net s))" using ok new by (auto simp: world_ok_def)
    then show "conn_ok (authority w) ?p c" by (simp add: conn_ok_def w_def c_def)
  qed
  moreover have "clusters_ok {} (s\<lparr>net := w\<rparr>)"
    by (rule clusters_ok_same [OF server_okD(2) [OF s]]) (simp_all add: w_def)
  ultimately have s': "server_ok (s\<lparr>net := w\<rparr>)" by (simp add: server_ok_def)
  have "srv_step ?p (s\<lparr>net := w\<rparr>) (s\<lparr>net := raft_conn_free w ?p\<rparr>)"
    using free_idle [OF s', of ?p c] by (simp add: w_def)
  then have fr: "server_ok (s\<lparr>net := raft_conn_free w ?p\<rparr>)"
    "r \<noteq> ?p \<Longrightarrow> conns w r \<noteq> None \<Longrightarrow> conns (raft_conn_free w ?p) r \<noteq> None" by (simp_all add: srv_step_def)
  have e: "accept_one os s adm f = (if \<not> os_mem os (calls (net s))
      then s\<lparr>net := (net s)\<lparr>calls := calls (net s) + 1, closed := closed (net s) @ [f]\<rparr>\<rparr>
      else if os_mem os (calls (net s) + 1) then s\<lparr>net := w\<rparr> else s\<lparr>net := raft_conn_free w ?p\<rparr>)"
    by (simp add: accept_one_def raft_in_conn_malloc_def Let_def set_conn_def w_def c_def)
  show "server_ok (accept_one os s adm f)"
    using s s' fr(1) by (simp add: e server_ok_def clusters_ok_def)
  assume r: "conns (net s) r \<noteq> None"
  then have "r \<noteq> ?p" "conns w r \<noteq> None" using new by (auto simp: w_def)
  then show "conns (net (accept_one os s adm f)) r \<noteq> None" using r fr(2) by (simp add: e)
qed

text \<open>An event is about a live connection; an event of a member outside the cluster is dropped by the code.\<close>

lemma process_event_ok:
  assumes s: "server_ok s" and init: "l_index (cur_log s) = 0 \<Longrightarrow> s_state s = SERVER_STATE_FOLLOWER"
    and live: "\<And>p x y. e = Conn_Event (In p) x y \<Longrightarrow> conns (net s) (In p) \<noteq> None"
  shows "server_ok (process_event os e s)"
    "conns (net s) (In p) \<noteq> None \<Longrightarrow> \<nexists>x y. e = Conn_Event (In p) x y \<Longrightarrow> conns (net (process_event os e s)) (In p) \<noteq> None"
proof -
  have ev: "srv_step r s (process_event os e s)" if e: "e = Conn_Event r x y" for r x y
  proof (cases "halted s \<or> outgoing_ref r \<and> \<not> cluster_has_conn s r")
    case True
    then show ?thesis using srv_refl [OF s] by (auto simp: process_event_def e)
  next
    case False
    have alive: "conns (net s) r \<noteq> None" "outgoing_ref r \<Longrightarrow> s_state s \<noteq> SERVER_STATE_FOLLOWER"
    proof (atomize (full), cases r)
      case (In p)
      then show "conns (net s) r \<noteq> None \<and> (outgoing_ref r \<longrightarrow> s_state s \<noteq> SERVER_STATE_FOLLOWER)" using live e by simp
    next
      case (Out k i)
      then have k: "s_cluster s = Some k" "i < unat (members_n (cluster_at s k))"
        using False by (auto simp: cluster_has_conn_def split: option.splits)
      then have st: "s_state s \<noteq> SERVER_STATE_FOLLOWER" using s by (auto simp: server_ok_def clusters_ok_def)
      then have "clusters s k \<noteq> None" using current_cluster [OF s] k by simp
      then have "conns (net s) r \<noteq> None"
        by (rule cluster_conns_alive(1) [OF server_okD(2) [OF s]]) (use k Out in \<open>simp add: cluster_conns_def\<close>)
      then show "conns (net s) r \<noteq> None \<and> (outgoing_ref r \<longrightarrow> s_state s \<noteq> SERVER_STATE_FOLLOWER)" using st by simp
    qed
    then obtain c where c: "conns (net s) r = Some c" by blast
    note w = server_okD(1) [OF s]
    show ?thesis
      using False process_ok [OF s c alive(2) init, of os] local_net_ok [OF s c free_ok [OF w c]]
        local_net_ok [OF s c clear_ok [OF w c]] ok_conn(1) [OF w c] srv_refl [OF s, of r] c
      by (auto simp: process_event_def e conn_of_def)
  qed
  show "server_ok (process_event os e s)"
  proof (cases e)
    case (Conn_Event r x y)
    then show ?thesis using ev srv_ok by blast
  qed (use s process_timer_event_ok(1) [OF s] accept_one_ok(1) [OF s] in \<open>auto simp: process_event_def\<close>)
  assume p: "conns (net s) (In p) \<noteq> None" "\<nexists>x y. e = Conn_Event (In p) x y"
  show "conns (net (process_event os e s)) (In p) \<noteq> None"
  proof (cases e)
    case (Conn_Event r x y)
    then show ?thesis using ev [OF Conn_Event] p by (auto simp: srv_step_def)
  qed (use p process_timer_event_ok(2) [OF s, of "In p"] accept_one_ok(2) [OF s, of "In p"] in \<open>auto simp: process_event_def\<close>)
qed

section \<open>The end of a round\<close>

text \<open>Connections of members that hold nothing can be dropped.\<close>

lemma drop_conns_ok:
  assumes w: "world_ok ext Z w" and C: "\<And>r. C r = (if r \<in> R then None else conns w r)"
    and R: "\<And>r c. r \<in> R \<Longrightarrow> conns w r = Some c \<Longrightarrow> rc_state c = RAFT_CONN_STATE_NOT_CONNECTED"
  shows "world_ok ext Z (w\<lparr>conns := C\<rparr>)"
proof -
  have "lent (C r) = lent (conns w r)" for r
    using R [of r] by (cases "conns w r") (auto simp: C lent_Some)
  moreover have "finite (dom C)"
    by (rule finite_subset [of _ "dom (conns w)"]) (use w C in \<open>auto simp: world_ok_def refs_def split: if_splits\<close>)
  ultimately have "refs ext Z (logs w) C" using w by (simp add: world_ok_def refs_def holders_def)
  moreover have "r \<notin> R" if a: "r \<in> set (authority w)" for r
  proof
    assume r: "r \<in> R"
    obtain c where c: "conns w r = Some c" using w a by (auto simp: world_ok_def)
    then show False using R [OF r c] ok_conn(2) [OF w c] a by simp
  qed
  ultimately show ?thesis using w by (auto simp: world_ok_def C)
qed

lemma clear_fold:
  assumes "world_ok ext Z w" "distinct rs" "\<And>r. r \<in> set rs \<Longrightarrow> conns w r \<noteq> None \<and> outgoing_ref r"
  defines "g \<equiv> \<lambda>r w. if rc_state (conn_of w r) \<noteq> RAFT_CONN_STATE_NOT_CONNECTED then raft_conn_clear w r else w"
  shows "world_ok ext Z (fold g rs w) \<and> next_addr w \<le> next_addr (fold g rs w) \<and>
    (\<forall>r. r \<notin> set rs \<longrightarrow> conns (fold g rs w) r = conns w r) \<and>
    (\<forall>r \<in> set rs. \<exists>c. conns (fold g rs w) r = Some c \<and> rc_state c = RAFT_CONN_STATE_NOT_CONNECTED)"
  using assms(1-3)
proof (induction rs arbitrary: w)
  case (Cons r rs)
  obtain c where c: "conns w r = Some c" using Cons.prems(3) by fastforce
  have st: "local_step ext Z r w (g r w)"
    using clear_ok [OF Cons.prems(1) c] Cons.prems(3) local_step_refl [OF Cons.prems(1), of r] by (simp add: g_def c)
  have nc: "\<exists>c. conns (g r w) r = Some c \<and> rc_state c = RAFT_CONN_STATE_NOT_CONNECTED"
    using c by (simp add: g_def conn_of_def raft_conn_clear_def raft_conn_return_log_def Let_def)
  have IH: "world_ok ext Z (fold g rs (g r w)) \<and> next_addr (g r w) \<le> next_addr (fold g rs (g r w)) \<and>
    (\<forall>r'. r' \<notin> set rs \<longrightarrow> conns (fold g rs (g r w)) r' = conns (g r w) r') \<and>
    (\<forall>r' \<in> set rs. \<exists>c. conns (fold g rs (g r w)) r' = Some c \<and> rc_state c = RAFT_CONN_STATE_NOT_CONNECTED)"
  proof (rule Cons.IH)
    show "conns (g r w) r' \<noteq> None \<and> outgoing_ref r'" if "r' \<in> set rs" for r'
      using st Cons.prems(2) Cons.prems(3) [of r'] that by (auto simp: local_step_def)
  qed (use Cons.prems(2) st in \<open>simp_all add: local_step_def\<close>)
  have "r \<notin> set rs" using Cons.prems(2) by simp
  with IH nc st show ?case by (auto simp: local_step_def)
qed simp

lemma cluster_free_ok:
  assumes s: "server_ok (s\<lparr>stale_cluster := k # ks\<rparr>)"
  shows "server_ok ((cluster_free k s)\<lparr>stale_cluster := ks\<rparr>)"
proof -
  let ?g = "\<lambda>r w. if rc_state (conn_of w r) \<noteq> RAFT_CONN_STATE_NOT_CONNECTED then raft_conn_clear w r else w"
  let ?s = "s\<lparr>stale_cluster := k # ks\<rparr>" and ?rs = "cluster_conns s k"
  define w where "w = fold ?g ?rs (net s)"
  define C where "C = (\<lambda>r. case r of Out k' i \<Rightarrow> if k' = k then None else conns w r | In p \<Rightarrow> conns w r)"
  have cl: "clusters_ok {} ?s" by (rule server_okD(2) [OF s])
  have dom: "dom (clusters s) = set (k # ks) \<union> set_option (s_cluster s)" and k: "k \<notin> set ks" "s_cluster s \<noteq> Some k" "distinct ks"
    using cl unfolding clusters_ok_def by auto
  then obtain c0 where c0: "clusters s k = Some c0" by auto
  then have "clusters ?s k \<noteq> None" by simp
  note al = cluster_conns_alive [OF cl this]
  have rs: "cluster_conns ?s k = ?rs" by (simp add: cluster_conns_def cluster_at_def)
  have f: "world_ok (own (s_log s)) {} w \<and> next_addr (net s) \<le> next_addr w \<and> (\<forall>r. r \<notin> set ?rs \<longrightarrow> conns w r = conns (net s) r) \<and>
    (\<forall>r \<in> set ?rs. \<exists>c. conns w r = Some c \<and> rc_state c = RAFT_CONN_STATE_NOT_CONNECTED)"
    unfolding w_def by (rule clear_fold) (use server_okD(1) [OF s] al rs in auto)
  have in_rs: "Out k i \<in> set ?rs \<longleftrightarrow> conns (net s) (Out k i) \<noteq> None" for i
  proof -
    have "conns (net s) (Out k i) \<noteq> None \<longleftrightarrow> i < unat (members_n c0)" using cl c0 by (simp add: clusters_ok_def)
    then show ?thesis by (auto simp: cluster_conns_def cluster_at_def c0)
  qed
  have w: "world_ok (own (s_log s)) {} (w\<lparr>conns := C\<rparr>)"
  proof (rule drop_conns_ok [where R = "range (Out k)"])
    show "C r = (if r \<in> range (Out k) then None else conns w r)" for r by (auto simp: C_def split: conn_ref.split)
    show "rc_state c = RAFT_CONN_STATE_NOT_CONNECTED" if r: "r \<in> range (Out k)" "conns w r = Some c" for r c
    proof -
      obtain i where i: "r = Out k i" using r(1) by blast
      then have "r \<in> set ?rs" using in_rs [of i] f r(2) by (cases "r \<in> set ?rs") auto
      then show ?thesis using f r(2) by auto
    qed
  qed (use f in blast)
  have "conns w (Out k' i) \<noteq> None \<longleftrightarrow> (\<exists>cl. clusters s k' = Some cl \<and> i < unat (members_n cl))" if "k' \<noteq> k" for k' i
  proof -
    have "Out k' i \<notin> set ?rs" using that by (auto simp: cluster_conns_def)
    then show ?thesis using f cl by (simp add: clusters_ok_def)
  qed
  moreover have "clusters s k' = None" if "next_addr w \<le> k'" for k'
    using f cl that by (simp add: clusters_ok_def)
  ultimately have "clusters_ok {} (s\<lparr>clusters := (clusters s)(k := None), net := w\<lparr>conns := C\<rparr>, stale_cluster := ks\<rparr>)"
    using cl dom k unfolding clusters_ok_def by (auto simp: C_def)
  moreover have "cluster_free k s = s\<lparr>clusters := (clusters s)(k := None), net := w\<lparr>conns := C\<rparr>\<rparr>"
  proof -
    have "fold (\<lambda>r s. if rc_state (conn_of (net s) r) \<noteq> RAFT_CONN_STATE_NOT_CONNECTED then s\<lparr>net := raft_conn_clear (net s) r\<rparr> else s) rs s
        = s\<lparr>net := fold ?g rs (net s)\<rparr>" for rs and s :: server
      by (induction rs arbitrary: s) simp_all
    note e = this [of ?rs s, folded w_def]
    show ?thesis unfolding cluster_free_def Let_def e C_def by (simp cong: conn_ref.case_cong if_cong)
  qed
  ultimately show ?thesis using w by (simp add: server_ok_def)
qed

lemma free_stale_ok:
  "server_ok (s\<lparr>stale_cluster := ks\<rparr>) \<Longrightarrow> server_ok ((fold cluster_free ks s)\<lparr>stale_cluster := []\<rparr>)"
proof (induction ks arbitrary: s)
  case (Cons k ks)
  then show ?case using cluster_free_ok [where s = s and k = k and ks = ks] by simp
qed simp

lemma free_authority_ok:
  assumes "server_ok s" "distinct rs" "\<And>r. r \<in> set rs \<Longrightarrow> conns (net s) r \<noteq> None \<and> \<not> outgoing_ref r"
  shows "server_ok (s\<lparr>net := fold (\<lambda>r w. raft_conn_free w r) rs (net s)\<rparr>)"
proof -
  let ?f = "\<lambda>r s. s\<lparr>net := raft_conn_free (net s) r\<rparr>"
  have "server_ok (fold ?f rs s) \<and> (\<forall>r. r \<notin> set rs \<or> outgoing_ref r \<longrightarrow> conns (net s) r \<noteq> None \<longrightarrow> conns (net (fold ?f rs s)) r \<noteq> None)"
    by (rule srv_fold) (use assms free_idle in auto)
  then show ?thesis by (simp add: fold_net [of "\<lambda>r w. raft_conn_free w r"])
qed

lemma end_round_ok:
  assumes s: "server_ok s"
  shows "server_ok (end_round os s)" "stale_cluster (end_round os s) = []"
proof -
  define s1 where "s1 = (if s_state s = SERVER_STATE_LEADER then replicate_entry os s
      else s\<lparr>net := fold (\<lambda>r w. raft_conn_free w r) (authority (net s)) (net s)\<rparr>)"
  have "distinct (authority (net s))" using server_okD(1) [OF s] by (simp add: world_ok_def)
  then have "server_ok s1"
    unfolding s1_def using replicate_entry_ok [OF s, of os] free_authority_ok [OF s, of "authority (net s)"] auth_incoming [OF s]
    by auto
  then have "server_ok (s1\<lparr>stale_cluster := stale_cluster s1\<rparr>)" by simp
  then show "server_ok (end_round os s)" "stale_cluster (end_round os s) = []"
    using free_stale_ok [where s = s1 and ks = "stale_cluster s1"] by (simp_all add: end_round_def Let_def s1_def [symmetric])
qed

section \<open>Whole runs\<close>

lemma events_step:
  assumes "server_ok s" "deliverable events s" "initialised os events s"
  shows "server_ok (fold (process_event os) events s)"
  using assms
proof (induction events arbitrary: s)
  case (Cons e es)
  have live: "conns (net s) (In p) \<noteq> None" if "e = Conn_Event (In p) x y" for p x y
    using Cons.prems(2) that by (auto simp: deliverable_def)
  have init: "l_index (cur_log s) = 0 \<Longrightarrow> s_state s = SERVER_STATE_FOLLOWER" using Cons.prems(3) by simp
  note p = process_event_ok [OF Cons.prems(1) init live]
  have "deliverable es (process_event os e s)"
    unfolding deliverable_def
  proof (intro conjI allI impI ballI)
    show "distinct (concat (map event_conn es))" using Cons.prems(2) by (auto simp: deliverable_def)
    show "conns (net (process_event os e s)) (In q) \<noteq> None" if q: "q \<in> set (concat (map event_conn es))" for q
    proof (rule p(2))
      show "conns (net s) (In q) \<noteq> None" using Cons.prems(2) q by (auto simp: deliverable_def)
      show "\<nexists>x y. e = Conn_Event (In q) x y" using Cons.prems(2) q by (auto simp: deliverable_def)
    qed
  qed
  then show ?case using Cons.IH [OF p(1)] Cons.prems(3) by simp
qed simp

lemma server_round_ok:
  assumes "server_ok s" "deliverable events s" "initialised os events s"
  shows "server_ok (server_round os events s)"
  using events_step [OF assms] end_round_ok(1) by (simp add: server_round_def Let_def)

lemma init_ok: "server_ok (must_server_init s0)"
proof -
  let ?a = "next_addr (net s0)"
  have "refs (own ?a) {} [?a \<mapsto> zero_log\<lparr>refcount := 1\<rparr>] Map.empty"
    by (auto simp: refs_def holders_def log_counted_def own_def)
  then show ?thesis
    by (auto simp: must_server_init_def Let_def new_log_def server_borrow_log_def borrow_log_def log_of_def log_borrow_def
        server_ok_def world_ok_def clusters_ok_def reset_follower_def zero_log_def)
qed

lemma running_ok: "running s \<Longrightarrow> server_ok s"
  by (induction rule: running.induct) (simp_all add: init_ok server_round_ok)

section \<open>Properties\<close>

lemma example_running: "running example_server"
  unfolding example_server_def
  by (rule running.round [OF running.start])
    (simp_all add: deliverable_def must_server_init_def Let_def new_log_def server_borrow_log_def borrow_log_def
      reset_follower_def example_start_def)

lemma example_conns:
  "conns (net example_server) (In 1) = Some (raft_conn_set_io RAFT_CONN_STATE_IN_CMD RAFT_CONN_BUFFER_SIZE (example_conn\<lparr>fd := 5, admin := True\<rparr>))"
  "s_log example_server = 0" "logs (net example_server) 0 = Some (zero_log\<lparr>refcount := 1\<rparr>)"
  by (simp_all add: example_server_def server_round_def process_event_def accept_one_def raft_in_conn_malloc_def set_conn_def
      end_round_def Let_def must_server_init_def new_log_def server_borrow_log_def borrow_log_def log_of_def log_borrow_def
      reset_follower_def example_start_def example_os_def zero_log_def)

text \<open>
  (C2) In every state the event loop reaches, the reference count of every log in memory is the number
  of connections that hold it plus one for the server's own log, it is positive, and neither the
  server nor a connection holds a log that is not in memory: logs are never used after they are
  freed, freed twice or leaked.
\<close>

theorem logs_counted:
  assumes "running s"
  shows "case logs (net s) a of
      None \<Rightarrow> a \<noteq> s_log s \<and> (\<nexists>r c. conns (net s) r = Some c \<and> conn_borrowed_log c \<and> rc_log c = a)
    | Some l \<Rightarrow> 0 < refcount l \<and>
        refcount l = int (card {r. \<exists>c. conns (net s) r = Some c \<and> conn_borrowed_log c \<and> rc_log c = a} + (if a = s_log s then 1 else 0))"
proof -
  let ?H = "{r. \<exists>c. conns (net s) r = Some c \<and> conn_borrowed_log c \<and> rc_log c = a}"
  have h: "holders (conns (net s)) a = ?H"
    by (auto simp: holders_def lent_def split: option.splits if_splits)
  have r: "refs (own (s_log s)) {} (logs (net s)) (conns (net s))"
    using server_okD(1) [OF running_ok [OF assms]] by (simp add: world_ok_def)
  then have lc: "log_counted (card ?H + own (s_log s) a) False (logs (net s) a)" unfolding h [symmetric] by (auto simp: refs_def)
  have fin: "finite ?H" unfolding h [symmetric] by (rule finite_holders) (use r in \<open>simp add: refs_def\<close>)
  show ?thesis
  proof (cases "logs (net s) a")
    case None
    then have "card ?H = 0" "a \<noteq> s_log s" using lc by (simp_all add: log_counted_def own_def split: if_splits)
    moreover have "?H = {}" using fin calculation(1) by (simp only: card_0_eq)
    ultimately show ?thesis using None by (simp del: borrowed_st)
  next
    case (Some l)
    then show ?thesis using lc by (simp add: log_counted_def own_def del: borrowed_st split: if_splits)
  qed
qed

theorem logs_counted_witness:
  "running example_server \<and> logs (net example_server) 0 \<noteq> None \<and>
   refcount (the (logs (net example_server) 0)) = int (card {r. \<exists>c. conns (net example_server) r = Some c \<and> conn_borrowed_log c \<and> rc_log c = 0} + 1)"
  using example_running logs_counted [OF example_running, of 0] example_conns(2,3) by simp

text \<open>
  (C4) In every state the event loop reaches, a connection in memory is in an outgoing state exactly
  when it is embedded in a member of a cluster in memory, and in an authority state exactly when it
  is on the list of authority connections.
\<close>

theorem connections_typed:
  assumes "running s" "conns (net s) r = Some c"
  shows "(raft_conn_outgoing c \<longleftrightarrow> (\<exists>k i cl. r = Out k i \<and> clusters s k = Some cl \<and> i < unat (members_n cl))) \<and>
    (state_code RAFT_CONN_STATE_AUTHORITY_DIVIDER < state_code (rc_state c) \<longleftrightarrow> r \<in> set (authority (net s)))"
proof -
  note s = running_ok [OF assms(1)]
  note w = server_okD(1) [OF s]
  have "\<exists>cl. clusters s k = Some cl \<and> i < unat (members_n cl)" if "r = Out k i" for k i
    using server_okD(2) [OF s, unfolded clusters_ok_def, THEN conjunct1, THEN spec, of k, THEN spec, of i] assms(2) that by simp
  then show ?thesis
    using ok_conn [OF w assms(2)] by (cases r) (auto simp del: st_auth_iff)
qed

theorem connections_typed_witness:
  "running example_server \<and> (\<exists>c. conns (net example_server) (In 1) = Some c \<and> \<not> raft_conn_outgoing c \<and> In 1 \<notin> set (authority (net example_server)))"
  using connections_typed [OF example_running example_conns(1)] example_running example_conns(1) by (simp add: EPOLLIN_def)

text \<open>
  (C5) After a round that does not end the process, no retired cluster is left: the clusters in
  memory are the current one, if the server is not a follower, and the connections to members in
  memory are exactly those of its members.
\<close>

theorem round_frees_clusters:
  assumes "running s" "\<not> halted s" "deliverable events s" "initialised os events s" "s' = server_round os events s" "\<not> halted s'"
  shows "stale_cluster s' = [] \<and> dom (clusters s') = set_option (s_cluster s') \<and>
    (s_cluster s' = None \<longleftrightarrow> s_state s' = SERVER_STATE_FOLLOWER) \<and>
    (conns (net s') (Out k i) \<noteq> None \<longleftrightarrow> s_cluster s' = Some k \<and> i < unat (members_n (the (clusters s' k))))"
proof -
  have s': "server_ok s'" using running_ok [OF assms(1)] assms(3-5) server_round_ok by blast
  note cl = server_okD(2) [OF s']
  have e: "s' = end_round os (fold (process_event os) events s)"
    using assms(5,6) by (auto simp: server_round_def Let_def split: if_splits)
  have "server_ok (fold (process_event os) events s)" by (rule events_step [OF running_ok [OF assms(1)] assms(3,4)])
  then have st: "stale_cluster s' = []" unfolding e by (rule end_round_ok(2))
  then have d: "dom (clusters s') = set_option (s_cluster s')" using cl by (simp add: clusters_ok_def)
  have "s_cluster s' = Some k" if "clusters s' k = Some c" for c
    using d domI [of "clusters s'", OF that] by (cases "s_cluster s'") simp_all
  moreover have "clusters s' k \<noteq> None" if "s_cluster s' = Some k" using d that by auto
  moreover have "conns (net s') (Out k i) \<noteq> None \<longleftrightarrow> (\<exists>cl. clusters s' k = Some cl \<and> i < unat (members_n cl))"
    using cl unfolding clusters_ok_def by blast
  ultimately have "conns (net s') (Out k i) \<noteq> None \<longleftrightarrow> s_cluster s' = Some k \<and> i < unat (members_n (the (clusters s' k)))" by auto
  moreover have "s_cluster s' = None \<longleftrightarrow> s_state s' = SERVER_STATE_FOLLOWER" using cl by (simp add: clusters_ok_def)
  ultimately show ?thesis using st d by blast
qed

theorem round_frees_clusters_witness:
  "\<not> halted example_server \<and> stale_cluster example_server = [] \<and> dom (clusters example_server) = set_option (s_cluster example_server)"
proof -
  have st: "\<not> halted (must_server_init example_start)" "deliverable [Accept_Event True 5] (must_server_init example_start)"
    "initialised example_os [Accept_Event True 5] (must_server_init example_start)"
    by (simp_all add: deliverable_def must_server_init_def Let_def new_log_def server_borrow_log_def borrow_log_def
      reset_follower_def example_start_def)
  have nh: "\<not> halted example_server"
    by (simp add: example_server_def server_round_def process_event_def accept_one_def raft_in_conn_malloc_def set_conn_def
      end_round_def Let_def must_server_init_def new_log_def server_borrow_log_def borrow_log_def
      reset_follower_def example_start_def example_os_def)
  show ?thesis using round_frees_clusters [OF running.start st example_server_def nh, of 0 0] nh by blast
qed

end
