(* ===== verification/Quorum.thy ===== *)
theory Quorum
  imports Raft_Memory
begin

text \<open>
  The members of a cluster represent the configurations of its log, and the votes a cluster requires
  are majorities of both: any two decisions that share a configuration share a machine.
\<close>

section \<open>Definitions\<close>

text \<open>The identifiers of the old and of the new configuration of a log.\<close>

definition old_ids :: "log \<Rightarrow> u32 list" where
  "old_ids log = map machine_id (take (unat (old_n log)) (l_machines log))"

definition new_ids :: "log \<Rightarrow> u32 list" where
  "new_ids log = map machine_id (drop (unat (old_n log)) (l_machines log))"

text \<open>
  What the construction of a cluster relies on: identifiers are distinct within a configuration, the
  log knows how many machines there are, and except in an adjustment the shorter configuration is the
  beginning of the longer.
\<close>

definition joint_log :: "log \<Rightarrow> bool" where
  "joint_log log \<longleftrightarrow>
     length (l_machines log) = unat (old_n log) + unat (new_n log) \<and>
     distinct (old_ids log) \<and> distinct (new_ids log) \<and> old_n log \<noteq> 0 \<and>
     unat (distinct_machines_n log) = card (set (old_ids log) \<union> set (new_ids log)) \<and>
     unat (distinct_machines_n log) < 2 ^ 32 \<and>
     (if l_type log = LOG_TYPE_ADJUST then new_n log = old_n log
      else let k = min (unat (old_n log)) (unat (new_n log)) in take k (old_ids log) = take k (new_ids log))"

definition pair :: "member \<Rightarrow> u32 \<times> u8" where
  "pair m = (mb_id m, mb_type m)"

text \<open>The type of a machine in both configurations, the old one or the new one.\<close>

definition type_of :: "u32 set \<Rightarrow> u32 set \<Rightarrow> u32 \<Rightarrow> u8" where
  "type_of O' N i = (if i \<in> O' then MEMBER_TYPE_OLD else 0) + (if i \<in> N then MEMBER_TYPE_NEW else 0)"

text \<open>Members represent two configurations seen from one machine: each other machine once, with its type.\<close>

definition represents :: "u32 set \<Rightarrow> u32 set \<Rightarrow> u32 \<Rightarrow> member list \<Rightarrow> bool" where
  "represents O' N l ms \<longleftrightarrow>
     distinct (map mb_id ms) \<and> set (map pair ms) = (\<lambda>i. (i, type_of O' N i)) ` (O' \<union> N - {l})"

text \<open>The machines that approve, and whether their votes are those the cluster requires.\<close>

definition voters :: "(member \<Rightarrow> bool) \<Rightarrow> member list \<Rightarrow> u32 set" where
  "voters P ms = mb_id ` {m \<in> set ms. P m}"

definition approves :: "cluster \<Rightarrow> u32 set \<Rightarrow> bool" where
  "approves cl V \<longleftrightarrow>
     (let ms = filter (\<lambda>m. mb_id m \<in> V) (cluster_members cl)
      in sum_list (map (\<lambda>m. MEMBER_IN_OLD (mb_type m)) ms) \<ge> require_old_votes cl \<and>
         sum_list (map (\<lambda>m. MEMBER_IN_NEW (mb_type m)) ms) \<ge> require_new_votes cl)"

text \<open>More than half of a configuration, and the configurations a log has.\<close>

definition majority_of :: "u32 set \<Rightarrow> u32 set \<Rightarrow> bool" where
  "majority_of C S \<longleftrightarrow> finite C \<and> card C < 2 * card (S \<inter> C)"

definition configs :: "log \<Rightarrow> u32 set set" where
  "configs log = {set (old_ids log)} \<union> (if new_ids log = [] then {} else {set (new_ids log)})"

text \<open>
  The candidate of a cluster has counted the votes of the machines \<open>V\<close>: what it still requires is
  what the cluster requires without them.
\<close>

definition counted :: "cluster \<Rightarrow> member list \<Rightarrow> u32 set \<Rightarrow> server \<Rightarrow> bool" where
  "counted cl ms V s \<longleftrightarrow>
     V \<subseteq> mb_id ` set ms \<and>
     (let votes = filter (\<lambda>m. mb_id m \<in> V) ms
      in required_old_votes s = require_old_votes cl - sum_list (map (\<lambda>m. MEMBER_IN_OLD (mb_type m)) votes) \<and>
         required_new_votes s = require_new_votes cl - sum_list (map (\<lambda>m. MEMBER_IN_NEW (mb_type m)) votes))"

text \<open>A log that replaces the fourth of four machines.\<close>

definition replace_log :: log where
  "replace_log = small_log\<lparr>l_type := LOG_TYPE_ADJUST, new_n := 4, distinct_machines_n := 5,
     l_machines := l_machines small_log @ take 3 (l_machines small_log) @ [small_machine 5 5 1 5]\<rparr>"

text \<open>
  The candidate 1 of that log in term 3, which has the vote of machine 3 and waits for the answer of
  machine 2, and the answers that grant and deny it.
\<close>

definition replace_cluster :: cluster where
  "replace_cluster = the (cluster_malloc (Some (\<lambda>_. 0)) replace_log 1)"

definition vote_server :: server where
  "vote_server = example_start\<lparr>
     net := (net example_start)\<lparr>logs := [0 \<mapsto> replace_log],
       conns := [Out 0 0 \<mapsto> example_conn\<lparr>unio := REQUEST_VOTE_RES_SIZE, rc_state := RAFT_CONN_STATE_REQUEST_VOTE_IN\<rparr>]\<rparr>,
     s_id := 1, s_term := 3, s_state := SERVER_STATE_CANDIDATE, s_cluster := Some 0, clusters := [0 \<mapsto> replace_cluster],
     required_old_votes := require_old_votes replace_cluster - 1,
     required_new_votes := require_new_votes replace_cluster - 1\<rparr>"

definition vote_os :: "u64 \<Rightarrow> bool \<Rightarrow> os" where
  "vote_os trm granted = example_os\<lparr>os_io := (\<lambda>_. Moved (put_request_vote_res \<lparr>vr_term = trm, vr_granted = granted\<rparr> (replicate 16 0)))\<rparr>"

section \<open>Searching members\<close>

lemma members_search_id_Some:
  assumes "members_search_id ms n i = Some k"
  shows "k < n" "mb_id (ms ! k) = i"
  using bsearch_sound [of "\<lambda>k. member_id_cmp i (mb_id (ms ! k))" "[0..<n]" 0 n k] assms
  by (auto simp: members_search_id_def member_id_cmp_def split: if_splits)

lemma members_search_id_None:
  assumes "members_search_id ms n i = None" "sorted_wrt (<) (map mb_id (take n ms))" "n \<le> length ms" "k < n"
  shows "mb_id (ms ! k) \<noteq> i"
proof -
  have less: "mb_id (ms ! a) < mb_id (ms ! b)" if "a < b" "b < n" for a b
    using assms(2,3) that by (auto simp: sorted_wrt_iff_nth_less)
  have "member_id_cmp i (mb_id (ms ! ([0..<n] ! k))) \<noteq> 0"
  proof (rule bsearch_complete [where cmp = "\<lambda>k. member_id_cmp i (mb_id (ms ! k))" and l = 0 and u = n])
    show "bsearch (\<lambda>k. member_id_cmp i (mb_id (ms ! k))) [0..<n] 0 n = None"
      using assms(1) by (simp add: members_search_id_def)
    show "member_id_cmp i (mb_id (ms ! ([0..<n] ! a))) > 0"
      if "a < b" "b < n" "member_id_cmp i (mb_id (ms ! ([0..<n] ! b))) \<ge> 0" for a b
      using less [of a b] that by (auto simp: member_id_cmp_def split: if_splits)
  qed (use assms(4) in simp_all)
  then show ?thesis using assms(4) by (auto simp: member_id_cmp_def)
qed

section \<open>Building the members\<close>

lemma init_members_pairs:
  "map pair (init_members round0 k t ms l) = map (\<lambda>m. (machine_id m, t)) (filter (\<lambda>m. machine_id m \<noteq> l) ms)"
  by (induction round0 k t ms l rule: init_members.induct) (simp_all add: pair_def init_member_def)

lemma fst_pairs: "map fst (map pair ms) = map mb_id ms"
  by (simp add: pair_def comp_def)

lemma adjust_members_pairs:
  assumes "n \<le> length ms" "sorted_wrt (<) (map mb_id (take n ms))"
  defines "ids \<equiv> map machine_id"
  shows "map pair (adjust_members round0 n ms news l) =
    map (\<lambda>p. if fst p \<in> set (ids news) \<and> fst p \<noteq> l then (fst p, MEMBER_TYPE_ALL) else p) (take n (map pair ms)) @
    drop n (map pair ms) @
    map (\<lambda>i. (i, MEMBER_TYPE_NEW)) (filter (\<lambda>i. i \<noteq> l \<and> i \<notin> set (map mb_id (take n ms))) (ids news))"
  using assms(1,2)
proof (induction news arbitrary: ms)
  case Nil
  then show ?case by (simp add: ids_def)
next
  case (Cons m news)
  let ?i = "machine_id m"
  show ?case
  proof (cases "?i = l")
    case True
    then show ?thesis using Cons.IH [OF Cons.prems] by (simp add: ids_def cong: if_cong)
  next
    case i: False
    show ?thesis
    proof (cases "members_search_id ms n ?i")
      case None
      have nin: "?i \<notin> set (map mb_id (take n ms))"
      proof
        assume "?i \<in> set (map mb_id (take n ms))"
        then obtain k where "k < n" "mb_id (ms ! k) = ?i" by (auto simp: in_set_conv_nth)
        then show False using members_search_id_None [OF None Cons.prems(2,1)] by blast
      qed
      let ?ms = "ms @ [init_member (round0 (length ms)) m MEMBER_TYPE_NEW]"
      have p: "take n (map pair ?ms) = take n (map pair ms)" "drop n (map pair ?ms) = drop n (map pair ms) @ [(?i, MEMBER_TYPE_NEW)]"
        "map mb_id (take n ?ms) = map mb_id (take n ms)"
        using Cons.prems(1) by (simp_all add: pair_def init_member_def)
      have c: "map (\<lambda>p. if fst p \<in> set (ids (m # news)) \<and> fst p \<noteq> l then (fst p, MEMBER_TYPE_ALL) else p) (take n (map pair ms)) =
        map (\<lambda>p. if fst p \<in> set (ids news) \<and> fst p \<noteq> l then (fst p, MEMBER_TYPE_ALL) else p) (take n (map pair ms))"
      proof (rule map_cong)
        fix p assume "p \<in> set (take n (map pair ms))"
        then have "fst p \<in> set (map mb_id (take n ms))" by (auto simp: take_map pair_def)
        then have "fst p \<noteq> ?i" using nin by auto
        then show "(if fst p \<in> set (ids (m # news)) \<and> fst p \<noteq> l then (fst p, MEMBER_TYPE_ALL) else p) =
            (if fst p \<in> set (ids news) \<and> fst p \<noteq> l then (fst p, MEMBER_TYPE_ALL) else p)" by (simp add: ids_def)
      qed simp
      have "map pair (adjust_members round0 n ?ms news l) =
        map (\<lambda>p. if fst p \<in> set (ids news) \<and> fst p \<noteq> l then (fst p, MEMBER_TYPE_ALL) else p) (take n (map pair ?ms)) @
        drop n (map pair ?ms) @
        map (\<lambda>i. (i, MEMBER_TYPE_NEW)) (filter (\<lambda>i. i \<noteq> l \<and> i \<notin> set (map mb_id (take n ?ms))) (ids news))"
        by (rule Cons.IH) (use Cons.prems p(3) in simp_all)
      then show ?thesis
        unfolding c p using i nin None by (simp add: ids_def)
    next
      case (Some k)
      note k = members_search_id_Some [OF Some]
      let ?ms = "ms[k := (ms ! k)\<lparr>mb_type := MEMBER_TYPE_ALL\<rparr>]"
      have id: "map mb_id ?ms = map mb_id ms" using k Cons.prems(1) by (simp add: map_update list_update_same_conv)
      have tk: "map mb_id (take n ?ms) = map mb_id (take n ms)" by (simp only: id take_map [symmetric])
      have inn: "?i \<in> set (map mb_id (take n ms))"
        using nth_mem [of k "map mb_id (take n ms)"] k Cons.prems(1) by simp
      have pr: "map pair ?ms = (map pair ms)[k := (?i, MEMBER_TYPE_ALL)]"
        using k by (simp add: map_update pair_def)
      have IH: "map pair (adjust_members round0 n ?ms news l) =
        map (\<lambda>p. if fst p \<in> set (ids news) \<and> fst p \<noteq> l then (fst p, MEMBER_TYPE_ALL) else p) (take n (map pair ?ms)) @
        drop n (map pair ?ms) @
        map (\<lambda>i. (i, MEMBER_TYPE_NEW)) (filter (\<lambda>i. i \<noteq> l \<and> i \<notin> set (map mb_id (take n ?ms))) (ids news))"
        by (rule Cons.IH) (use Cons.prems tk in simp_all)
      have "map (\<lambda>p. if fst p \<in> set (ids news) \<and> fst p \<noteq> l then (fst p, MEMBER_TYPE_ALL) else p) (take n (map pair ?ms)) =
        map (\<lambda>p. if fst p \<in> set (ids (m # news)) \<and> fst p \<noteq> l then (fst p, MEMBER_TYPE_ALL) else p) (take n (map pair ms))"
      proof (rule nth_equalityI)
        fix j assume "j < length (map (\<lambda>p. if fst p \<in> set (ids news) \<and> fst p \<noteq> l then (fst p, MEMBER_TYPE_ALL) else p) (take n (map pair ?ms)))"
        then have j: "j < n" "j < length ms" by simp_all
        have "distinct (map mb_id (take n ms))" using Cons.prems(2) by (simp only: strict_sorted_iff)
        then have "mb_id (ms ! j) \<noteq> ?i" if "j \<noteq> k"
          using nth_eq_iff_index_eq [of "map mb_id (take n ms)" j k] j k that Cons.prems(1) by simp
        then show "map (\<lambda>p. if fst p \<in> set (ids news) \<and> fst p \<noteq> l then (fst p, MEMBER_TYPE_ALL) else p) (take n (map pair ?ms)) ! j =
          map (\<lambda>p. if fst p \<in> set (ids (m # news)) \<and> fst p \<noteq> l then (fst p, MEMBER_TYPE_ALL) else p) (take n (map pair ms)) ! j"
          using j k i by (cases "j = k") (simp_all add: pair_def ids_def)
      qed simp
      then show ?thesis
        using i Some inn k(1) IH unfolding tk by (simp add: ids_def pr)
    qed
  qed
qed

lemma members_sort_by_id_eq: "members_sort_by_id ms = sort_key mb_id ms"
  unfolding members_sort_by_id_def by (rule qsort_key) (auto simp: member_id_cmp_def)

text \<open>Representation is a property of the identifiers and types, in any order.\<close>

lemma represents_sort: "represents O' N l (members_sort_by_id ms) \<longleftrightarrow> represents O' N l ms"
proof -
  have m: "mset (members_sort_by_id ms) = mset ms" by (simp add: members_sort_by_id_eq)
  have "distinct (map mb_id (members_sort_by_id ms)) = distinct (map mb_id ms)" by (rule distinct_map_perm [OF m])
  moreover have "set (map pair (members_sort_by_id ms)) = set (map pair ms)" using m by (metis set_map set_mset_mset)
  ultimately show ?thesis by (simp add: represents_def)
qed

lemma type_of_simps:
  "i \<in> O' \<Longrightarrow> i \<in> N \<Longrightarrow> type_of O' N i = MEMBER_TYPE_ALL" "i \<in> O' \<Longrightarrow> i \<notin> N \<Longrightarrow> type_of O' N i = MEMBER_TYPE_OLD"
  "i \<notin> O' \<Longrightarrow> i \<in> N \<Longrightarrow> type_of O' N i = MEMBER_TYPE_NEW"
  by (simp_all add: type_of_def MEMBER_TYPE_ALL_def)

lemma represents_pairsI:
  assumes "distinct (map fst ps)" "map pair ms = ps" "fst ` set ps = O' \<union> N - {l}" "\<And>i t. (i, t) \<in> set ps \<Longrightarrow> t = type_of O' N i"
  shows "represents O' N l ms"
proof -
  have "set ps = (\<lambda>i. (i, type_of O' N i)) ` fst ` set ps" using assms(4) by (force simp: image_image)
  moreover have "map mb_id ms = map fst ps" using assms(2) fst_pairs [of ms] by simp
  ultimately show ?thesis unfolding represents_def assms(2) assms(3) [symmetric] using assms(1) by simp
qed

lemma init_adjust_represents:
  assumes "joint_log log" "l_type log = LOG_TYPE_ADJUST"
  shows "represents (set (old_ids log)) (set (new_ids log)) l (init_adjust round0 log l)"
proof -
  let ?n = "unat (old_n log)" and ?olds = "old_ids log" and ?news = "new_ids log"
  define ms0 where "ms0 = init_members round0 0 MEMBER_TYPE_OLD (take ?n (l_machines log)) l"
  define ms where "ms = members_sort_by_id ms0"
  have len: "length (l_machines log) = ?n + ?n" using assms by (simp add: joint_log_def)
  then have news: "take ?n (drop ?n (l_machines log)) = drop ?n (l_machines log)" by simp
  have p0: "map pair ms0 = map (\<lambda>i. (i, MEMBER_TYPE_OLD)) (filter (\<lambda>i. i \<noteq> l) ?olds)"
    by (simp add: ms0_def init_members_pairs old_ids_def filter_map comp_def)
  have i0: "map mb_id ms0 = filter (\<lambda>i. i \<noteq> l) ?olds"
    using arg_cong [OF p0, of "map fst"] by (simp add: pair_def comp_def)
  have perm: "mset ms = mset ms0" by (simp add: ms_def members_sort_by_id_eq)
  have set_p: "set (map pair ms) = (\<lambda>i. (i, MEMBER_TYPE_OLD)) ` (set ?olds - {l})"
  proof -
    have "set ms = set ms0" using perm by (metis set_mset_mset)
    then have "set (map pair ms) = set (map pair ms0)" by simp
    then show ?thesis unfolding p0 by auto
  qed
  have ids: "distinct (map mb_id ms)" "set (map mb_id ms) = set ?olds - {l}"
  proof -
    show "distinct (map mb_id ms)"
      using distinct_map_perm [OF perm, of mb_id] i0 assms(1) by (simp add: joint_log_def)
    have "set (map mb_id ms) = fst ` set (map pair ms)" by (simp add: pair_def image_image)
    then show "set (map mb_id ms) = set ?olds - {l}" unfolding set_p by (simp add: image_image)
  qed
  have srt: "sorted_wrt (<) (map mb_id (take (length ms) ms))"
    using ids(1) by (simp add: strict_sorted_iff ms_def members_sort_by_id_eq)
  define ps where "ps = map (\<lambda>p. if fst p \<in> set ?news \<and> fst p \<noteq> l then (fst p, MEMBER_TYPE_ALL) else p) (map pair ms) @
    map (\<lambda>i. (i, MEMBER_TYPE_NEW)) (filter (\<lambda>i. i \<noteq> l \<and> i \<notin> set (map mb_id ms)) ?news)"
  have e: "map pair (init_adjust round0 log l) = ps"
    using adjust_members_pairs [OF order_refl srt, of round0 "drop ?n (l_machines log)" l]
    by (simp add: init_adjust_def Let_def news ms0_def [symmetric] ms_def [symmetric] ps_def new_ids_def del: map_map)
  have f: "map fst ps = map mb_id ms @ filter (\<lambda>i. i \<noteq> l \<and> i \<notin> set (map mb_id ms)) ?news"
    by (simp add: ps_def pair_def comp_def if_distrib [of fst])
  show ?thesis
  proof (rule represents_pairsI [OF _ e])
    show "distinct (map fst ps)" unfolding f using ids(1) assms(1) by (auto simp: joint_log_def)
    have "fst ` set ps = set (map fst ps)" by simp
    then show "fst ` set ps = set ?olds \<union> set ?news - {l}" unfolding f set_append ids(2) set_filter by auto
    show "t = type_of (set ?olds) (set ?news) i" if "(i, t) \<in> set ps" for i t
    proof -
      from that consider "i \<in> set ?olds" "i \<noteq> l" "t = (if i \<in> set ?news then MEMBER_TYPE_ALL else MEMBER_TYPE_OLD)"
        | "i \<in> set ?news" "i \<notin> set ?olds" "t = MEMBER_TYPE_NEW"
        unfolding ps_def set_append Un_iff set_map [of _ "map pair ms"] set_p using ids(2) by (auto split: if_splits)
      then show ?thesis by cases (auto simp: type_of_simps)
    qed
  qed
qed

lemma init_both_represents:
  fixes machines :: "machine list" and k n :: nat
  defines "A \<equiv> map machine_id (take k machines)" and "B \<equiv> map machine_id (take (n - k) (drop k machines))"
  assumes d: "distinct (A @ B)"
  shows "represents (set A) (set (A @ B)) l (init_both round0 l MEMBER_TYPE_NEW k n machines)"
    and "represents (set (A @ B)) (set A) l (init_both round0 l MEMBER_TYPE_OLD k n machines)"
proof -
  define ps where "ps t = map (\<lambda>i. (i, MEMBER_TYPE_ALL)) (filter (\<lambda>i. i \<noteq> l) A) @ map (\<lambda>i. (i, t)) (filter (\<lambda>i. i \<noteq> l) B)" for t :: u8
  have e: "map pair (init_both round0 l t k n machines) = ps t" for t
    by (simp add: init_both_def Let_def init_members_pairs ps_def A_def B_def filter_map comp_def)
  have "map fst (ps t) = filter (\<lambda>i. i \<noteq> l) (A @ B)" for t by (simp add: ps_def comp_def)
  then have "distinct (map fst (ps t))" "set (map fst (ps t)) = set (A @ B) - {l}" for t
    using d by (simp_all only: distinct_filter set_filter) auto
  then have f: "distinct (map fst (ps t))" "fst ` set (ps t) = set (A @ B) - {l}" for t by simp_all
  have i: "(i, t') \<in> set (ps t) \<Longrightarrow> i \<in> set A \<and> t' = MEMBER_TYPE_ALL \<or> i \<in> set B \<and> i \<notin> set A \<and> t' = t" for i t t'
    using d by (auto simp: ps_def)
  show "represents (set A) (set (A @ B)) l (init_both round0 l MEMBER_TYPE_NEW k n machines)"
  proof (rule represents_pairsI [OF f(1) e])
    show "fst ` set (ps MEMBER_TYPE_NEW) = set A \<union> set (A @ B) - {l}" using f(2) by auto
    show "t = type_of (set A) (set (A @ B)) j" if "(j, t) \<in> set (ps MEMBER_TYPE_NEW)" for j t
      using i [OF that] by (auto simp: type_of_simps)
  qed
  show "represents (set (A @ B)) (set A) l (init_both round0 l MEMBER_TYPE_OLD k n machines)"
  proof (rule represents_pairsI [OF f(1) e])
    show "fst ` set (ps MEMBER_TYPE_OLD) = set (A @ B) \<union> set A - {l}" using f(2) by auto
    show "t = type_of (set (A @ B)) (set A) j" if "(j, t) \<in> set (ps MEMBER_TYPE_OLD)" for j t
      using i [OF that] by (auto simp: type_of_simps)
  qed
qed

lemma members_init_represents:
  assumes j: "joint_log log"
  shows "represents (set (old_ids log)) (set (new_ids log)) l (members_init round0 log l)"
proof (cases "l_type log = LOG_TYPE_ADJUST")
  case True
  then show ?thesis using init_adjust_represents [OF j True] by (simp add: members_init_def represents_sort)
next
  case False
  let ?o = "unat (old_n log)" and ?n = "unat (new_n log)" and ?ms = "l_machines log"
  have len: "length ?ms = ?o + ?n" and d: "distinct (old_ids log)" "distinct (new_ids log)" using j by (simp_all add: joint_log_def)
  have pre: "take (min ?o ?n) (old_ids log) = take (min ?o ?n) (new_ids log)" using j False by (simp add: joint_log_def Let_def)
  show ?thesis
  proof (cases "new_n log \<ge> old_n log")
    case le: True
    then have le': "?o \<le> ?n" by (simp add: word_le_nat_alt)
    let ?A = "map machine_id (take ?o (drop ?o ?ms))" and ?B = "map machine_id (take (?n - ?o) (drop ?o (drop ?o ?ms)))"
    have "?A = take ?o (new_ids log)" by (simp add: new_ids_def take_map)
    then have A: "?A = old_ids log" using pre le' len by (simp add: old_ids_def min_absorb1)
    have "?A @ ?B = map machine_id (take (?o + (?n - ?o)) (drop ?o ?ms))" by (simp only: take_add map_append)
    then have AB: "?A @ ?B = new_ids log" using le' len by (simp add: new_ids_def del: take_drop)
    have "represents (set ?A) (set (?A @ ?B)) l (init_both round0 l MEMBER_TYPE_NEW ?o ?n (drop ?o ?ms))"
      by (rule init_both_represents(1)) (use AB d in simp)
    then show ?thesis unfolding AB unfolding A using False le by (simp add: members_init_def represents_sort)
  next
    case lt: False
    then have lt': "?n < ?o" by (simp add: word_le_nat_alt)
    let ?A = "map machine_id (take ?n ?ms)" and ?B = "map machine_id (take (?o - ?n) (drop ?n ?ms))"
    have "?A = take ?n (old_ids log)" using lt' by (simp add: old_ids_def take_map min_absorb1)
    then have A: "?A = new_ids log" using pre lt' len by (simp add: new_ids_def min_absorb2)
    have "?A @ ?B = map machine_id (take (?n + (?o - ?n)) ?ms)" by (simp only: take_add map_append)
    then have AB: "?A @ ?B = old_ids log" using lt' by (simp add: old_ids_def)
    have "represents (set (?A @ ?B)) (set ?A) l (init_both round0 l MEMBER_TYPE_OLD ?n ?o ?ms)"
      by (rule init_both_represents(2)) (use AB d in simp)
    then show ?thesis unfolding AB unfolding A using False lt by (simp add: members_init_def represents_sort)
  qed
qed

section \<open>Counting votes\<close>

lemma machines_find_iff: "machines_find ms n i \<noteq> None \<longleftrightarrow> i \<in> machine_id ` set (take n ms)"
  by (induction ms n i rule: machines_find.induct) auto

lemma find_ids:
  assumes "joint_log log"
  shows "log_machines_find_old log i \<noteq> None \<longleftrightarrow> i \<in> set (old_ids log)"
    "log_machines_find_new log i \<noteq> None \<longleftrightarrow> i \<in> set (new_ids log)"
  using assms unfolding log_machines_find_old_def log_machines_find_new_def machines_find_iff
  by (simp_all add: old_ids_def new_ids_def joint_log_def)

lemma represents_length:
  assumes "represents O' N l ms"
  shows "length ms = card (O' \<union> N - {l})" "mb_id ` set ms = O' \<union> N - {l}"
proof -
  have "mb_id ` set ms = fst ` set (map pair ms)" by (simp add: pair_def image_image)
  also have "\<dots> = O' \<union> N - {l}" using assms by (simp add: represents_def image_image)
  finally show i: "mb_id ` set ms = O' \<union> N - {l}" .
  have "length ms = card (set (map mb_id ms))"
    using assms unfolding represents_def by (metis distinct_card length_map)
  then show "length ms = card (O' \<union> N - {l})" using i by simp
qed

lemma represents_type:
  assumes "represents O' N l ms" "m \<in> set ms"
  shows "mb_type m = type_of O' N (mb_id m)"
proof -
  have "pair m \<in> (\<lambda>i. (i, type_of O' N i)) ` (O' \<union> N - {l})" using assms by (auto simp: represents_def)
  then show ?thesis by (auto simp: pair_def)
qed

lemma type_bits:
  "MEMBER_IN_OLD (type_of O' N i) = (if i \<in> O' then 1 else 0)" "MEMBER_IN_NEW (type_of O' N i) = (if i \<in> N then 1 else 0)"
  by (simp_all add: type_of_def MEMBER_IN_OLD_def MEMBER_IN_NEW_def MEMBER_TYPE_OLD_def MEMBER_TYPE_NEW_def)

text \<open>The members a cluster is built with.\<close>

lemma cluster_malloc_members:
  assumes j: "joint_log log" and c: "cluster_malloc block log l = Some cl"
  shows "represents (set (old_ids log)) (set (new_ids log)) l (members cl)" "unat (members_n cl) = length (members cl)"
    "cluster_members cl = members cl"
proof -
  obtain r where cl: "members cl = members_init r log l"
    "members_n cl = (let n = ucast (distinct_machines_n log) :: u32
       in if log_machines_find_old log l \<noteq> None \<or> log_machines_find_new log l \<noteq> None then n - 1 else n)"
    using c by (auto simp: cluster_malloc_def Let_def)
  show r: "represents (set (old_ids log)) (set (new_ids log)) l (members cl)"
    unfolding cl(1) by (rule members_init_represents [OF j])
  let ?U = "set (old_ids log) \<union> set (new_ids log)"
  have d: "unat (distinct_machines_n log) = card ?U" "card ?U < 2 ^ 32" using j by (simp_all add: joint_log_def)
  then have u: "unat (ucast (distinct_machines_n log) :: u32) = card ?U" by (simp add: unsigned_ucast_eq take_bit_nat_eq_self)
  have "unat (members_n cl) = card (?U - {l})"
  proof (cases "l \<in> ?U")
    case True
    then have "card ?U \<noteq> 0" by (auto simp: card_eq_0_iff)
    then have "unat ((ucast (distinct_machines_n log) :: u32) - 1) = card ?U - 1"
      using u by (simp add: unat_minus_one word_unat_eq_iff)
    then show ?thesis using True find_ids [OF j, of l] by (auto simp: cl(2) Let_def)
  next
    case False
    then show ?thesis using u find_ids [OF j, of l] by (simp add: cl(2) Let_def)
  qed
  then show n: "unat (members_n cl) = length (members cl)" using represents_length(1) [OF r] by simp
  then show "cluster_members cl = members cl" by (simp add: cluster_members_def)
qed

text \<open>The sum of the votes for one configuration is the number of its machines among the voters.\<close>

lemma vote_sum:
  fixes f :: "member \<Rightarrow> u32"
  assumes d: "distinct (map mb_id ms)" and f: "\<And>m. m \<in> set ms \<Longrightarrow> f m = (if mb_id m \<in> C then 1 else 0)" and n: "length ms < 2 ^ 32"
  shows "unat (sum_list (map f (filter P ms))) = card (voters P ms \<inter> C)"
proof -
  let ?ms = "filter (\<lambda>m. mb_id m \<in> C) (filter P ms)"
  have "sum_list (map f xs) = of_nat (length (filter (\<lambda>m. mb_id m \<in> C) xs))" if "set xs \<subseteq> set ms" for xs
    using that f by (induction xs) simp_all
  then have "sum_list (map f (filter P ms)) = of_nat (length ?ms)" by simp
  moreover have "length ?ms < 2 ^ 32" using n length_filter_le [of P ms] length_filter_le [of "\<lambda>m. mb_id m \<in> C" "filter P ms"] by linarith
  ultimately have "unat (sum_list (map f (filter P ms))) = length ?ms" by (simp add: unat_of_nat take_bit_nat_eq_self)
  also have "\<dots> = card (set (map mb_id ?ms))" using d by (metis distinct_card distinct_map_filter length_map)
  also have "set (map mb_id ?ms) = voters P ms \<inter> C" by (auto simp: voters_def)
  finally show ?thesis .
qed

lemma majority_unat: "unat (majority n) = unat n div 2 + 1"
proof -
  have "unat n div 2 + 1 < 2 ^ 32" using unat_bound [of n] by simp
  then show ?thesis by (simp add: majority_def unat_word_ariths unat_div)
qed

text \<open>The required votes of one configuration, with the candidate's own vote.\<close>

lemma required_iff:
  assumes C: "finite C" "card C = unat n" and l: "l \<notin> V" and r: "r = (if l \<in> C then majority n - 1 else majority n)" and k: "unat k = card (V \<inter> C)"
  shows "k \<ge> r \<longleftrightarrow> majority_of C (insert l V)"
proof -
  have m: "unat (majority n) = card C div 2 + 1" using majority_unat [of n] C(2) by simp
  have ur: "unat r = (if l \<in> C then card C div 2 else card C div 2 + 1)"
    unfolding r using m by (simp add: unat_minus_one word_unat_eq_iff)
  have "card (insert l V \<inter> C) = (if l \<in> C then card (V \<inter> C) + 1 else card (V \<inter> C))"
    using C(1) l by simp
  then show ?thesis using ur k C(1) by (auto simp: majority_of_def word_le_nat_alt)
qed

lemma joint_finite:
  assumes "joint_log log"
  shows "card (set (old_ids log)) = unat (old_n log)" "card (set (new_ids log)) = unat (new_n log)"
  using assms distinct_card [of "old_ids log"] distinct_card [of "new_ids log"]
  by (auto simp: joint_log_def old_ids_def new_ids_def simp del: distinct_map)

lemma cluster_malloc_required:
  assumes j: "joint_log log" and c: "cluster_malloc block log l = Some cl"
  shows "require_old_votes cl = (if l \<in> set (old_ids log) then majority (old_n log) - 1 else majority (old_n log))"
    "require_new_votes cl = (if new_n log = 0 then 0 else if l \<in> set (new_ids log) then majority (new_n log) - 1 else majority (new_n log))"
  using c find_ids [OF j, of l] by (auto simp: cluster_malloc_def Let_def)

text \<open>
  The votes of members with the same identifiers and types suffice exactly when they and the server
  itself are a majority of every configuration.
\<close>

lemma votes_iff:
  assumes j: "joint_log log" and c: "cluster_malloc block log l = Some cl" and ms: "map pair ms = map pair (members cl)"
  shows "(sum_list (map (\<lambda>m. MEMBER_IN_OLD (mb_type m)) (filter P ms)) \<ge> require_old_votes cl \<and>
      sum_list (map (\<lambda>m. MEMBER_IN_NEW (mb_type m)) (filter P ms)) \<ge> require_new_votes cl) \<longleftrightarrow>
    (\<forall>C \<in> configs log. majority_of C (insert l (voters P ms)))"
proof -
  let ?O = "set (old_ids log)" and ?N = "set (new_ids log)"
  have r0: "represents ?O ?N l (members cl)" by (rule cluster_malloc_members(1) [OF j c])
  have "map mb_id ms = map mb_id (members cl)" using arg_cong [OF ms, of "map fst"] by (simp add: pair_def comp_def)
  then have r: "represents ?O ?N l ms" using r0 unfolding represents_def ms by simp
  have len: "length ms < 2 ^ 32"
    using cluster_malloc_members(2) [OF j c] unat_bound [of "members_n cl"] arg_cong [OF ms, of length] by simp
  have l: "l \<notin> voters P ms" using represents_length(2) [OF r] by (auto simp: voters_def)
  have d: "distinct (map mb_id ms)" using r by (simp add: represents_def)
  have s: "unat (sum_list (map (\<lambda>m. MEMBER_IN_OLD (mb_type m)) (filter P ms))) = card (voters P ms \<inter> ?O)"
    "unat (sum_list (map (\<lambda>m. MEMBER_IN_NEW (mb_type m)) (filter P ms))) = card (voters P ms \<inter> ?N)"
    by (rule vote_sum [OF d _ len]; use represents_type [OF r] type_bits [of ?O ?N] in simp)+
  note q = cluster_malloc_required [OF j c] and f = joint_finite [OF j]
  have old: "sum_list (map (\<lambda>m. MEMBER_IN_OLD (mb_type m)) (filter P ms)) \<ge> require_old_votes cl \<longleftrightarrow> majority_of ?O (insert l (voters P ms))"
    by (rule required_iff [OF _ f(1) l q(1) s(1)]) simp
  have new: "sum_list (map (\<lambda>m. MEMBER_IN_NEW (mb_type m)) (filter P ms)) \<ge> require_new_votes cl \<longleftrightarrow> majority_of ?N (insert l (voters P ms))"
    if "new_n log \<noteq> 0"
    by (rule required_iff [OF _ f(2) l _ s(2)]) (use q(2) that in simp_all)
  have "new_ids log = [] \<longleftrightarrow> new_n log = 0" using j by (auto simp: joint_log_def new_ids_def word_unat_eq_iff)
  then show ?thesis using old new q(2) by (cases "new_n log = 0") (auto simp: configs_def)
qed

section \<open>Quorums meet\<close>

locale quorums =
  fixes quorum :: "'c \<Rightarrow> 'a set \<Rightarrow> bool"
  assumes meet: "quorum c S \<Longrightarrow> quorum c T \<Longrightarrow> S \<inter> T \<noteq> {}"
begin

text \<open>Decisions that each have a quorum in all their configurations meet when they share one.\<close>

lemma decisions_share:
  assumes "\<forall>c \<in> A. quorum c S" "\<forall>c \<in> B. quorum c T" "A \<inter> B \<noteq> {}"
  obtains x where "x \<in> S" "x \<in> T"
  using assms meet by blast

end

lemma majorities_meet:
  assumes "majority_of C S" "majority_of C T"
  shows "S \<inter> T \<noteq> {}"
proof
  assume e: "S \<inter> T = {}"
  have C: "finite C" using assms by (simp add: majority_of_def)
  have "card (S \<inter> C) + card (T \<inter> C) = card ((S \<inter> C) \<union> (T \<inter> C))"
    by (rule card_Un_disjoint [symmetric]) (use C e in auto)
  also have "\<dots> \<le> card C" by (rule card_mono) (use C in auto)
  finally show False using assms by (simp add: majority_of_def)
qed

interpretation raft: quorums majority_of
  by unfold_locales (rule majorities_meet)

lemma approves_iff:
  assumes "joint_log log" "cluster_malloc block log l = Some cl"
  shows "approves cl V \<longleftrightarrow> (\<forall>C \<in> configs log. majority_of C (insert l (V \<inter> mb_id ` set (members cl))))"
proof -
  have "voters (\<lambda>m. mb_id m \<in> V) (members cl) = V \<inter> mb_id ` set (members cl)" by (auto simp: voters_def)
  then show ?thesis
    using votes_iff [OF assms refl, of "\<lambda>m. mb_id m \<in> V"] cluster_malloc_members(3) [OF assms]
    by (simp add: approves_def Let_def)
qed

section \<open>Counting votes down\<close>

lemma countdown:
  fixes r k :: u32
  assumes "unat r < 2 ^ 31" "unat k < 2 ^ 31"
  shows "sint (r - k) \<le> 0 \<longleftrightarrow> r \<le> k"
proof -
  have sint: "sint (word_of_int x :: u32) = signed_take_bit 31 x" for x by (simp add: signed_of_int)
  have "r - k = word_of_int (int (unat r) - int (unat k))" by simp
  then have "sint (r - k) = signed_take_bit 31 (int (unat r) - int (unat k))" unfolding sint [symmetric] by (rule arg_cong)
  also have "\<dots> = int (unat r) - int (unat k)"
  proof -
    have "int (unat r) < 2 ^ 31" "int (unat k) < 2 ^ 31" 
      using assms by (metis of_nat_less_iff of_nat_numeral of_nat_power)+
    then show ?thesis by (intro signed_take_bit_int_eq_self) linarith+
  qed
  finally have e: "sint (r - k) = int (unat r) - int (unat k)" .
  show ?thesis unfolding e word_le_nat_alt by linarith
qed

lemma sum_votes_insert:
  fixes f :: "member \<Rightarrow> u32"
  assumes "distinct (map mb_id ms)" "m \<in> set ms" "mb_id m \<notin> V"
  shows "sum_list (map f (filter (\<lambda>x. mb_id x \<in> insert (mb_id m) V) ms)) = sum_list (map f (filter (\<lambda>x. mb_id x \<in> V) ms)) + f m"
  using assms
proof (induction ms)
  case (Cons a ms)
  have "filter (\<lambda>x. mb_id x \<in> insert (mb_id m) V) ms = filter (\<lambda>x. mb_id x \<in> V) ms" if "mb_id m \<notin> mb_id ` set ms"
    by (rule filter_cong [OF refl]) (metis that image_eqI insert_iff)
  then show ?case using Cons by auto
qed simp

lemma counted_insert:
  assumes "distinct (map mb_id ms)" "m \<in> set ms" "mb_id m \<notin> V" "counted cl ms V s"
    "required_old_votes s' = required_old_votes s - MEMBER_IN_OLD (mb_type m)"
    "required_new_votes s' = required_new_votes s - MEMBER_IN_NEW (mb_type m)"
  shows "counted cl ms (insert (mb_id m) V) s'"
  using assms(2,4-) unfolding counted_def Let_def sum_votes_insert [OF assms(1-3)] by auto

lemma same_members:
  assumes "joint_log log" "cluster_malloc block log l = Some cl" "map pair ms = map pair (members cl)"
  shows "represents (set (old_ids log)) (set (new_ids log)) l ms" "length ms = unat (members_n cl)"
proof -
  have "map mb_id ms = map mb_id (members cl)" using arg_cong [OF assms(3), of "map fst"] by (simp add: pair_def comp_def)
  then show "represents (set (old_ids log)) (set (new_ids log)) l ms"
    using cluster_malloc_members(1) [OF assms(1,2)] assms(3) unfolding represents_def by simp
  show "length ms = unat (members_n cl)"
    using arg_cong [OF assms(3), of length] cluster_malloc_members(2) [OF assms(1,2)] by simp
qed

text \<open>The counted votes suffice exactly when nothing more is required.\<close>

lemma counted_iff:
  assumes j: "joint_log log" and c: "cluster_malloc block log l = Some cl" and ms: "map pair ms = map pair (members cl)"
    and n: "unat (old_n log) < 2 ^ 31" "unat (new_n log) < 2 ^ 31" and v: "counted cl ms V s"
  shows "sint (required_old_votes s) \<le> 0 \<and> sint (required_new_votes s) \<le> 0 \<longleftrightarrow> (\<forall>C \<in> configs log. majority_of C (insert l V))"
proof -
  let ?P = "\<lambda>m. mb_id m \<in> V" and ?O = "set (old_ids log)" and ?N = "set (new_ids log)"
  note r = same_members(1) [OF j c ms]
  have len: "length ms < 2 ^ 32" using same_members(2) [OF j c ms] unat_bound [of "members_n cl"] by simp
  have d: "distinct (map mb_id ms)" using r by (simp add: represents_def)
  have V: "voters ?P ms = V" using v by (auto simp: voters_def counted_def)
  have s: "unat (sum_list (map (\<lambda>m. MEMBER_IN_OLD (mb_type m)) (filter ?P ms))) = card (voters ?P ms \<inter> ?O)"
    "unat (sum_list (map (\<lambda>m. MEMBER_IN_NEW (mb_type m)) (filter ?P ms))) = card (voters ?P ms \<inter> ?N)"
    by (rule vote_sum [OF d _ len]; use represents_type [OF r] type_bits [of ?O ?N] in simp)+
  have le: "card (voters ?P ms \<inter> ?O) \<le> unat (old_n log)" "card (voters ?P ms \<inter> ?N) \<le> unat (new_n log)"
    unfolding joint_finite [OF j, symmetric] by (simp_all add: card_mono)
  have m: "unat (majority x) < 2 ^ 31" "unat (majority x - 1) < 2 ^ 31" if "unat x < 2 ^ 31" for x
    using that majority_unat [of x] by (simp_all add: unat_minus_one word_unat_eq_iff)
  have q: "unat (require_old_votes cl) < 2 ^ 31" "unat (require_new_votes cl) < 2 ^ 31"
    unfolding cluster_malloc_required [OF j c] using m n by (simp_all split: if_splits)
  let ?o = "sum_list (map (\<lambda>m. MEMBER_IN_OLD (mb_type m)) (filter ?P ms))"
    and ?n = "sum_list (map (\<lambda>m. MEMBER_IN_NEW (mb_type m)) (filter ?P ms))"
  have k: "unat ?o < 2 ^ 31" "unat ?n < 2 ^ 31" unfolding s using le n by linarith+
  have "required_old_votes s = require_old_votes cl - ?o" "required_new_votes s = require_new_votes cl - ?n"
    using v by (simp_all add: counted_def Let_def)
  then have "sint (required_old_votes s) \<le> 0 \<longleftrightarrow> require_old_votes cl \<le> ?o" "sint (required_new_votes s) \<le> 0 \<longleftrightarrow> require_new_votes cl \<le> ?n"
    using countdown [OF q(1) k(1)] countdown [OF q(2) k(2)] by (simp_all only:)
  then show ?thesis using votes_iff [OF j c ms, of ?P] unfolding V by (simp only:)
qed

section \<open>Properties\<close>

lemma example_joint: "joint_log small_log" "joint_log replace_log"
  by (simp_all add: joint_log_def old_ids_def new_ids_def replace_log_def small_log_def machine_id_def LOG_TYPE_OLD_def
      LOG_TYPE_ADJUST_def card_insert_if)

lemma example_ids:
  "set (old_ids small_log) = {1, 2, 3, 4}" "new_ids small_log = []"
  "set (old_ids replace_log) = {1, 2, 3, 4}" "set (new_ids replace_log) = {1, 2, 3, 5}"
  by (auto simp: old_ids_def new_ids_def replace_log_def small_log_def machine_id_def)

lemma example_configs: "configs small_log = {{1, 2, 3, 4}}" "configs replace_log = {{1, 2, 3, 4}, {1, 2, 3, 5}}"
proof -
  have "new_ids replace_log \<noteq> []" using example_ids(4) by force
  then show "configs small_log = {{1, 2, 3, 4}}" "configs replace_log = {{1, 2, 3, 4}, {1, 2, 3, 5}}"
    by (simp_all only: configs_def example_ids if_True if_False simp_thms Un_empty_right Un_insert_left Un_empty_left)
qed

lemma example_cluster:
  obtains cl where "cluster_malloc (Some (\<lambda>_. 0)) log l = Some cl"
  by (auto simp: cluster_malloc_def Let_def)

lemma members_sorted:
  assumes "joint_log log" "cluster_malloc block log l = Some cl"
  shows "sorted_wrt (<) (map mb_id (members cl))"
proof -
  have "sorted (map mb_id (members cl))"
    using assms(2) by (auto simp: cluster_malloc_def members_init_def members_sort_by_id_eq Let_def)
  then show ?thesis
    using cluster_malloc_members(1) [OF assms] by (simp add: represents_def strict_sorted_iff)
qed

text \<open>
  (C9) The members a cluster is built with are the machines of the old and the new configuration of
  its log except the server itself, each once and in the order of the identifiers; the bits of a
  member's type say exactly in which configurations it is; and the counted members are all there.
\<close>

theorem cluster_represents:
  assumes "joint_log log" "cluster_malloc block log l = Some cl"
  shows "sorted_wrt (<) (map mb_id (cluster_members cl)) \<and>
    mb_id ` set (cluster_members cl) = set (old_ids log) \<union> set (new_ids log) - {l} \<and>
    unat (members_n cl) = length (members cl) \<and>
    (\<forall>m \<in> set (cluster_members cl).
       MEMBER_IN_OLD (mb_type m) = (if mb_id m \<in> set (old_ids log) then 1 else 0) \<and>
       MEMBER_IN_NEW (mb_type m) = (if mb_id m \<in> set (new_ids log) then 1 else 0))"
proof -
  note r = cluster_malloc_members [OF assms]
  show ?thesis
    unfolding r(3) using members_sorted [OF assms] represents_length(2) [OF r(1)] r(2) represents_type [OF r(1)] type_bits by simp
qed

theorem cluster_represents_witness:
  "\<exists>cl. cluster_malloc (Some (\<lambda>_. 0)) replace_log 1 = Some cl \<and> mb_id ` set (cluster_members cl) = {2, 3, 4, 5}"
proof -
  obtain cl where cl: "cluster_malloc (Some (\<lambda>_. 0)) replace_log 1 = Some cl" by (rule example_cluster)
  have "set (old_ids replace_log) \<union> set (new_ids replace_log) - {1} = {2, 3, 4, 5}" unfolding example_ids by auto
  then show ?thesis using cluster_represents [OF example_joint(2) cl] cl by auto
qed

text \<open>
  (C7) A leader's log is committed exactly when the server and the members that have replicated it
  are a majority of the old configuration and, in a joint log, of the new one: whatever the members'
  progress, as long as they are those the cluster was built with.
\<close>

theorem commit_rule:
  assumes "joint_log log" "cluster_malloc block log l = Some cl"
    and "cur_cluster s = cl\<lparr>members := ms\<rparr>" "map pair ms = map pair (members cl)"
  shows "leader_log_commited s \<longleftrightarrow>
    (\<forall>C \<in> configs log. majority_of C (insert l (voters (\<lambda>m. match_index m \<ge> l_index (cur_log s)) ms)))"
proof -
  have "length ms = unat (members_n cl)"
    using arg_cong [OF assms(4), of length] cluster_malloc_members(2) [OF assms(1,2)] by simp
  then have "cluster_members (cur_cluster s) = ms"
    using assms(3) by (simp add: cluster_members_def)
  then show ?thesis
    using votes_iff [OF assms(1,2,4), of "\<lambda>m. match_index m \<ge> l_index (cur_log s)"] assms(3)
    by (simp add: leader_log_commited_def Let_def)
qed

theorem commit_rule_witness:
  "\<exists>cl s. cluster_malloc (Some (\<lambda>_. 0)) small_log 1 = Some cl \<and> s_cluster s = Some 0 \<and>
     clusters s 0 = Some (cl\<lparr>members := map (match_index_update (\<lambda>_. 1)) (members cl)\<rparr>) \<and> leader_log_commited s"
proof -
  obtain cl where cl: "cluster_malloc (Some (\<lambda>_. 0)) small_log 1 = Some cl" by (rule example_cluster)
  define ms where "ms = map (match_index_update (\<lambda>_. 1)) (members cl)"
  define s where "s = example_start\<lparr>net := (net example_start)\<lparr>logs := [0 \<mapsto> small_log]\<rparr>, s_state := SERVER_STATE_LEADER,
    s_cluster := Some 0, clusters := [0 \<mapsto> cl\<lparr>members := ms\<rparr>]\<rparr>"
  have s: "cur_cluster s = cl\<lparr>members := ms\<rparr>" "cur_log s = small_log"
    by (simp_all add: s_def cur_cluster_def cluster_at_def cur_log_def log_of_def example_start_def)
  have "voters (\<lambda>m. match_index m \<ge> l_index (cur_log s)) ms = mb_id ` set ms"
    by (auto simp: voters_def ms_def s(2) small_log_def)
  also have "\<dots> = mb_id ` set (members cl)" by (simp add: ms_def image_image)
  also have "\<dots> = {2, 3, 4}" using represents_length(2) [OF cluster_malloc_members(1) [OF example_joint(1) cl]] example_ids by auto
  finally have "leader_log_commited s"
    using commit_rule [OF example_joint(1) cl s(1)] by (simp add: ms_def pair_def example_configs majority_of_def)
  then show ?thesis using cl by (intro exI [of _ cl] exI [of _ s]) (simp add: s_def ms_def)
qed

text \<open>
  (C8) Two servers' decisions meet. When the votes each counts suffice for its cluster, and the two
  clusters' logs share a configuration, some machine voted for both. So neither two elections nor an
  election and a commit can succeed side by side through disjoint machines.
\<close>

theorem decisions_meet:
  assumes "joint_log log" "cluster_malloc block log l = Some cl" "approves cl V"
    and "joint_log log'" "cluster_malloc block' log' l' = Some cl'" "approves cl' V'"
    and "configs log \<inter> configs log' \<noteq> {}"
  shows "\<exists>i. i \<in> insert l V \<and> i \<in> insert l' V'"
proof (rule raft.decisions_share)
  show "\<forall>C \<in> configs log. majority_of C (insert l (V \<inter> mb_id ` set (members cl)))"
    using approves_iff [OF assms(1,2)] assms(3) by simp
  show "\<forall>C \<in> configs log'. majority_of C (insert l' (V' \<inter> mb_id ` set (members cl')))"
    using approves_iff [OF assms(4,5)] assms(6) by simp
qed (use assms(7) in auto)

theorem decisions_meet_witness:
  "\<exists>cl cl'. cluster_malloc (Some (\<lambda>_. 0)) small_log 1 = Some cl \<and> approves cl {3, 4} \<and>
     cluster_malloc (Some (\<lambda>_. 0)) replace_log 2 = Some cl' \<and> approves cl' {1, 3} \<and>
     (\<exists>i :: u32. i \<in> {1, 3, 4} \<and> i \<in> {2, 1, 3})"
proof -
  obtain cl cl' where cl: "cluster_malloc (Some (\<lambda>_. 0)) small_log 1 = Some cl" "cluster_malloc (Some (\<lambda>_. 0)) replace_log 2 = Some cl'"
    by (metis example_cluster)
  have ids: "mb_id ` set (members cl) = {2, 3, 4}" "mb_id ` set (members cl') = {1, 3, 4, 5}"
    using represents_length(2) [OF cluster_malloc_members(1) [OF example_joint(1) cl(1)]]
      represents_length(2) [OF cluster_malloc_members(1) [OF example_joint(2) cl(2)]] example_ids by auto
  have a: "approves cl {3, 4}" "approves cl' {1, 3}"
    unfolding approves_iff [OF example_joint(1) cl(1)] approves_iff [OF example_joint(2) cl(2)] ids example_configs
    by (simp_all add: majority_of_def)
  then show ?thesis
    using decisions_meet [OF example_joint(1) cl(1) a(1) example_joint(2) cl(2) a(2)] cl by (simp add: example_configs)
qed

text \<open>
  (C6) A candidate wins exactly with a majority of granted votes. A vote is an answer that is read
  completely, of the candidate's own term, and granted. When the connection of a member whose vote
  is not counted yet becomes readable, the candidate becomes leader exactly when a vote arrives and
  it, the members counted before and this one are a majority of every configuration of its log. It
  steps down exactly for an answer of a higher term, which it takes over. While it stays a candidate
  it has counted this vote exactly when it arrived: a denial, an answer of another term and an
  incomplete one count nothing.
\<close>

theorem election_rule:
  fixes os :: os
  assumes "joint_log log" "cluster_malloc block log l = Some cl" "unat (old_n log) < 2 ^ 31" "unat (new_n log) < 2 ^ 31"
    and "cluster_at s k = cl\<lparr>members := ms\<rparr>" "map pair ms = map pair (members cl)" "i < length ms"
    and "counted cl ms V s" "mb_id (ms ! i) \<notin> V" "s_state s = SERVER_STATE_CANDIDATE"
  defines "answer \<equiv> raft_conn_full_read_to_buffer os (net s) (Out k i) False REQUEST_VOTE_RES_SIZE"
  defines "res \<equiv> get_request_vote_res (buffer (conn_of (snd answer) (Out k i)))"
  defines "vote \<equiv> fst answer \<and> vr_term res = s_term s \<and> vr_granted res"
    and "V' \<equiv> insert (mb_id (ms ! i)) V" and "s' \<equiv> state_request_vote_in os s (Out k i)"
  shows "(s_state s' = SERVER_STATE_LEADER \<longleftrightarrow> vote \<and> (\<forall>C \<in> configs log. majority_of C (insert l V'))) \<and>
    (s_state s' = SERVER_STATE_FOLLOWER \<longleftrightarrow> fst answer \<and> s_term s < vr_term res) \<and>
    (s_state s' = SERVER_STATE_CANDIDATE \<longrightarrow> counted cl ms (if vote then V' else V) s') \<and>
    s_term s' = (if s_state s' = SERVER_STATE_FOLLOWER then vr_term res else s_term s)"
proof -
  have d: "distinct (map mb_id ms)" using same_members(1) [OF assms(1,2,6)] by (simp add: represents_def)
  let ?m = "ms ! i"
  let ?ro = "required_old_votes s - MEMBER_IN_OLD (mb_type ?m)" and ?rn = "required_new_votes s - MEMBER_IN_NEW (mb_type ?m)"
  have ins: "counted cl ms V' (s\<lparr>net := w, required_old_votes := ?ro, required_new_votes := ?rn\<rparr>)" for w
    unfolding V'_def by (rule counted_insert [OF d nth_mem [OF assms(7)] assms(9,8)]) simp_all
  have same: "counted cl ms V (s\<lparr>net := w\<rparr>)" for w using assms(8) by (simp add: counted_def)
  have won: "sint ?ro \<le> 0 \<and> sint ?rn \<le> 0 \<longleftrightarrow> (\<forall>C \<in> configs log. majority_of C (insert l V'))"
    using counted_iff [OF assms(1,2,6,3,4) ins, of undefined] by simp
  define w' where "w' = upd_conn (snd answer) (Out k i) raft_conn_change_to_ready_for_use"
  have s': "s' = (if \<not> fst answer then s\<lparr>net := snd answer\<rparr>
      else if vr_term res > s_term s then server_increase_term (s\<lparr>net := w'\<rparr>) (vr_term res)
      else if vote then
        if sint ?ro \<le> 0 \<and> sint ?rn \<le> 0
        then win_election (s\<lparr>net := w', required_old_votes := ?ro, required_new_votes := ?rn\<rparr>)
        else s\<lparr>net := w', required_old_votes := ?ro, required_new_votes := ?rn\<rparr>
      else s\<lparr>net := w'\<rparr>)"
    using assms(5,10) unfolding s'_def state_request_vote_in_def answer_def [symmetric] w'_def vote_def res_def
    by (auto simp: Let_def split_beta cluster_at_def)
  have l: "s_state (win_election t) = SERVER_STATE_LEADER" "s_term (win_election t) = s_term t" for t
    by (simp_all add: win_election_def convert_to_leader_def Let_def split_beta)
  have f: "s_state (server_increase_term t x) = SERVER_STATE_FOLLOWER" "s_term (server_increase_term t x) = x" for t x
    by (simp_all add: server_increase_term_def convert_to_follower_def server_replace_cluster_def reset_timer_def reset_follower_def Let_def)
  have v: "vote \<Longrightarrow> fst answer \<and> \<not> vr_term res > s_term s" by (simp add: vote_def)
  show ?thesis
    unfolding s' won using ins [of w'] same [of "snd answer"] same [of w'] assms(10) v by (auto simp: l f)
qed

lemma vote_server_facts:
  "cluster_malloc (Some (\<lambda>_. 0)) replace_log 1 = Some replace_cluster"
  "map mb_id (members replace_cluster) = [2, 3, 4, 5]" "counted replace_cluster (members replace_cluster) {3} vote_server"
proof -
  show "cluster_malloc (Some (\<lambda>_. 0)) replace_log 1 = Some replace_cluster"
    by (simp add: replace_cluster_def cluster_malloc_def Let_def)
  show "map mb_id (members replace_cluster) = [2, 3, 4, 5]" by code_simp
  have "map (\<lambda>m. (mb_id m, MEMBER_IN_OLD (mb_type m), MEMBER_IN_NEW (mb_type m))) (members replace_cluster)
      = [(2, 1, 1), (3, 1, 1), (4, 1, 0), (5, 0, 1)]" by code_simp
  then show "counted replace_cluster (members replace_cluster) {3} vote_server"
    by (auto simp: counted_def vote_server_def Let_def map_eq_Cons_conv)
qed

theorem election_rule_witness:
  "s_state (state_request_vote_in (vote_os 3 True) vote_server (Out 0 0)) = SERVER_STATE_LEADER \<and>
   s_state (state_request_vote_in (vote_os 3 False) vote_server (Out 0 0)) \<noteq> SERVER_STATE_LEADER \<and>
   s_state (state_request_vote_in (vote_os 2 True) vote_server (Out 0 0)) \<noteq> SERVER_STATE_LEADER"
proof -
  note f = vote_server_facts
  let ?read = "\<lambda>os. raft_conn_full_read_to_buffer os (net vote_server) (Out 0 0) False REQUEST_VOTE_RES_SIZE"
  let ?res = "\<lambda>os. get_request_vote_res (buffer (conn_of (snd (?read os)) (Out 0 0)))"
  have n: "unat (old_n replace_log) < 2 ^ 31" "unat (new_n replace_log) < 2 ^ 31" by (simp_all add: replace_log_def small_log_def)
  have c: "cluster_at vote_server 0 = replace_cluster\<lparr>members := members replace_cluster\<rparr>" "s_state vote_server = SERVER_STATE_CANDIDATE"
    by (simp_all add: vote_server_def cluster_at_def)
  have i: "0 < length (members replace_cluster)" "mb_id (members replace_cluster ! 0) = 2"
    using f(2) by (auto simp: map_eq_Cons_conv)
  have m: "\<forall>C \<in> configs replace_log. majority_of C (insert 1 (insert 2 {3}))" by (simp add: example_configs majority_of_def)
  have r: "fst (?read (vote_os 3 True)) \<and> vr_term (?res (vote_os 3 True)) = s_term vote_server \<and> vr_granted (?res (vote_os 3 True))"
    "\<not> vr_granted (?res (vote_os 3 False))" "vr_term (?res (vote_os 2 True)) \<noteq> s_term vote_server" by code_simp+
  have "s_state (state_request_vote_in os vote_server (Out 0 0)) = SERVER_STATE_LEADER \<longleftrightarrow>
      fst (?read os) \<and> vr_term (?res os) = s_term vote_server \<and> vr_granted (?res os)" for os
    using election_rule [OF example_joint(2) f(1) n c(1) refl i(1) f(3) _ c(2), of os] i(2) m by simp
  then show ?thesis using r by blast
qed

end
