(* ===== verification/Kv.thy ===== *)
theory Kv
  imports Slab Hash_Table
begin

text \<open>
  Cached keys and values, \<open>src/kv.h\<close> and \<open>src/kv.c\<close>.

  A kv is a block of memory with a header, the key and the value. A large value may have its last
  bytes, those that do not fill a page, in a second block, the \<open>concat_val\<close>. The memory is one store
  per kind of field, at the address of the kv: the first word, the links of the LRU list, the heads
  of the lists of borrowers, the value size; keys and values are in a store of bytes. \<open>enabled\<close> shares
  the first word of the LRU links: a kv is enabled when that pointer is not null. The hash node of the
  header, which only the hash table and the threads use, has no store here.
\<close>

section \<open>Definitions\<close>

record kv_heap =
  kh_word :: "u64 \<Rightarrow> slab_obj_offset"
  kh_borrowers :: "u64 hlist_store"
  kh_borrower_kv :: "u64 \<Rightarrow> u64"
  kh_lru :: "u64 list_store"
  kh_on_s_lru :: "u64 \<Rightarrow> bool"
  kh_val_size :: "u64 \<Rightarrow> u64"
  kh_bytes :: byte_store

definition KV_HEADER :: u64 where
  "KV_HEADER = 56"

definition concat_data :: "u64 \<Rightarrow> u64" where
  "concat_data concat_val = concat_val + 8"

definition KV_KEY :: "u64 \<Rightarrow> u64" where
  "KV_KEY kv = kv + KV_HEADER"

definition KEY_SIZE :: "byte_store \<Rightarrow> u64 \<Rightarrow> u64" where
  "KEY_SIZE B key = 1 + ucast (B key)"

definition KV_KEY_SIZE :: "kv_heap \<Rightarrow> u64 \<Rightarrow> u64" where
  "KV_KEY_SIZE h kv = KEY_SIZE (kh_bytes h) (KV_KEY kv)"

definition KV_VAL :: "kv_heap \<Rightarrow> u64 \<Rightarrow> u64" where
  "KV_VAL h kv = KV_KEY kv + KV_KEY_SIZE h kv"

definition KV_SIZE :: "kv_heap \<Rightarrow> u64 \<Rightarrow> u64" where
  "KV_SIZE h kv = KV_HEADER + KV_KEY_SIZE h kv + kh_val_size h kv"

text \<open>Bytes written at an address; \<open>memcpy\<close> is between regions that do not overlap.\<close>

definition put_bytes :: "byte_store \<Rightarrow> u64 \<Rightarrow> u8 list \<Rightarrow> byte_store" where
  "put_bytes B p bs = (\<lambda>a. if unat (a - p) < length bs then bs ! unat (a - p) else B a)"







definition kv_is_concat :: "kv_heap \<Rightarrow> u64 \<Rightarrow> bool" where
  "kv_is_concat h kv \<longleftrightarrow> SOO_OBJ (kh_word h kv) \<noteq> kv"


definition kv_borrower_init :: "kv_heap \<Rightarrow> u64 \<Rightarrow> kv_heap" where
  "kv_borrower_init h borrower = h\<lparr>kh_borrower_kv := (kh_borrower_kv h)(borrower := 0)\<rparr>"

record iovec =
  iov_base :: u64
  iov_len :: u64

definition kv_val_to_iovec :: "kv_heap \<Rightarrow> u64 \<Rightarrow> u64 \<Rightarrow> iovec list" where
  "kv_val_to_iovec h kv i =
     (if \<not> kv_is_concat h kv then [\<lparr>iov_base = KV_VAL h kv + i, iov_len = kh_val_size h kv - i\<rparr>]
      else
        let concat_val = SOO_OBJ (kh_word h kv);
            concat_val_size = KV_SIZE h kv AND PAGE_MASK;
            iov0_len = kh_val_size h kv - concat_val_size
        in if i < iov0_len
           then [\<lparr>iov_base = KV_VAL h kv + i, iov_len = iov0_len - i\<rparr>,
                 \<lparr>iov_base = concat_data concat_val, iov_len = concat_val_size\<rparr>]
           else [\<lparr>iov_base = concat_data concat_val + i - iov0_len, iov_len = kh_val_size h kv - i\<rparr>])"

text \<open>The loop of \<open>kv_copy_val\<close> over the vectors, with \<open>k\<close> bytes of the buffer copied.\<close>

fun copy_iov :: "byte_store \<Rightarrow> iovec list \<Rightarrow> u8 list \<Rightarrow> u64 \<Rightarrow> u64 \<Rightarrow> byte_store" where
  "copy_iov B [] buffer n k = B"
| "copy_iov B (v # vs) buffer n k =
     (if k + iov_len v > n then put_bytes B (iov_base v) (take (unat (n - k)) (drop (unat k) buffer))
      else copy_iov (put_bytes B (iov_base v) (take (unat (iov_len v)) (drop (unat k) buffer))) vs buffer n (k + iov_len v))"

text \<open>The result is an \<open>int\<close>.\<close>

definition kv_copy_val :: "kv_heap \<Rightarrow> u64 \<Rightarrow> u8 list \<Rightarrow> u64 \<Rightarrow> int \<times> kv_heap" where
  "kv_copy_val h kv buffer n =
     (let n = (if kh_val_size h kv < n then kh_val_size h kv else n)
      in (sint (ucast n :: u32), h\<lparr>kh_bytes := copy_iov (kh_bytes h) (kv_val_to_iovec h kv 0) buffer n 0\<rparr>))"

text \<open>The addresses of the bytes that vectors cover, in order, and the bytes of a value.\<close>

definition iov_addrs :: "iovec list \<Rightarrow> u64 list" where
  "iov_addrs vs = concat (map (\<lambda>v. map (\<lambda>j. iov_base v + of_nat j) [0..<unat (iov_len v)]) vs)"

definition kv_value :: "kv_heap \<Rightarrow> u64 \<Rightarrow> u8 list" where
  "kv_value h kv = map (kh_bytes h) (iov_addrs (kv_val_to_iovec h kv 0))"

text \<open>
  What allocating a kv establishes when its size does not wrap around: a kv with a second block is at
  least a page, so that the part in that block is not longer than the value.
\<close>

definition kv_sized :: "kv_heap \<Rightarrow> u64 \<Rightarrow> bool" where
  "kv_sized h kv \<longleftrightarrow>
     56 + unat (KV_KEY_SIZE h kv) + unat (kh_val_size h kv) < 2 ^ 64 \<and>
     (kv_is_concat h kv \<longrightarrow> 4096 \<le> unat (KV_SIZE h kv))"

text \<open>A kv of 5060 bytes at address 2^20, whose last 964 bytes are in a block at 2^21.\<close>

definition concat_heap :: kv_heap where
  "concat_heap = \<lparr>kh_word = (\<lambda>a. \<lparr>soo_x = if a = 0x100000 then 0x200000 else 0\<rparr>),
     kh_borrowers = \<lparr>hs_first = (\<lambda>_. None), hs_node = (\<lambda>_. \<lparr>hn_prev_next = HFirst 0, hn_next = None\<rparr>)\<rparr>,
     kh_borrower_kv = (\<lambda>_. 0), kh_lru = (\<lambda>_. \<lparr>lh_prev = 0, lh_next = 0\<rparr>), kh_on_s_lru = (\<lambda>_. False),
     kh_val_size = (\<lambda>a. if a = 0x100000 then 5000 else 0),
     kh_bytes = (\<lambda>a. if a = 0x100038 then 3 else 0)\<rparr>"

section \<open>Vectors\<close>

lemma key_size_bound: "unat (KEY_SIZE B key) \<le> 256"
proof -
  have b: "unat (B key) < 256" using unat_bound [of "B key"] by simp
  then have "unat (ucast (B key) :: u64) = unat (B key)" using take_bit_nat_eq_self [of "unat (B key)" 64] by (simp add: unsigned_ucast_eq)
  with b show ?thesis by (simp add: KEY_SIZE_def unat_word_ariths)
qed

lemma drop_addrs:
  "drop (unat i) (map (\<lambda>j. p + of_nat j) [0..<n]) = map (\<lambda>j. (p + i) + of_nat j) [0..<n - unat i]" for p :: u64 and i :: u64
  by (rule nth_equalityI) (auto simp: add.assoc)

text \<open>The part of a concat value in the second block.\<close>

lemma concat_size:
  assumes "kv_sized h kv"
  shows "unat (KV_SIZE h kv) = 56 + unat (KV_KEY_SIZE h kv) + unat (kh_val_size h kv)"
    and "unat (KV_SIZE h kv AND PAGE_MASK) = unat (KV_SIZE h kv) mod 4096"
    and "kv_is_concat h kv \<Longrightarrow> KV_SIZE h kv AND PAGE_MASK \<le> kh_val_size h kv"
proof -
  show s: "unat (KV_SIZE h kv) = 56 + unat (KV_KEY_SIZE h kv) + unat (kh_val_size h kv)"
    using assms by (simp add: kv_sized_def KV_SIZE_def KV_HEADER_def unat_word_ariths)
  show m: "unat (KV_SIZE h kv AND PAGE_MASK) = unat (KV_SIZE h kv) mod 4096"
    by (simp only: PAGE_MASK_mask take_bit_eq_mask [symmetric] unsigned_take_bit_eq) (simp add: take_bit_eq_mod)
  assume "kv_is_concat h kv"
  then have p: "4096 \<le> unat (KV_SIZE h kv)" using assms by (simp add: kv_sized_def)
  have "1 \<le> unat (KV_SIZE h kv) div 4096" using div_le_mono [OF p, of 4096] by simp
  then have "unat (KV_SIZE h kv) mod 4096 + 4096 \<le> unat (KV_SIZE h kv)"
    using div_mult_mod_eq [of "unat (KV_SIZE h kv)" 4096] by linarith
  then show "KV_SIZE h kv AND PAGE_MASK \<le> kh_val_size h kv"
    using s key_size_bound [of "kh_bytes h" "KV_KEY kv"] unfolding word_le_nat_alt m by (simp add: KV_KEY_SIZE_def)
qed

text \<open>The address of a vector's bytes.\<close>

lemma iov_addrs_simps [simp]:
  "iov_addrs [] = []"
  "iov_addrs (v # vs) = map (\<lambda>j. iov_base v + of_nat j) [0..<unat (iov_len v)] @ iov_addrs vs"
  by (simp_all add: iov_addrs_def)

lemma iov_addrs_drop:
  assumes s: "kv_sized h kv" and i: "i \<le> kh_val_size h kv"
  shows "iov_addrs (kv_val_to_iovec h kv i) = drop (unat i) (iov_addrs (kv_val_to_iovec h kv 0))"
    and "length (iov_addrs (kv_val_to_iovec h kv 0)) = unat (kh_val_size h kv)"
proof -
  let ?v = "kh_val_size h kv" and ?c = "KV_SIZE h kv AND PAGE_MASK"
  have vi: "unat (?v - i) = unat ?v - unat i" using i by (simp add: unat_sub)
  have "iov_addrs (kv_val_to_iovec h kv i) = drop (unat i) (iov_addrs (kv_val_to_iovec h kv 0)) \<and>
    length (iov_addrs (kv_val_to_iovec h kv 0)) = unat ?v"
  proof (cases "kv_is_concat h kv")
    case False
    then show ?thesis by (simp add: kv_val_to_iovec_def drop_addrs vi)
  next
    case True
    have c: "?c \<le> ?v" by (rule concat_size(3) [OF s True])
    then have u: "unat (?v - ?c) = unat ?v - unat ?c" "unat ?c \<le> unat ?v" by (simp_all add: unat_sub word_le_nat_alt)
    let ?d = "concat_data (SOO_OBJ (kh_word h kv))" and ?l = "?v - ?c"
    have z: "iov_addrs (kv_val_to_iovec h kv 0) =
        map (\<lambda>j. KV_VAL h kv + of_nat j) [0..<unat ?l] @ map (\<lambda>j. ?d + of_nat j) [0..<unat ?c]"
    proof (cases "0 < ?l")
      case False
      then have "?l = 0" by (metis word_gt_0)
      then have "?v = ?c" by simp
      with True \<open>?l = 0\<close> show ?thesis by (simp add: kv_val_to_iovec_def Let_def)
    qed (use True in \<open>simp add: kv_val_to_iovec_def Let_def\<close>)
    show ?thesis
    proof (cases "i < ?l")
      case l: True
      then have "i \<le> ?l" by simp
      then have "unat (?l - i) = unat ?l - unat i" "unat i \<le> unat ?l" by (simp_all only: unat_sub word_le_nat_alt)
      then show ?thesis
        using True l u unfolding z by (simp add: kv_val_to_iovec_def Let_def drop_addrs)
    next
      case l: False
      then have "unat (i - ?l) = unat i - unat ?l" "unat ?l \<le> unat i" by (simp_all add: unat_sub not_less word_le_nat_alt)
      then have "drop (unat i) (iov_addrs (kv_val_to_iovec h kv 0)) = map (\<lambda>j. (?d + (i - ?l)) + of_nat j) [0..<unat ?c - (unat i - unat ?l)]"
        unfolding z using drop_addrs [of "i - ?l" ?d "unat ?c"] by simp
      moreover have "unat ?c - (unat i - unat ?l) = unat (?v - i)"
        using vi u \<open>unat ?l \<le> unat i\<close> i by (simp add: word_le_nat_alt)
      ultimately show ?thesis
        using True l u unfolding z by (simp add: kv_val_to_iovec_def Let_def algebra_simps)
    qed
  qed
  then show "iov_addrs (kv_val_to_iovec h kv i) = drop (unat i) (iov_addrs (kv_val_to_iovec h kv 0))"
    "length (iov_addrs (kv_val_to_iovec h kv 0)) = unat ?v" by blast+
qed

lemma iovec_bytes_cong:
  assumes "B (KV_KEY kv) = kh_bytes h (KV_KEY kv)"
  shows "kv_val_to_iovec (h\<lparr>kh_bytes := B\<rparr>) kv i = kv_val_to_iovec h kv i"
proof -
  have "KV_VAL (h\<lparr>kh_bytes := B\<rparr>) kv = KV_VAL h kv" "KV_SIZE (h\<lparr>kh_bytes := B\<rparr>) kv = KV_SIZE h kv"
    using assms by (simp_all add: KV_VAL_def KV_SIZE_def KV_KEY_SIZE_def KEY_SIZE_def)
  then show ?thesis by (simp add: kv_val_to_iovec_def kv_is_concat_def Let_def)
qed

lemma block_addr: "n \<le> 2 ^ 64 \<Longrightarrow> a \<in> set (map (\<lambda>j. p + of_nat j) [0..<n]) \<longleftrightarrow> unat (a - p) < n" for a p :: u64
proof
  assume n: "n \<le> 2 ^ 64" and "a \<in> set (map (\<lambda>j. p + of_nat j) [0..<n])"
  then obtain j where "j < n" "a = p + of_nat j" by auto
  then show "unat (a - p) < n" using n unat_of_nat_u64 [of j] by simp
next
  assume "unat (a - p) < n"
  moreover have "a = p + of_nat (unat (a - p))" by simp
  ultimately show "a \<in> set (map (\<lambda>j. p + of_nat j) [0..<n])" by (metis (no_types, lifting) atLeastLessThan_iff image_eqI le0 set_map set_upt)
qed

lemma block_distinct:
  fixes p :: u64
  assumes "n \<le> 2 ^ 64"
  shows "distinct (map (\<lambda>j. p + of_nat j) [0..<n])"
proof -
  have inj: "x = y" if "x < n" "y < n" "p + of_nat x = p + of_nat y" for x y
  proof -
    have u: "unat (of_nat k :: u64) = k" if "k < n" for k by (rule unat_of_nat_u64) (rule less_le_trans [OF that assms])
    have "(of_nat x :: u64) = of_nat y" by (rule add_left_imp_eq [OF that(3)])
    then have "unat (of_nat x :: u64) = unat (of_nat y :: u64)" by (rule arg_cong)
    then show ?thesis unfolding u [OF that(1)] u [OF that(2)] .
  qed
  have "inj_on (\<lambda>j. p + of_nat j) (set [0..<n])"
  proof (rule inj_onI)
    fix x y assume "x \<in> set [0..<n]" "y \<in> set [0..<n]" "p + of_nat x = p + of_nat y"
    moreover from this have "x < n" "y < n" by (simp_all only: set_upt atLeastLessThan_iff)
    ultimately show "x = y" by (intro inj)
  qed
  then show ?thesis unfolding distinct_map using distinct_upt by (rule conjI [rotated])
qed

lemma small_int:
  fixes n :: u64
  assumes "unat n < 2 ^ 31"
  shows "sint (ucast n :: u32) = int (unat n)"
proof -
  have i: "int (unat n) < 2 ^ 31" using assms by (metis of_nat_less_iff of_nat_numeral of_nat_power)
  have "(ucast n :: u32) = word_of_int (int (unat n))" by simp
  moreover have "sint (word_of_int x :: u32) = signed_take_bit 31 x" for x by (simp add: signed_of_int)
  ultimately have "sint (ucast n :: u32) = signed_take_bit 31 (int (unat n))" by (simp only:)
  also have "\<dots> = int (unat n)" by (rule signed_take_bit_int_eq_self) (use i in linarith)+
  finally show ?thesis .
qed

section \<open>Copying into vectors\<close>

lemma put_bytes_other:
  assumes "a \<notin> set (map (\<lambda>j. p + of_nat j) [0..<n])" "length bs \<le> n"
  shows "put_bytes B p bs a = B a"
proof -
  have "a = p + of_nat (unat (a - p))" by simp
  then have "\<not> unat (a - p) < length bs" using assms by (metis (no_types, lifting) atLeastLessThan_iff image_eqI le0 less_le_trans set_map set_upt)
  then show ?thesis by (simp add: put_bytes_def)
qed

lemma map_put_bytes:
  assumes "length bs \<le> n" "n < 2 ^ 64"
  shows "map (put_bytes B p bs) (map (\<lambda>j. p + of_nat j) [0..<n]) = bs @ drop (length bs) (map B (map (\<lambda>j. p + of_nat j) [0..<n]))"
  by (rule nth_equalityI) (use assms in \<open>auto simp: put_bytes_def unat_of_nat_u64 nth_append\<close>)

lemma copy_iov_ok:
  assumes "distinct (iov_addrs vs)" "unat k + length (iov_addrs vs) < 2 ^ 64" "k \<le> n" "unat n \<le> length buffer"
    "unat n \<le> unat k + length (iov_addrs vs)"
  shows "map (copy_iov B vs buffer n k) (iov_addrs vs) =
      take (unat n - unat k) (drop (unat k) buffer) @ drop (unat n - unat k) (map B (iov_addrs vs))"
    and "a \<notin> set (iov_addrs vs) \<Longrightarrow> copy_iov B vs buffer n k a = B a"
proof -
  have "map (copy_iov B vs buffer n k) (iov_addrs vs) =
      take (unat n - unat k) (drop (unat k) buffer) @ drop (unat n - unat k) (map B (iov_addrs vs)) \<and>
    (\<forall>a. a \<notin> set (iov_addrs vs) \<longrightarrow> copy_iov B vs buffer n k a = B a)"
    using assms
  proof (induction vs arbitrary: B k)
    case Nil
    then show ?case by simp
  next
    case (Cons v vs)
    let ?l = "unat (iov_len v)" and ?A = "map (\<lambda>j. iov_base v + of_nat j) [0..<unat (iov_len v)]"
    have d: "distinct (iov_addrs vs)" "set ?A \<inter> set (iov_addrs vs) = {}" using Cons.prems(1) by auto
    have k: "unat (k + iov_len v) = unat k + ?l" "?l < 2 ^ 64"
      using Cons.prems(2) by (simp_all add: unat_word_ariths)
    have nk: "unat (n - k) = unat n - unat k" "unat k \<le> unat n" using Cons.prems(3) by (simp_all add: unat_sub word_le_nat_alt)
    show ?case
    proof (cases "k + iov_len v > n")
      case True
      let ?b = "take (unat n - unat k) (drop (unat k) buffer)"
      have lb: "length ?b = unat n - unat k" using Cons.prems(4) by simp
      have lt: "unat n - unat k < ?l" using True k nk by (simp add: word_less_nat_alt)
      have "map (put_bytes B (iov_base v) ?b) (iov_addrs vs) = map B (iov_addrs vs)"
        using d(2) lb lt by (intro map_cong refl put_bytes_other [where n = ?l]) auto
      moreover have "map (put_bytes B (iov_base v) ?b) ?A = ?b @ drop (length ?b) (map B ?A)"
        by (rule map_put_bytes) (use lb lt k in simp_all)
      moreover have "put_bytes B (iov_base v) ?b a = B a" if "a \<notin> set ?A" for a
        by (rule put_bytes_other [OF that]) (use lb lt in simp)
      ultimately show ?thesis using True lb lt nk by simp
    next
      case False
      let ?b = "take ?l (drop (unat k) buffer)"
      let ?B = "put_bytes B (iov_base v) ?b"
      have le: "unat k + ?l \<le> unat n" using False k by (simp add: not_less word_le_nat_alt)
      have lb: "length ?b = ?l" using Cons.prems(4) le by simp
      have IH: "map (copy_iov ?B vs buffer n (k + iov_len v)) (iov_addrs vs) =
          take (unat n - (unat k + ?l)) (drop (unat k + ?l) buffer) @ drop (unat n - (unat k + ?l)) (map ?B (iov_addrs vs))"
        and IH': "\<And>a. a \<notin> set (iov_addrs vs) \<Longrightarrow> copy_iov ?B vs buffer n (k + iov_len v) a = ?B a"
        using Cons.IH [OF d(1), of "k + iov_len v" ?B] Cons.prems False k by (simp_all add: not_less)
      have o: "map ?B (iov_addrs vs) = map B (iov_addrs vs)"
        using d(2) lb by (intro map_cong refl put_bytes_other [where n = ?l]) auto
      have "map (copy_iov ?B vs buffer n (k + iov_len v)) ?A = map ?B ?A"
        using d(2) by (intro map_cong refl IH') auto
      also have "\<dots> = ?b" using map_put_bytes [of ?b ?l B "iov_base v"] lb k by simp
      finally have A: "map (copy_iov ?B vs buffer n (k + iov_len v)) ?A = ?b" .
      have t: "take (unat n - unat k) (drop (unat k) buffer) = ?b @ take (unat n - (unat k + ?l)) (drop (unat k + ?l) buffer)"
        using le take_add [of ?l "unat n - (unat k + ?l)" "drop (unat k) buffer"] by (simp add: add.commute)
      have "copy_iov ?B vs buffer n (k + iov_len v) a = B a" if "a \<notin> set ?A" "a \<notin> set (iov_addrs vs)" for a
        using IH' [OF that(2)] put_bytes_other [OF that(1), of ?b B] lb by simp
      then show ?thesis using False A IH o t le by simp
    qed
  qed
  then show "map (copy_iov B vs buffer n k) (iov_addrs vs) =
      take (unat n - unat k) (drop (unat k) buffer) @ drop (unat n - unat k) (map B (iov_addrs vs))"
    and "a \<notin> set (iov_addrs vs) \<Longrightarrow> copy_iov B vs buffer n k a = B a" by blast+
qed

section \<open>Properties\<close>

lemma example_concat:
  "kv_sized concat_heap 0x100000" "kv_is_concat concat_heap 0x100000" "kh_val_size concat_heap 0x100000 = 5000"
  "KV_SIZE concat_heap 0x100000 = 5060" "KV_VAL concat_heap 0x100000 = 0x10003C"
  by (simp_all add: concat_heap_def kv_sized_def kv_is_concat_def KV_SIZE_def KV_KEY_SIZE_def KEY_SIZE_def KV_KEY_def KV_VAL_def
      KV_HEADER_def SOO_OBJ_def SOO_OFFSET_MASK_def SOO_OFFSET_SHIFT_def)

lemma example_addrs:
  "iov_addrs (kv_val_to_iovec concat_heap 0x100000 0) =
     map (\<lambda>j. 0x10003C + of_nat j) [0..<4036] @ map (\<lambda>j. 0x200008 + of_nat j) [0..<964]"
proof -
  have "SOO_OBJ (kh_word concat_heap 0x100000) = 0x200000"
    by (simp add: concat_heap_def SOO_OBJ_def SOO_OFFSET_MASK_def SOO_OFFSET_SHIFT_def)
  moreover have "(5060 :: u64) AND PAGE_MASK = 964" by (simp add: PAGE_MASK_def PAGE_SHIFT_def)
  ultimately show ?thesis
    using example_concat by (simp add: kv_val_to_iovec_def concat_data_def Let_def)
qed

text \<open>
  (C32) Reading or writing a value can be resumed at any byte: the vectors for the value from byte \<open>i\<close>
  on cover exactly the addresses that the vectors for the whole value cover after its first \<open>i\<close>
  bytes, in the same order, whether the value is in one block or in two, and the whole value is
  covered.
\<close>

theorem iovec_resumes:
  assumes "kv_sized h kv" "i \<le> kh_val_size h kv"
  shows "iov_addrs (kv_val_to_iovec h kv i) = drop (unat i) (iov_addrs (kv_val_to_iovec h kv 0)) \<and>
    length (iov_addrs (kv_val_to_iovec h kv 0)) = unat (kh_val_size h kv)"
  using iov_addrs_drop [OF assms] by blast

theorem iovec_resumes_witness:
  "kv_is_concat concat_heap 0x100000 \<and>
   iov_addrs (kv_val_to_iovec concat_heap 0x100000 4100) = drop 4100 (iov_addrs (kv_val_to_iovec concat_heap 0x100000 0))"
  using iovec_resumes [OF example_concat(1), of 4100] example_concat(2,3) by simp

text \<open>
  (C31) What is copied into a value is what is read from it: after copying at most \<open>n\<close> bytes of a
  buffer the value starts with them, as many as fit, and keeps its other bytes; the result counts
  the copied bytes; and no byte outside the value changes. The value must not overlap itself or the
  length byte of the key.
\<close>

theorem copy_val_roundtrip:
  assumes "kv_sized h kv" "unat n \<le> length buffer" "n < 2 ^ 31"
    and "distinct (iov_addrs (kv_val_to_iovec h kv 0))" "KV_KEY kv \<notin> set (iov_addrs (kv_val_to_iovec h kv 0))"
  defines "m \<equiv> min (unat n) (unat (kh_val_size h kv))" and "r \<equiv> kv_copy_val h kv buffer n"
  shows "kv_value (snd r) kv = take m buffer @ drop m (kv_value h kv) \<and> fst r = int m \<and>
    (\<forall>a. a \<notin> set (iov_addrs (kv_val_to_iovec h kv 0)) \<longrightarrow> kh_bytes (snd r) a = kh_bytes h a)"
proof -
  let ?A = "iov_addrs (kv_val_to_iovec h kv 0)" and ?n = "if kh_val_size h kv < n then kh_val_size h kv else n"
  let ?B = "copy_iov (kh_bytes h) (kv_val_to_iovec h kv 0) buffer ?n 0"
  have m: "unat ?n = m" "?n \<le> n" by (simp add: m_def word_less_nat_alt min_def) auto
  have len: "length ?A = unat (kh_val_size h kv)" using iov_addrs_drop(2) [OF assms(1), of 0] by simp
  have l64: "length ?A < 2 ^ 64" unfolding len using unat_u64 [of "kh_val_size h kv"] by simp
  have le: "unat ?n \<le> length buffer" "unat ?n \<le> length ?A" unfolding m(1) len using assms(2) by (auto simp: m_def)
  have c: "map ?B ?A = take m buffer @ drop m (map (kh_bytes h) ?A)" "\<And>a. a \<notin> set ?A \<Longrightarrow> ?B a = kh_bytes h a"
    using copy_iov_ok(1) [OF assms(4), where k = 0 and n = ?n and buffer = buffer and B = "kh_bytes h"]
      copy_iov_ok(2) [OF assms(4), where k = 0 and n = ?n and buffer = buffer and B = "kh_bytes h"] l64 le m(1) by simp_all
  have r: "snd r = h\<lparr>kh_bytes := ?B\<rparr>" "fst r = sint (ucast ?n :: u32)" by (simp_all add: r_def kv_copy_val_def Let_def)
  have "?B (KV_KEY kv) = kh_bytes h (KV_KEY kv)" by (rule c(2) [OF assms(5)])
  then have "kv_val_to_iovec (snd r) kv 0 = kv_val_to_iovec h kv 0"
    unfolding r by (rule iovec_bytes_cong)
  then have v: "kv_value (snd r) kv = take m buffer @ drop m (kv_value h kv)"
    using c(1) unfolding kv_value_def by (simp add: r(1))
  have "m < 2 ^ 31" using m assms(3) by (simp add: word_le_nat_alt word_less_nat_alt)
  then have "sint (ucast ?n :: u32) = int (unat ?n)"
    unfolding m(1) [symmetric] by (rule small_int)
  then have "fst r = int m" unfolding r(2) m(1) .
  then show ?thesis using v c(2) by (simp add: r(1))
qed

theorem copy_val_roundtrip_witness:
  "take 3 (kv_value (snd (kv_copy_val concat_heap 0x100000 [7, 8, 9] 3)) 0x100000) = [7, 8, 9] \<and>
   fst (kv_copy_val concat_heap 0x100000 [7, 8, 9] 3) = 3"
proof -
  let ?A = "map (\<lambda>j. 0x10003C + of_nat j :: u64) [0..<4036]" and ?B = "map (\<lambda>j. 0x200008 + of_nat j :: u64) [0..<964]"
  have "x \<notin> set ?B" if x: "x \<in> set ?A" for x
  proof
    assume "x \<in> set ?B"
    then obtain k where k: "k < 964" "x = 0x200008 + of_nat k" by auto
    obtain j where j: "j < 4036" "x = 0x10003C + of_nat j" using x by auto
    have "unat x = 0x10003C + j" unfolding j(2) using j(1) by (simp add: unat_word_ariths unat_of_nat_u64)
    moreover have "unat x = 0x200008 + k" unfolding k(2) using k(1) by (simp add: unat_word_ariths unat_of_nat_u64)
    ultimately show False using j(1) by simp
  qed
  then have "distinct (?A @ ?B)" using block_distinct [of 4036] block_distinct [of 964] by auto
  moreover have "(0x100038 :: u64) \<notin> set (?A @ ?B)"
    unfolding set_append Un_iff using block_addr [of 4036 "0x100038" "0x10003C"] block_addr [of 964 "0x100038" "0x200008"] by simp
  ultimately have "kv_value (snd (kv_copy_val concat_heap 0x100000 [7, 8, 9] 3)) 0x100000 = [7, 8, 9] @ drop 3 (kv_value concat_heap 0x100000)"
    "fst (kv_copy_val concat_heap 0x100000 [7, 8, 9] 3) = 3"
    using copy_val_roundtrip [OF example_concat(1), of 3 "[7, 8, 9]"] example_concat(3) unfolding example_addrs
    by (simp_all add: KV_KEY_def KV_HEADER_def)
  then show ?thesis by simp
qed



end
