(* ===== verification/Spec2Isabelle.thy ===== *)
theory Spec2Isabelle
  imports Umem_Prelude Slab Intrusive_List Memory Fixed_Mem_Cache Murmur_Hash3 Hash_Table Machine Raft_Log Raft_Proto Raft_Conn
    Cluster Raft_Server Raft_Heap Raft_Memory Quorum Kv
begin

text \<open>
  \<^bold>\<open>umem-cache\<close>: a verification development of the cache server in \<^verbatim>\<open>src/\<close>.

  The program is a memory cache for keys and values that can run as a cluster. A fixed set of
  threads serves the keys; each has a memory budget (\<^verbatim>\<open>memory.c\<close>), pools of fixed-size objects
  (\<^verbatim>\<open>fixed_mem_cache.c\<close>), slabs for keys and values (\<^verbatim>\<open>slab.c\<close>), and a hash table with incremental
  resizing and a memory of evicted keys (\<^verbatim>\<open>hash_table.c\<close>, \<^verbatim>\<open>murmur_hash3.c\<close>). A cluster server
  (\<^verbatim>\<open>service_raft.c\<close>) keeps the configuration of the cluster, the log of machines
  (\<^verbatim>\<open>log.c\<close>, \<^verbatim>\<open>machine.c\<close>), agreed with a variant of Raft, talks to its peers and users over
  connections (\<^verbatim>\<open>raft_conn.c\<close>) in a binary protocol (\<^verbatim>\<open>raft_proto.h\<close>), and tracks the members of
  the cluster and the votes they make up (\<^verbatim>\<open>member.c\<close>, \<^verbatim>\<open>cluster.c\<close>).

  \<^bold>\<open>Theories and what they model\<close>

  \<^item> \<open>Umem_Prelude\<close>: the types of machine words, the constants of \<^verbatim>\<open>config.h\<close> and \<^verbatim>\<open>align.h\<close>,
    and the lemmas on words and lists that the components share.
  \<^item> \<open>Slab\<close>: tagged pointers to slab objects and the search for the order of a slab. The tag is
    recovered exactly, and the search returns within its bound.
  \<^item> \<open>Intrusive_List\<close>: the circular lists and hash lists of \<^verbatim>\<open>list.h\<close> on explicit stores of
    links, related to HOL lists. Moving and relocating nodes keeps the order of the others.
  \<^item> \<open>Memory\<close>, \<open>Fixed_Mem_Cache\<close>: the page accountant and the object pools; neither loses nor
    duplicates anything over arbitrary runs. \<^verbatim>\<open>mmap\<close> is a parameter.
  \<^item> \<open>Murmur_Hash3\<close>: the key hash, equal to a block-wise reference and injective in each block.
  \<^item> \<open>Hash_Table\<close>: lookup, insertion, deletion, resizing with incremental migration and the ghost
    queue, on a store of buckets, nodes and key bytes. Legal runs answer as a finite map does.
  \<^item> \<open>Kv\<close>: cached keys and values (\<^verbatim>\<open>kv.c\<close>): the vectors that cover a value, copying into it, and
    borrowers. A transfer can be resumed at any byte, and what is copied is what is read.
  \<^item> \<open>Machine\<close>, \<open>Raft_Log\<close>: machines of a configuration and the log that changes it; every
    completed change keeps the log well formed, and a slot whose keys move gets a new version.
  \<^item> \<open>Raft_Proto\<close>: the messages with their byte layout; what is written is read back.
  \<^item> \<open>Raft_Conn\<close>: connections over stores of logs and connections, with the operating system as a
    parameter; \<open>refs\<close> says that reference counts are exact.
  \<^item> \<open>Cluster\<close>: the members of a cluster and the votes it requires.
  \<^item> \<open>Raft_Server\<close>: the record of the server, one definition per function of \<^verbatim>\<open>service_raft.c\<close>, and
    one round of its event loop over a list of events.
  \<^item> \<open>Raft_Heap\<close>, \<open>Raft_Memory\<close>: the stores stay consistent. The first has the invariant and the
    handlers of one connection, the second changes of cluster, elections, replication and rounds;
    the theorems are about every state that sequences of rounds reach from the start.
  \<^item> \<open>Quorum\<close>: the members of a cluster represent the configurations of its log; elections and
    commits succeed exactly with majorities of all of them, and decisions that share a
    configuration share a machine.

  \<^bold>\<open>Conventions\<close>

  Machine integers are words of their width and wrap around; addresses in the hash table and the
  lists are 64-bit words, logs, connections and clusters are entries of stores and a freed one has
  no entry. Code outside \<^verbatim>\<open>src/\<close> is a parameter: \<open>mmap\<close>, and the record \<open>os\<close> with the results of
  \<^verbatim>\<open>read\<close>, \<^verbatim>\<open>send\<close>, \<^verbatim>\<open>connect\<close>, \<^verbatim>\<open>malloc\<close> and the content of fresh memory. Errors are values:
  \<open>None\<close>, a boolean result, the \<open>outcome\<close> of completing a log, or the flag \<open>halted\<close> where the code
  ends the process or runs into undefined behaviour.

  \<^bold>\<open>Bounds and fuel\<close>

  Loops are structural recursions over the data they visit. The walks of the hash lists and the
  binary search take a bound on the length; the walk of a bucket is bounded by the number of
  entries of the table, which the invariant shows to be enough.

  \<^bold>\<open>Simplifications\<close>

  Reference counts of logs are unbounded integers where the code has 64 bits, and addresses of logs,
  connections and clusters are not reused. The fields of the server's union are separate. Arming a
  timer is not a step: ticks are events of a round, the interval does not matter, and the theorems
  about reachable states assume that a server whose log is still empty, whose timer is not armed, is
  a follower at every event (\<open>initialised\<close>). \<^verbatim>\<open>qsort\<close> and \<^verbatim>\<open>bsearch\<close> of the C library are an insertion
  sort and a binary search with the comparators of the code. The bytes of the keys do not change
  during a run of the hash table, and what clients write to the objects of a pool they hold is left out.

  \<^bold>\<open>Not modelled\<close>

  \<^item> \<^verbatim>\<open>kv_cache.c\<close>: the free list of slab objects and the migration that empties a slab. It rewrites
    links of the LRU lists, the buckets and the borrower lists at once, a state that only a model of
    the whole cache thread has; slab orders, tagged pointers and moving a node are modelled.
  \<^item> \<^verbatim>\<open>thread.c\<close>, \<^verbatim>\<open>conn.h\<close>: the event loop of a cache thread, which composes the modelled parts with
    that allocator: connections, locked keys, eviction, the clock.
  \<^item> \<^verbatim>\<open>service.c\<close>, \<^verbatim>\<open>main.c\<close>: accepting sockets, reading the number of a thread and handing the socket
    over; the arguments of the program.
  \<^item> \<^verbatim>\<open>socket.c\<close>, \<^verbatim>\<open>tls.c\<close>, \<^verbatim>\<open>epoll.h\<close>, \<^verbatim>\<open>debug.h\<close>, \<^verbatim>\<open>rwonce.h\<close>: wrappers of system calls and of a TLS
    library, and macros. The build with \<^verbatim>\<open>CONFIG_KERNEL_TLS\<close> is left out everywhere.
\<close>

end
